(* ===== verification/Prelude.thy ===== *)
theory Prelude
  imports Main "HOL-Library.Word" "HOL-Library.Char_ord"
begin

text \<open>
  Shared vocabulary of the development: octet strings, the width constants of the machine
  integers that occur in the sources, the text searches of \<open>std::string_view\<close> that the
  components call, decimal conversion as \<open>std::to_chars\<close> and \<open>std::from_chars\<close>
  perform it, and the list lemmas the component proofs have in common.

  Octets are HOL characters (eight bits), \<open>std::string_view\<close> and \<open>std::string\<close> are
  lists of them, and offsets (\<open>std::size_t\<close>) are natural numbers. Where a computation of the
  sources could leave its width, the reduction modulo the width is written out.
\<close>

section \<open>Octets and widths\<close>

type_synonym octets = "char list"

text \<open>The collections the component proofs feed to the simplifier.\<close>

named_theorems char_class "definitions of the character classes"
named_theorems cursor_len "how parser steps change the length of the unread input"

definition u64_max :: nat where
  "u64_max = 2 ^ 64 - 1"

definition u32_max :: nat where
  "u32_max = 2 ^ 32 - 1"

definition wrap64 :: "nat \<Rightarrow> nat" where
  "wrap64 n = n mod 2 ^ 64"

definition wrap32 :: "nat \<Rightarrow> nat" where
  "wrap32 n = n mod 2 ^ 32"

abbreviation CR :: char where "CR \<equiv> CHR 0x0D"
abbreviation LF :: char where "LF \<equiv> CHR 0x0A"
abbreviation SP :: char where "SP \<equiv> CHR '' ''"
abbreviation DQUOTE :: char where "DQUOTE \<equiv> CHR 0x22"
abbreviation BSLASH :: char where "BSLASH \<equiv> CHR 0x5C"
abbreviation CRLF :: octets where "CRLF \<equiv> [CR, LF]"

lemma wrap64_id [simp]: "n \<le> u64_max \<Longrightarrow> wrap64 n = n"
  by (simp add: wrap64_def u64_max_def)

lemma wrap32_id [simp]: "n \<le> u32_max \<Longrightarrow> wrap32 n = n"
  by (simp add: wrap32_def u32_max_def)

lemma wrap64_le [simp]: "wrap64 n \<le> u64_max"
proof -
  have "n mod 2 ^ 64 < (2 ^ 64 :: nat)" by (rule mod_less_divisor) simp
  then show ?thesis unfolding wrap64_def u64_max_def by linarith
qed

lemma wrap32_le [simp]: "wrap32 n \<le> u32_max"
proof -
  have "n mod 2 ^ 32 < (2 ^ 32 :: nat)" by (rule mod_less_divisor) simp
  then show ?thesis unfolding wrap32_def u32_max_def by linarith
qed

section \<open>Searching a string view\<close>

text \<open>\<open>find_char\<close> is \<open>string_view::find(c)\<close>: the first offset, or None for \<open>npos\<close>.\<close>

fun find_char :: "char \<Rightarrow> octets \<Rightarrow> nat option" where
  "find_char c [] = None"
| "find_char c (x # xs) = (if x = c then Some 0 else map_option Suc (find_char c xs))"

lemma find_char_None [simp]: "find_char c xs = None \<longleftrightarrow> c \<notin> set xs"
  by (induction xs) auto

lemma find_char_SomeD:
  "find_char c xs = Some i \<Longrightarrow> i < length xs \<and> xs ! i = c \<and> c \<notin> set (take i xs)"
  by (induction xs arbitrary: i) (auto split: if_splits)

lemma find_char_append [simp]:
  "c \<notin> set xs \<Longrightarrow> find_char c (xs @ c # ys) = Some (length xs)"
  by (induction xs) auto

lemma find_char_takeWhile:
  "find_char c xs = Some i \<Longrightarrow> take i xs = takeWhile (\<lambda>x. x \<noteq> c) xs"
  by (induction xs arbitrary: i) (auto split: if_splits)

section \<open>Decimal digits\<close>

definition digit_char :: "nat \<Rightarrow> char" where
  "digit_char d = char_of (48 + d)"

definition digit_val :: "char \<Rightarrow> nat" where
  "digit_val c = of_char c - 48"

text \<open>\<open>to_chars\<close> is \<open>std::to_chars\<close> / \<open>std::to_string\<close> on an unsigned value.\<close>

fun to_chars :: "nat \<Rightarrow> octets" where
  "to_chars n = (if n < 10 then [digit_char n] else to_chars (n div 10) @ [digit_char (n mod 10)])"

declare to_chars.simps [simp del]

text \<open>The value of a digit run, most significant digit first.\<close>

definition dec_value_from :: "nat \<Rightarrow> octets \<Rightarrow> nat" where
  "dec_value_from v ds = foldl (\<lambda>a c. a * 10 + digit_val c) v ds"

abbreviation dec_value :: "octets \<Rightarrow> nat" where
  "dec_value \<equiv> dec_value_from 0"

text \<open>
  \<open>from_chars\<close> is \<open>std::from_chars\<close> on a run of decimal digits for an unsigned type with
  the largest value \<open>m\<close>: \<open>None\<close> stands for \<open>result_out_of_range\<close>.
\<close>

definition from_chars :: "nat \<Rightarrow> octets \<Rightarrow> nat option" where
  "from_chars m ds = (if dec_value ds \<le> m then Some (dec_value ds) else None)"

lemma dec_value_from_Nil [simp]: "dec_value_from v [] = v"
  by (simp add: dec_value_from_def)

lemma dec_value_from_Cons [simp]:
  "dec_value_from v (c # cs) = dec_value_from (v * 10 + digit_val c) cs"
  by (simp add: dec_value_from_def)

lemma dec_value_from_append [simp]:
  "dec_value_from v (cs @ ds) = dec_value_from (dec_value_from v cs) ds"
  by (simp add: dec_value_from_def)

lemma dec_value_from_ge: "v \<le> dec_value_from v cs"
proof (induction cs arbitrary: v)
  case (Cons c cs)
  have "v \<le> v * 10 + digit_val c" by simp
  also have "\<dots> \<le> dec_value_from (v * 10 + digit_val c) cs" by (rule Cons)
  finally show ?case by simp
qed simp

lemma digit_val_char [simp]: "d < 10 \<Longrightarrow> digit_val (digit_char d) = d"
  by (simp add: digit_val_def digit_char_def)

lemma dec_value_to_chars [simp]: "dec_value (to_chars n) = n"
proof (induction n rule: to_chars.induct)
  case (1 n)
  show ?case
  proof (cases "n < 10")
    case True
    then show ?thesis by (subst to_chars.simps) simp
  next
    case False
    with 1 have "dec_value (to_chars (n div 10)) = n div 10" by simp
    with False show ?thesis by (subst to_chars.simps) simp
  qed
qed

lemma to_chars_nonempty [simp]: "to_chars n \<noteq> []"
  by (subst to_chars.simps) simp

lemma from_chars_to_chars [simp]: "n \<le> m \<Longrightarrow> from_chars m (to_chars n) = Some n"
  by (simp add: from_chars_def)

end
