(* ===== verification/Astring.thy ===== *)
theory Astring
  imports Prelude
begin

text \<open>
  The character classes and rendering helpers of \<open>imap/detail/astring.h\<close>: the RFC 3501
  classes, ASCII case folding, the classification of an argument for rendering and the three
  renderings (atom, quoted string, literal).

  An \<open>assert\<close> of the sources that does not hold ends the program: the operation that
  contains it returns \<open>None\<close> in the model.
\<close>

section \<open>Character classes\<close>

definition is_char :: "char \<Rightarrow> bool" where
  [char_class]: "is_char c \<longleftrightarrow> (0x01 :: nat) \<le> of_char c \<and> of_char c \<le> (0x7F :: nat)"

definition is_ctl :: "char \<Rightarrow> bool" where
  [char_class]: "is_ctl c \<longleftrightarrow> of_char c \<le> (0x1F :: nat) \<or> of_char c = (0x7F :: nat)"

definition is_list_wildcard :: "char \<Rightarrow> bool" where
  [char_class]: "is_list_wildcard c \<longleftrightarrow> c = CHR ''%'' \<or> c = CHR ''*''"

definition is_quoted_special :: "char \<Rightarrow> bool" where
  [char_class]: "is_quoted_special c \<longleftrightarrow> c = DQUOTE \<or> c = BSLASH"

definition is_resp_special :: "char \<Rightarrow> bool" where
  [char_class]: "is_resp_special c \<longleftrightarrow> c = CHR '']''"

definition is_atom_special :: "char \<Rightarrow> bool" where
  [char_class]: "is_atom_special c \<longleftrightarrow>
     c = CHR ''('' \<or> c = CHR '')'' \<or> c = CHR ''{'' \<or> c = SP \<or> is_ctl c \<or>
     is_list_wildcard c \<or> is_quoted_special c \<or> is_resp_special c"

definition is_atom_char :: "char \<Rightarrow> bool" where
  [char_class]: "is_atom_char c \<longleftrightarrow> is_char c \<and> \<not> is_atom_special c"

definition is_astring_char :: "char \<Rightarrow> bool" where
  [char_class]: "is_astring_char c \<longleftrightarrow> is_atom_char c \<or> is_resp_special c"

definition is_tag_char :: "char \<Rightarrow> bool" where
  [char_class]: "is_tag_char c \<longleftrightarrow> is_astring_char c \<and> c \<noteq> CHR ''+''"

definition is_text_char :: "char \<Rightarrow> bool" where
  [char_class]: "is_text_char c \<longleftrightarrow> is_char c \<and> c \<noteq> CR \<and> c \<noteq> LF"

definition is_digit :: "char \<Rightarrow> bool" where
  [char_class]: "is_digit c \<longleftrightarrow> (48 :: nat) \<le> of_char c \<and> of_char c \<le> (57 :: nat)"

definition ascii_to_upper :: "char \<Rightarrow> char" where
  "ascii_to_upper c =
     (if (97 :: nat) \<le> of_char c \<and> of_char c \<le> (122 :: nat)
      then char_of ((of_char c :: nat) - 97 + 65) else c)"

definition ascii_iequals :: "octets \<Rightarrow> octets \<Rightarrow> bool" where
  "ascii_iequals a b \<longleftrightarrow>
     length a = length b \<and> list_all2 (\<lambda>x y. ascii_to_upper x = ascii_to_upper y) a b"

section \<open>Classification and rendering\<close>

datatype astring_class = Atom_class | Quoted_class | Literal_class

definition classify_astring :: "octets \<Rightarrow> astring_class" where
  "classify_astring v =
     (if v = [] then Quoted_class
      else
        (let (atom, text) = foldl (\<lambda>(a, t) c. (a \<and> is_astring_char c, t \<and> is_text_char c))
                              (True, True) v
         in if atom then Atom_class else if text then Quoted_class else Literal_class))"

fun escape_quoted :: "octets \<Rightarrow> octets" where
  "escape_quoted [] = []"
| "escape_quoted (c # cs) =
     (if is_quoted_special c then BSLASH # c # escape_quoted cs else c # escape_quoted cs)"

text \<open>\<open>quote\<close> is the body of the rendering loop, shared with the command files.\<close>

definition quote :: "octets \<Rightarrow> octets" where
  "quote v = DQUOTE # escape_quoted v @ [DQUOTE]"

definition render_quoted :: "octets \<Rightarrow> octets \<Rightarrow> octets option" where
  "render_quoted v out = (if list_all is_text_char v then Some (out @ quote v) else None)"

definition render_astring :: "octets \<Rightarrow> octets \<Rightarrow> octets option" where
  "render_astring v out =
     (case classify_astring v of
        Literal_class \<Rightarrow> None
      | Atom_class \<Rightarrow> Some (out @ v)
      | Quoted_class \<Rightarrow> render_quoted v out)"

datatype literal_mode = Synchronizing | Non_synchronizing

definition literal_marker :: "nat \<Rightarrow> literal_mode \<Rightarrow> octets" where
  "literal_marker n mode =
     ''{'' @ to_chars n @ (if mode = Non_synchronizing then ''+'' else []) @ ''}''"

definition render_literal :: "octets \<Rightarrow> octets \<Rightarrow> literal_mode \<Rightarrow> octets" where
  "render_literal data out mode = out @ literal_marker (length data) mode @ CRLF @ data"

section \<open>Facts about the classes\<close>

lemma digit_char_is_digit [simp]: "d < 10 \<Longrightarrow> is_digit (digit_char d)"
  by (simp add: is_digit_def digit_char_def)

lemma digit_val_le [simp]: "is_digit c \<Longrightarrow> digit_val c \<le> 9"
  unfolding digit_val_def is_digit_def by linarith

lemma to_chars_digits: "list_all is_digit (to_chars n)"
proof (induction n rule: to_chars.induct)
  case (1 n)
  show ?case
    by (subst to_chars.simps) (use 1 in auto)
qed

lemma to_chars_all_digit [simp]: "c \<in> set (to_chars n) \<Longrightarrow> is_digit c"
  using to_chars_digits [of n] by (auto simp: list_all_iff)

lemma not_digit_literals [simp]:
  "\<not> is_digit (CHR ''}'')" "\<not> is_digit (CHR ''{'')" "\<not> is_digit (CHR ''+'')"
  "\<not> is_digit SP" "\<not> is_digit CR" "\<not> is_digit LF" "\<not> is_digit (CHR ''~'')"
  "\<not> is_digit (CHR '')'')" "\<not> is_digit (CHR ''('')" "\<not> is_digit DQUOTE"
  by (simp_all add: is_digit_def)

lemma not_atom_char_literals [simp]:
  "\<not> is_atom_char (CHR ''{'')" "\<not> is_atom_char SP" "\<not> is_atom_char CR" "\<not> is_atom_char LF"
  "\<not> is_atom_char (CHR '')'')" "\<not> is_atom_char (CHR ''('')" "\<not> is_atom_char DQUOTE"
  "\<not> is_atom_char BSLASH" "\<not> is_atom_char (CHR '']'')" "\<not> is_atom_char (CHR ''*'')"
  by (simp_all add: char_class)

lemma digit_is_atom_char: "is_digit c \<Longrightarrow> is_atom_char c"
  by (auto simp: char_class)

lemma ascii_iequals_refl [simp]: "ascii_iequals a a"
  by (simp add: ascii_iequals_def list_all2_same)

lemma ascii_iequals_sym: "ascii_iequals a b \<longleftrightarrow> ascii_iequals b a"
  by (auto simp: ascii_iequals_def list_all2_conv_all_nth)

lemma ascii_iequals_trans: "ascii_iequals a b \<Longrightarrow> ascii_iequals b c \<Longrightarrow> ascii_iequals a c"
  by (auto simp: ascii_iequals_def list_all2_conv_all_nth)

lemma ascii_iequals_iff_map:
  "ascii_iequals a b \<longleftrightarrow> map ascii_to_upper a = map ascii_to_upper b"
  unfolding ascii_iequals_def
  by (metis list_all2_eq list.rel_map(1) list.rel_map(2) list_all2_lengthD length_map
      list.rel_mono_strong)

lemma ascii_iequals_code [code]:
  "ascii_iequals a b = (map ascii_to_upper a = map ascii_to_upper b)"
  by (rule ascii_iequals_iff_map)

lemma classify_fold:
  "foldl (\<lambda>(a, t) c. (a \<and> is_astring_char c, t \<and> is_text_char c)) (a0, t0) v
     = (a0 \<and> list_all is_astring_char v, t0 \<and> list_all is_text_char v)"
  by (induction v arbitrary: a0 t0) auto

lemma classify_astring_alt:
  "classify_astring v =
     (if v = [] then Quoted_class
      else if list_all is_astring_char v then Atom_class
      else if list_all is_text_char v then Quoted_class else Literal_class)"
  by (simp add: classify_astring_def classify_fold)

end
