(* ===== verification/Cursor.thy ===== *)
theory Cursor
  imports Astring
begin

text \<open>
  The deep-parse cursor of \<open>imap/detail/parse_cursor.h\<close>: a position in one response text and
  a scratch buffer for unescaped quoted strings. Every accessor is a function from a cursor to
  its result and the cursor afterwards, also on failure, since a failed accessor may have moved
  (\<open>read_quoted\<close>) or not (\<open>read_literal\<close>).

  A returned \<open>std::string_view\<close> either aliases the response text or the scratch buffer, and
  the latter dies at the next rewrite of the buffer. A \<open>view\<close> therefore records its octets
  and, for a scratch view, which rewrite it belongs to; \<open>view_alive\<close> tells whether it may
  still be read.

  The locale \<open>cursor_op\<close> is the contract of an accessor towards the parsers: it keeps the
  text, never moves backwards and never leaves the text. Every accessor is an interpretation.
\<close>

section \<open>State and views\<close>

record cursor =
  ctext :: octets
  cpos :: nat
  scratch :: octets
  scratch_uses :: nat

datatype view = Text_view octets | Scratch_view octets nat

fun view_str :: "view \<Rightarrow> octets" where
  "view_str (Text_view v) = v"
| "view_str (Scratch_view v g) = v"

fun view_alive :: "cursor \<Rightarrow> view \<Rightarrow> bool" where
  "view_alive c (Text_view v) \<longleftrightarrow> True"
| "view_alive c (Scratch_view v g) \<longleftrightarrow> g = scratch_uses c"

definition mk_cursor :: "octets \<Rightarrow> cursor" where
  "mk_cursor text = \<lparr>ctext = text, cpos = 0, scratch = [], scratch_uses = 0\<rparr>"

definition at_end :: "cursor \<Rightarrow> bool" where
  "at_end c \<longleftrightarrow> cpos c \<ge> length (ctext c)"

definition peek :: "cursor \<Rightarrow> char" where
  "peek c = (if at_end c then CHR 0x00 else ctext c ! cpos c)"

definition position :: "cursor \<Rightarrow> nat" where
  "position c = cpos c"

definition remaining :: "cursor \<Rightarrow> octets" where
  "remaining c = drop (cpos c) (ctext c)"

section \<open>Consuming and skipping\<close>

definition try_consume :: "char \<Rightarrow> cursor \<Rightarrow> bool \<times> cursor" where
  "try_consume expected c =
     (if \<not> at_end c \<and> ctext c ! cpos c = expected then (True, c\<lparr>cpos := cpos c + 1\<rparr>)
      else (False, c))"

definition try_consume_ci :: "octets \<Rightarrow> cursor \<Rightarrow> bool \<times> cursor" where
  "try_consume_ci word c =
     (let rest = remaining c
      in if length rest < length word \<or> \<not> ascii_iequals (take (length word) rest) word
         then (False, c)
         else (True, c\<lparr>cpos := cpos c + length word\<rparr>))"

text \<open>The loop \<open>while (!at_end() && p(text_[pos_])) ++pos_\<close> of several accessors.\<close>

function advance_while :: "(char \<Rightarrow> bool) \<Rightarrow> octets \<Rightarrow> nat \<Rightarrow> nat" where
  "advance_while p text i =
     (if i < length text \<and> p (text ! i) then advance_while p text (Suc i) else i)"
  by pat_completeness auto
termination by (relation "measure (\<lambda>(p, text, i). length text - i)") auto

declare advance_while.simps [simp del]

definition skip_spaces :: "cursor \<Rightarrow> cursor" where
  "skip_spaces c = c\<lparr>cpos := advance_while (\<lambda>x. x = SP) (ctext c) (cpos c)\<rparr>"

definition read_while :: "(char \<Rightarrow> bool) \<Rightarrow> cursor \<Rightarrow> octets \<times> cursor" where
  "read_while p c =
     (let stop = advance_while p (ctext c) (cpos c)
      in (take (stop - cpos c) (drop (cpos c) (ctext c)), c\<lparr>cpos := stop\<rparr>))"

definition read_until_any :: "octets \<Rightarrow> cursor \<Rightarrow> octets \<times> cursor" where
  "read_until_any stops c = read_while (\<lambda>x. x \<notin> set stops) c"

definition read_atom :: "cursor \<Rightarrow> octets \<times> cursor" where
  "read_atom c = read_while is_atom_char c"

definition read_number :: "cursor \<Rightarrow> nat option \<times> cursor" where
  "read_number c =
     (let (digits, c') = read_while is_digit c
      in if cpos c' = cpos c then (None, c') else (from_chars u64_max digits, c'))"

section \<open>Strings\<close>

text \<open>
  The validation loop of \<open>read_quoted\<close>: where it stops, and whether it saw an escape (None
  when the input is malformed).
\<close>

function quoted_loop :: "octets \<Rightarrow> nat \<Rightarrow> bool \<Rightarrow> nat \<times> bool option" where
  "quoted_loop text i escaped =
     (if i < length text \<and> text ! i \<noteq> DQUOTE then
        (if text ! i = BSLASH then
           (if i + 1 < length text \<and> is_quoted_special (text ! (i + 1))
            then quoted_loop text (i + 2) True
            else (i + 1, None))
         else if text ! i = CR \<or> text ! i = LF then (i, None)
         else quoted_loop text (i + 1) escaped)
      else if i < length text then (i, Some escaped) else (i, None))"
  by pat_completeness auto
termination by (relation "measure (\<lambda>(text, i, e). length text - i)") auto

declare quoted_loop.simps [simp del]

text \<open>The unescape loop; the validation above keeps the index after a backslash in range.\<close>

fun unescape :: "octets \<Rightarrow> octets" where
  "unescape (x # y # xs) = (if x = BSLASH then y # unescape xs else x # unescape (y # xs))"
| "unescape [x] = (if x = BSLASH then [] else [x])"
| "unescape [] = []"

definition read_quoted :: "cursor \<Rightarrow> view option \<times> cursor" where
  "read_quoted c =
     (case try_consume DQUOTE c of
        (False, c1) \<Rightarrow> (None, c1)
      | (True, c1) \<Rightarrow>
          (case quoted_loop (ctext c1) (cpos c1) False of
             (stop, None) \<Rightarrow> (None, c1\<lparr>cpos := stop\<rparr>)
           | (stop, Some escaped) \<Rightarrow>
               (let body = take (stop - cpos c1) (drop (cpos c1) (ctext c1));
                    c2 = c1\<lparr>cpos := stop + 1\<rparr>
                in if \<not> escaped then (Some (Text_view body), c2)
                   else
                     (let value = unescape body; gen = scratch_uses c2 + 1
                      in (Some (Scratch_view value gen),
                          c2\<lparr>scratch := value, scratch_uses := gen\<rparr>)))))"

text \<open>
  The marker of a literal at offset \<open>p0\<close>, as \<open>read_literal\<close> scans it: the offset of the
  first octet after the marker's line end, and the announced count.
\<close>

definition literal_head :: "octets \<Rightarrow> nat \<Rightarrow> (nat \<times> nat) option" where
  "literal_head src p0 =
     (let size = length src;
          p1 = (if p0 < size \<and> src ! p0 = CHR ''~'' then p0 + 1 else p0)
      in if p1 \<ge> size \<or> src ! p1 \<noteq> CHR ''{'' then None
         else
           (let digits_start = p1 + 1;
                p2 = advance_while is_digit src digits_start
            in if p2 = digits_start then None
               else
                 (case from_chars u64_max (take (p2 - digits_start) (drop digits_start src)) of
                    None \<Rightarrow> None
                  | Some count \<Rightarrow>
                      (let p3 = (if p2 < size \<and> src ! p2 = CHR ''+'' then p2 + 1 else p2)
                       in if p3 \<ge> size \<or> src ! p3 \<noteq> CHR ''}'' then None
                          else
                            (let p4 = p3 + 1
                             in if p4 + 1 \<ge> size \<or> src ! p4 \<noteq> CR \<or> src ! (p4 + 1) \<noteq> LF
                                then None
                                else Some (p4 + 2, count))))))"

definition read_literal :: "cursor \<Rightarrow> view option \<times> cursor" where
  "read_literal c =
     (case literal_head (ctext c) (cpos c) of
        None \<Rightarrow> (None, c)
      | Some (p, count) \<Rightarrow>
          (if length (ctext c) - p < count then (None, c)
           else (Some (Text_view (take count (drop p (ctext c)))), c\<lparr>cpos := p + count\<rparr>)))"

definition read_string :: "cursor \<Rightarrow> view option \<times> cursor" where
  "read_string c =
     (if peek c = DQUOTE then read_quoted c
      else if peek c = CHR ''{'' \<or> peek c = CHR ''~'' then read_literal c
      else (None, c))"

definition read_astring :: "cursor \<Rightarrow> view option \<times> cursor" where
  "read_astring c =
     (if peek c = DQUOTE \<or> peek c = CHR ''{'' \<or> peek c = CHR ''~'' then read_string c
      else
        (let (atom, c') = read_atom c
         in if atom = [] then (None, c') else (Some (Text_view atom), c')))"

text \<open>
  \<open>read_nstring\<close>: the outer option is None on malformed input, the inner one for \<open>NIL\<close>.
\<close>

definition read_nstring :: "cursor \<Rightarrow> view option option \<times> cursor" where
  "read_nstring c =
     (let rest = remaining c
      in if length rest \<ge> 3 \<and> ascii_iequals (take 3 rest) ''NIL'' \<and>
            (length rest = 3 \<or> \<not> is_atom_char (rest ! 3))
         then (Some None, c\<lparr>cpos := cpos c + 3\<rparr>)
         else
           (case read_string c of
              (Some value, c') \<Rightarrow> (Some (Some value), c')
            | (None, c') \<Rightarrow> (None, c')))"

section \<open>The contract of an accessor\<close>

definition cursor_ok :: "cursor \<Rightarrow> bool" where
  "cursor_ok c \<longleftrightarrow> cpos c \<le> length (ctext c)"

definition moves :: "cursor \<Rightarrow> cursor \<Rightarrow> bool" where
  "moves c c' \<longleftrightarrow> ctext c' = ctext c \<and> cpos c \<le> cpos c' \<and> cpos c' \<le> length (ctext c)"

definition rem_len :: "cursor \<Rightarrow> nat" where
  "rem_len c = length (ctext c) - cpos c"

lemma moves_refl [simp]: "moves c c \<longleftrightarrow> cursor_ok c"
  by (simp add: moves_def cursor_ok_def)

lemma moves_trans: "moves a b \<Longrightarrow> moves b c \<Longrightarrow> moves a c"
  by (auto simp: moves_def)

lemma moves_ok: "moves c c' \<Longrightarrow> cursor_ok c'"
  by (simp add: moves_def cursor_ok_def)

lemma moves_rem_len: "moves c c' \<Longrightarrow> rem_len c' \<le> rem_len c"
  by (auto simp: moves_def rem_len_def)

lemma mk_cursor_ok [simp]: "cursor_ok (mk_cursor text)"
  by (simp add: cursor_ok_def mk_cursor_def)

locale cursor_op =
  fixes rd :: "cursor \<Rightarrow> 'r \<times> cursor"
  assumes contract: "cursor_ok c \<Longrightarrow> moves c (snd (rd c))"
begin

lemma step: "rd c = (r, c') \<Longrightarrow> cursor_ok c \<Longrightarrow> moves c c' \<and> cursor_ok c' \<and> rem_len c' \<le> rem_len c"
  using contract [of c] by (auto dest: moves_ok moves_rem_len)

lemma keeps_text: "rd c = (r, c') \<Longrightarrow> cursor_ok c \<Longrightarrow> ctext c' = ctext c"
  using contract [of c] by (auto simp: moves_def)

end

lemma advance_while_eq: "advance_while p src i = i + length (takeWhile p (drop i src))"
proof (induction p src i rule: advance_while.induct)
  case (1 p src i)
  show ?case
  proof (cases "i < length src")
    case True
    then have "drop i src = src ! i # drop (Suc i) src" by (simp add: Cons_nth_drop_Suc)
    with True 1 show ?thesis by (subst advance_while.simps) auto
  next
    case False
    then show ?thesis by (subst advance_while.simps) simp
  qed
qed

lemma advance_while_le: "i \<le> length src \<Longrightarrow> advance_while p src i \<le> length src"
  using length_takeWhile_le [of p "drop i src"] by (simp add: advance_while_eq)

lemma advance_while_ge: "i \<le> advance_while p src i"
  by (simp add: advance_while_eq)

lemma read_while_eq:
  "read_while p c = (takeWhile p (remaining c),
                     c\<lparr>cpos := cpos c + length (takeWhile p (remaining c))\<rparr>)"
  by (simp add: read_while_def advance_while_eq remaining_def takeWhile_eq_take [symmetric])

lemma quoted_loop_bounds:
  "quoted_loop src i e = (stop, r) \<Longrightarrow> i \<le> length src \<Longrightarrow>
     i \<le> stop \<and> stop \<le> length src \<and> (r \<noteq> None \<longrightarrow> stop < length src)"
proof (induction src i e rule: quoted_loop.induct)
  case (1 src i e)
  then show ?case
    by (subst (asm) (3) quoted_loop.simps) (auto split: if_splits)
qed

interpretation try_consume_op: cursor_op "try_consume ch"
  by unfold_locales (auto simp: try_consume_def moves_def cursor_ok_def at_end_def)

interpretation read_while_op: cursor_op "read_while p"
  by unfold_locales
    (simp add: read_while_def Let_def moves_def cursor_ok_def advance_while_le advance_while_ge)

interpretation read_until_any_op: cursor_op "read_until_any stops"
  by unfold_locales (simp add: read_until_any_def read_while_op.contract)

interpretation read_atom_op: cursor_op read_atom
  by unfold_locales (simp add: read_atom_def read_while_op.contract)

interpretation skip_spaces_op: cursor_op "\<lambda>c. ((), skip_spaces c)"
  by unfold_locales
    (simp add: skip_spaces_def moves_def cursor_ok_def advance_while_le advance_while_ge)

interpretation try_consume_ci_op: cursor_op "try_consume_ci word"
  by unfold_locales (auto simp: try_consume_ci_def Let_def moves_def cursor_ok_def remaining_def)

interpretation read_number_op: cursor_op read_number
proof
  fix c assume "cursor_ok c"
  then show "moves c (snd (read_number c))"
    using read_while_op.contract [of c is_digit]
    by (auto simp: read_number_def Let_def split: prod.splits)
qed

interpretation read_quoted_op: cursor_op read_quoted
proof
  fix c assume ok: "cursor_ok c"
  obtain b c1 where t: "try_consume DQUOTE c = (b, c1)" by force
  then have m: "moves c c1" and ok1: "cursor_ok c1" using try_consume_op.step ok by blast+
  obtain stop r where q: "quoted_loop (ctext c1) (cpos c1) False = (stop, r)" by force
  have "cpos c1 \<le> stop \<and> stop \<le> length (ctext c1) \<and> (r \<noteq> None \<longrightarrow> stop < length (ctext c1))"
    using quoted_loop_bounds [OF q] ok1 by (simp add: cursor_ok_def)
  then show "moves c (snd (read_quoted c))"
    using t q m
    by (auto simp: read_quoted_def moves_def Let_def split: bool.split option.split)
qed

lemma literal_headD:
  assumes "literal_head src p = Some (q, n)"
  shows "p < q \<and> q \<le> length src"
proof -
  define d where "d = (if p < length src \<and> src ! p = CHR ''~'' then p + 1 else p) + 1"
  define e where "e = advance_while is_digit src d"
  have de: "p < d" "d \<le> e" by (auto simp: d_def e_def advance_while_ge)
  have "literal_head src p =
     (if d - 1 \<ge> length src \<or> src ! (d - 1) \<noteq> CHR ''{'' then None
      else if e = d then None
      else case from_chars u64_max (take (e - d) (drop d src)) of None \<Rightarrow> None
        | Some count \<Rightarrow>
           (let p3 = (if e < length src \<and> src ! e = CHR ''+'' then e + 1 else e)
            in if p3 \<ge> length src \<or> src ! p3 \<noteq> CHR ''}'' then None
               else if p3 + 1 + 1 \<ge> length src \<or> src ! (p3 + 1) \<noteq> CR \<or> src ! (p3 + 1 + 1) \<noteq> LF
               then None else Some (p3 + 1 + 2, count)))"
    unfolding literal_head_def Let_def d_def e_def by simp
  with assms show ?thesis
    using de by (auto simp: Let_def split: if_splits option.splits)
qed

interpretation read_literal_op: cursor_op read_literal
  by unfold_locales
    (auto simp: read_literal_def moves_def cursor_ok_def dest!: literal_headD
      split: option.split)

interpretation read_string_op: cursor_op read_string
  by unfold_locales
    (simp add: read_string_def read_quoted_op.contract read_literal_op.contract)

interpretation read_astring_op: cursor_op read_astring
proof
  fix c assume "cursor_ok c"
  then show "moves c (snd (read_astring c))"
    using read_atom_op.contract [of c] read_string_op.contract [of c]
    by (auto simp: read_astring_def Let_def split: prod.splits)
qed

interpretation read_nstring_op: cursor_op read_nstring
proof
  fix c assume "cursor_ok c"
  then show "moves c (snd (read_nstring c))"
    using read_string_op.contract [of c]
    by (auto simp: read_nstring_def Let_def moves_def cursor_ok_def remaining_def
        split: prod.split option.split)
qed

section \<open>Reading back what was rendered\<close>

text \<open>A cursor in the middle of a text, with whatever the scratch buffer holds.\<close>

abbreviation cursor_at :: "octets \<Rightarrow> nat \<Rightarrow> octets \<Rightarrow> nat \<Rightarrow> cursor" where
  "cursor_at src i sc g \<equiv> \<lparr>ctext = src, cpos = i, scratch = sc, scratch_uses = g\<rparr>"

lemma unescape_escape: "unescape (escape_quoted v) = v"
proof (induction v)
  case (Cons c cs)
  then show ?case by (cases "escape_quoted cs") (auto simp: is_quoted_special_def)
qed simp

lemma escape_plain: "\<not> list_ex is_quoted_special v \<Longrightarrow> escape_quoted v = v"
  by (induction v) auto

lemma text_char_not_eol [simp]: "is_text_char c \<Longrightarrow> c \<noteq> CR \<and> c \<noteq> LF"
  by (simp add: is_text_char_def)

lemma quoted_loop_escape:
  "list_all is_text_char v \<Longrightarrow>
     quoted_loop (pre @ escape_quoted v @ DQUOTE # rest) (length pre) e =
       (length pre + length (escape_quoted v), Some (e \<or> list_ex is_quoted_special v))"
proof (induction v arbitrary: pre e)
  case Nil
  show ?case by (subst quoted_loop.simps) simp
next
  case (Cons c cs)
  show ?case
  proof (cases "is_quoted_special c")
    case True
    then show ?thesis
      using Cons.IH [of "pre @ [BSLASH, c]" True] Cons.prems
      by (subst quoted_loop.simps) (simp add: nth_append)
  next
    case False
    then have "c \<noteq> DQUOTE" "c \<noteq> BSLASH" by (auto simp: is_quoted_special_def)
    then show ?thesis
      using Cons.IH [of "pre @ [c]" e] Cons.prems False text_char_not_eol [of c]
      by (subst quoted_loop.simps) (simp add: nth_append)
  qed
qed

lemma read_quoted_quote:
  assumes "list_all is_text_char v"
  shows "\<exists>w c'. read_quoted (cursor_at (pre @ quote v @ rest) (length pre) sc g) = (Some w, c') \<and>
           view_str w = v \<and> view_alive c' w \<and> cpos c' = length (pre @ quote v)"
proof -
  let ?src = "pre @ quote v @ rest"
  have t: "try_consume DQUOTE (cursor_at ?src (length pre) sc g) =
      (True, cursor_at ?src (length pre + 1) sc g)"
    by (simp add: try_consume_def at_end_def quote_def nth_append)
  have q: "quoted_loop ?src (length pre + 1) False =
      (length pre + 1 + length (escape_quoted v), Some (list_ex is_quoted_special v))"
    using quoted_loop_escape [OF assms, of "pre @ [DQUOTE]" rest False] by (simp add: quote_def)
  have b: "take (length (escape_quoted v)) (drop (length pre + 1) ?src) = escape_quoted v"
    by (simp add: quote_def)
  show ?thesis
  proof (cases "list_ex is_quoted_special v")
    case True
    then show ?thesis
      using t q b by (simp add: read_quoted_def unescape_escape quote_def Let_def)
  next
    case False
    then show ?thesis
      using t q b by (simp add: read_quoted_def escape_plain quote_def)
  qed
qed

lemma literal_head_marker:
  assumes "n \<le> u64_max"
  shows "literal_head (pre @ literal_marker n m @ CRLF @ rest) (length pre) =
           Some (length (pre @ literal_marker n m @ CRLF), n)"
proof -
  define pl :: octets where "pl = (if m = Non_synchronizing then ''+'' else [])"
  let ?ds = "to_chars n" and ?src = "pre @ literal_marker n m @ CRLF @ rest"
  have src: "?src = (pre @ ''{'') @ ?ds @ pl @ ''}'' @ CRLF @ rest"
    by (simp add: literal_marker_def pl_def)
  have tw: "takeWhile is_digit (?ds @ pl @ ''}'' @ CRLF @ rest) = ?ds"
    by (auto simp: pl_def takeWhile_append2)
  have p2: "advance_while is_digit ?src (length pre + 1) = length pre + 1 + length ?ds"
    unfolding advance_while_eq src using tw by simp
  have digits: "take (length ?ds) (drop (length pre + 1) ?src) = ?ds" unfolding src by simp
  have at: "?src ! length pre = CHR ''{''" "\<not> length pre \<ge> length ?src"
    unfolding src by (simp_all add: nth_append)
  have after: "drop (length pre + 1 + length ?ds) ?src = pl @ ''}'' @ CRLF @ rest"
    unfolding src by simp
  have nth: "?src ! (length pre + 1 + length ?ds + k) = (pl @ ''}'' @ CRLF @ rest) ! k" for k
  proof -
    have "length pre + 1 + length ?ds \<le> length ?src" unfolding src by simp
    then show ?thesis using nth_drop [of "length pre + 1 + length ?ds" ?src k] after by simp
  qed
  have len: "length ?src = length pre + 1 + length ?ds + length pl + 3 + length rest"
    unfolding src by simp
  show ?thesis
  proof (cases m)
    case Synchronizing
    then have pl: "pl = []" by (simp add: pl_def)
    show ?thesis
      unfolding literal_head_def Let_def
      using at p2 digits assms nth [of 0] nth [of 1] nth [of 2] len pl
      by (simp add: literal_marker_def Synchronizing)
  next
    case Non_synchronizing
    then have pl: "pl = ''+''" by (simp add: pl_def)
    show ?thesis
      unfolding literal_head_def Let_def
      using at p2 digits assms nth [of 0] nth [of 1] nth [of 2] nth [of 3] len pl
      by (simp add: literal_marker_def Non_synchronizing numeral_3_eq_3)
  qed
qed

section \<open>Properties\<close>

text \<open>
  Every accessor is memory safe: from a position inside the text it ends at a position
  inside the same text and never moves backwards, on success and on failure.
\<close>

theorem accessors_in_bounds:
  assumes "cursor_ok c"
  shows "moves c (snd (try_consume ch c)) \<and> moves c (snd (try_consume_ci word c)) \<and>
         moves c (skip_spaces c) \<and> moves c (snd (read_until_any stops c)) \<and>
         moves c (snd (read_atom c)) \<and> moves c (snd (read_number c)) \<and>
         moves c (snd (read_quoted c)) \<and> moves c (snd (read_literal c)) \<and>
         moves c (snd (read_string c)) \<and> moves c (snd (read_astring c)) \<and>
         moves c (snd (read_nstring c))"
  using assms try_consume_op.contract try_consume_ci_op.contract skip_spaces_op.contract
    read_until_any_op.contract read_atom_op.contract read_number_op.contract
    read_quoted_op.contract read_literal_op.contract read_string_op.contract
    read_astring_op.contract read_nstring_op.contract
  by simp

theorem accessors_in_bounds_witness:
  "moves (mk_cursor ''(A'') (snd (try_consume (CHR ''('') (mk_cursor ''(A'')))"
  using accessors_in_bounds [OF mk_cursor_ok, of "''(A''" "CHR ''(''" "[]" "[]"] by blast

text \<open>
  Quoted strings round-trip: whenever \<open>render_quoted\<close> accepts a value, \<open>read_quoted\<close>
  at the rendered place returns the value through a live view and stops right after it,
  whatever surrounds it and whatever the scratch buffer held before.
\<close>

theorem quoted_roundtrip:
  assumes "render_quoted v out = Some wire"
  shows "\<exists>w c'. read_quoted (cursor_at (wire @ rest) (length out) sc g) = (Some w, c') \<and>
           view_str w = v \<and> view_alive c' w \<and> cpos c' = length wire"
proof -
  from assms have "list_all is_text_char v" and w: "wire = out @ quote v"
    by (auto simp: render_quoted_def split: if_splits)
  from read_quoted_quote [OF this(1), of out rest sc g] show ?thesis
    unfolding w append_assoc .
qed

lemma render_quoted_example:
  "render_quoted [CHR ''a'', DQUOTE] ''x'' = Some (''x'' @ [DQUOTE, CHR ''a'', BSLASH, DQUOTE, DQUOTE])"
  by (simp add: render_quoted_def quote_def char_class)

theorem quoted_roundtrip_witness:
  "\<exists>w c'. read_quoted (cursor_at ((''x'' @ [DQUOTE, CHR ''a'', BSLASH, DQUOTE, DQUOTE]) @ '' y'')
              (length ''x'') [] 0) = (Some w, c') \<and>
     view_str w = [CHR ''a'', DQUOTE] \<and> view_alive c' w \<and>
     cpos c' = length (''x'' @ [DQUOTE, CHR ''a'', BSLASH, DQUOTE, DQUOTE])"
  by (rule quoted_roundtrip [OF render_quoted_example])

text \<open>
  Literals round-trip for every octet string: in both framing flavours, \<open>read_literal\<close>
  returns exactly the rendered octets (CR, LF, NUL and 8-bit included) and stops after them.
\<close>

theorem literal_roundtrip:
  assumes "length data \<le> u64_max"
  shows "read_literal (cursor_at (render_literal data out m @ rest) (length out) sc g) =
           (Some (Text_view data),
            cursor_at (render_literal data out m @ rest) (length (render_literal data out m)) sc g)"
  using literal_head_marker [OF assms, of out m "data @ rest"]
  by (simp add: read_literal_def render_literal_def)

theorem literal_roundtrip_witness:
  "read_literal (cursor_at (render_literal CRLF ''a '' Non_synchronizing @ '')'') (length ''a '') [] 0) =
     (Some (Text_view CRLF),
      cursor_at (render_literal CRLF ''a '' Non_synchronizing @ '')'')
        (length (render_literal CRLF ''a '' Non_synchronizing)) [] 0)"
  by (rule literal_roundtrip) (simp add: u64_max_def)

lemma read_atom_run:
  "list_all is_atom_char a \<Longrightarrow> rest = [] \<or> \<not> is_atom_char (hd rest) \<Longrightarrow>
     read_atom (cursor_at (pre @ a @ rest) (length pre) sc g) =
       (a, cursor_at (pre @ a @ rest) (length (pre @ a)) sc g)"
proof -
  assume a: "list_all is_atom_char a" and r: "rest = [] \<or> \<not> is_atom_char (hd rest)"
  have "takeWhile is_atom_char rest = []" using r by (cases rest) auto
  then have "takeWhile is_atom_char (a @ rest) = a"
    using a by (simp add: takeWhile_append2 list_all_iff)
  then show ?thesis by (simp add: read_atom_def read_while_eq remaining_def)
qed

lemma peek_at: "peek (cursor_at (pre @ c # rest) (length pre) sc g) = c"
  by (simp add: peek_def at_end_def)

lemma read_astring_run:
  assumes "list_all is_atom_char a" "a \<noteq> []" "hd a \<noteq> CHR ''~''"
    and "rest = [] \<or> \<not> is_atom_char (hd rest)"
  shows "read_astring (cursor_at (pre @ a @ rest) (length pre) sc g) =
           (Some (Text_view a), cursor_at (pre @ a @ rest) (length (pre @ a)) sc g)"
proof -
  obtain x xs where x: "a = x # xs" using assms(2) by (cases a) auto
  then have "is_atom_char x" using assms(1) by simp
  then have "x \<noteq> DQUOTE" "x \<noteq> CHR ''{''" by auto
  then show ?thesis
    using assms x read_atom_run [OF assms(1,4), of pre sc g] peek_at [of pre x "xs @ rest" sc g]
    by (simp add: read_astring_def)
qed

text \<open>
  Astrings round-trip, except for the two cases the reader does not cover: when
  \<open>render_astring\<close> accepts a value, and a value sent as an atom neither contains a closing
  bracket nor starts with a tilde, \<open>read_astring\<close> returns it and stops right after it.
\<close>

theorem astring_roundtrip:
  assumes "render_astring v out = Some wire"
    and "classify_astring v = Atom_class \<Longrightarrow> CHR '']'' \<notin> set v \<and> hd v \<noteq> CHR ''~''"
    and "rest = [] \<or> \<not> is_atom_char (hd rest)"
  shows "\<exists>w c'. read_astring (cursor_at (wire @ rest) (length out) sc g) = (Some w, c') \<and>
           view_str w = v \<and> view_alive c' w \<and> cpos c' = length wire"
proof (cases "classify_astring v")
  case Atom_class
  then have v: "v \<noteq> []" "list_all is_astring_char v" and w: "wire = out @ v"
    using assms(1) by (auto simp: render_astring_def classify_astring_alt split: if_splits)
  have "list_all is_atom_char v"
    using v(2) assms(2) Atom_class
    by (auto simp: list_all_iff is_astring_char_def is_resp_special_def)
  then show ?thesis
    using read_astring_run [of v rest out sc g] v assms(2,3) Atom_class w by simp
next
  case Quoted_class
  then have "render_quoted v out = Some wire" using assms(1) by (simp add: render_astring_def)
  then have w: "wire = out @ quote v" and tx: "list_all is_text_char v"
    by (auto simp: render_quoted_def split: if_splits)
  have "peek (cursor_at (wire @ rest) (length out) sc g) = DQUOTE"
    by (simp add: w quote_def peek_def at_end_def nth_append)
  then show ?thesis
    using read_quoted_quote [OF tx, of out rest sc g] w
    by (simp add: read_astring_def read_string_def)
next
  case Literal_class
  then show ?thesis using assms(1) by (simp add: render_astring_def)
qed

lemma render_astring_example: "render_astring ''INBOX'' ''a LIST '' = Some ''a LIST INBOX''"
  by (simp add: render_astring_def classify_astring_alt char_class)

theorem astring_roundtrip_witness:
  "\<exists>w c'. read_astring (cursor_at (''a LIST INBOX'' @ '' x'') (length ''a LIST '') [] 0)
        = (Some w, c') \<and> view_str w = ''INBOX'' \<and> view_alive c' w \<and> cpos c' = length ''a LIST INBOX''"
  by (rule astring_roundtrip [OF render_astring_example]) simp_all

text \<open>
  The reader does not accept every ASTRING-CHAR run: a value with a closing bracket, which
  \<open>render_astring\<close> sends verbatim, is read back only up to the bracket.
\<close>

theorem astring_bracket_cut:
  assumes "list_all is_atom_char a" "a \<noteq> []" "hd a \<noteq> CHR ''~''" "list_all is_astring_char b"
  shows "render_astring (a @ CHR '']'' # b) [] = Some (a @ CHR '']'' # b) \<and>
         fst (read_astring (mk_cursor (a @ CHR '']'' # b))) = Some (Text_view a)"
proof
  have "list_all is_astring_char (a @ CHR '']'' # b)"
    using assms by (auto simp: list_all_iff is_astring_char_def is_resp_special_def)
  then show "render_astring (a @ CHR '']'' # b) [] = Some (a @ CHR '']'' # b)"
    by (simp add: render_astring_def classify_astring_alt)
  show "fst (read_astring (mk_cursor (a @ CHR '']'' # b))) = Some (Text_view a)"
    using read_astring_run [OF assms(1-3), of "CHR '']'' # b" "[]" "[]" 0]
    by (simp add: mk_cursor_def)
qed

theorem astring_bracket_cut_witness:
  "render_astring (''x'' @ CHR '']'' # ''y'') [] = Some (''x'' @ CHR '']'' # ''y'') \<and>
   fst (read_astring (mk_cursor (''x'' @ CHR '']'' # ''y''))) = Some (Text_view ''x'')"
  by (rule astring_bracket_cut) (simp_all add: char_class)

end
