(* ===== verification/Values.thy ===== *)
theory Values
  imports Astring
begin

unbundle bit_operations_syntax

text \<open>
  The small value types of the library: message flags (\<open>imap/flags.h\<close>), FETCH item
  selections (\<open>imap/fetch_items.h\<close>), STATUS item masks and mailbox records
  (\<open>imap/mailbox_info.h\<close>, \<open>mailbox_entry.h\<close>, \<open>mailbox_status.h\<close>), capability sets
  (\<open>imap/capability_set.h\<close>), sequence sets (\<open>imap/sequence_set.h\<close>) and search criteria
  (\<open>imap/search_criteria.h\<close>), and the error codes of \<open>common/error.h\<close>.

  The bit masks are words of the width the sources give them. The locale \<open>bit_selection\<close>
  is the contract the renderers and parsers rely on: setting one element is seen by the test
  of this element only. Flags and FETCH items are its interpretations.
\<close>

section \<open>Error codes\<close>

text \<open>
  \<open>std::error_code\<close> values: success, the library's own conditions, the \<open>std::errc\<close>
  conditions the sources produce, and codes that come from the transport.
\<close>

datatype errc = Command_rejected | Bad_command | Server_bye | Unexpected_response
  | Capability_required

datatype error_code = No_error | Errc errc | Operation_canceled | Not_enough_memory
  | Transport_error nat

text \<open>
  The enumerators count from 1, so that no condition is the value 0 of success. An error code of the
  library is such a value with the library's category, whose message function switches over it.
\<close>

fun errc_value :: "errc \<Rightarrow> int" where
  "errc_value Command_rejected = 1"
| "errc_value Bad_command = 2"
| "errc_value Server_bye = 3"
| "errc_value Unexpected_response = 4"
| "errc_value Capability_required = 5"

definition error_category_name :: string where
  "error_category_name = ''bkmail''"

definition make_error_code :: "errc \<Rightarrow> int \<times> string" where
  "make_error_code e = (errc_value e, error_category_name)"

definition error_message :: "int \<Rightarrow> string" where
  "error_message condition =
     (if condition = errc_value Command_rejected then ''command rejected by the server (tagged NO)''
      else if condition = errc_value Bad_command then ''command unknown or malformed (tagged BAD)''
      else if condition = errc_value Server_bye then ''server closed the connection (untagged BYE)''
      else if condition = errc_value Unexpected_response then ''unexpected or malformed server response''
      else if condition = errc_value Capability_required
      then ''operation requires a capability the server does not advertise''
      else ''unknown bkmail error'')"

lemma errc_value_range: "errc_value e \<in> {1..5}" "v \<in> {1..5} \<Longrightarrow> \<exists>e. errc_value e = v"
proof -
  show "errc_value e \<in> {1..5}" by (cases e) simp_all
  assume "v \<in> {1..5}"
  then consider "v = 1" | "v = 2" | "v = 3" | "v = 4" | "v = 5" by fastforce
  then show "\<exists>e. errc_value e = v" by cases (metis errc_value.simps)+
qed

text \<open>Every condition has its own message, and a foreign value has the message of none.\<close>

lemma error_message_own:
  "error_message (errc_value a) = error_message (errc_value b) \<longleftrightarrow> a = b"
  "error_message v = ''unknown bkmail error'' \<longleftrightarrow> v \<notin> {1..5}"
proof -
  show "error_message (errc_value a) = error_message (errc_value b) \<longleftrightarrow> a = b"
    by (cases a; cases b) (simp_all add: error_message_def)
  have "error_message (errc_value e) \<noteq> ''unknown bkmail error''" for e by (cases e) (simp_all add: error_message_def)
  then show "error_message v = ''unknown bkmail error'' \<longleftrightarrow> v \<notin> {1..5}"
    using errc_value_range(2) [of v] by (auto simp: error_message_def)
qed

lemma make_error_code_fails: "fst (make_error_code e) \<noteq> 0" "make_error_code a = make_error_code b \<longleftrightarrow> a = b"
  by (cases e; simp add: make_error_code_def) (cases a; cases b; simp add: make_error_code_def)

section \<open>Flags and item selections\<close>

datatype message_flag = Seen | Answered | Flagged | Deleted | Draft | Recent

type_synonym flag_set = "8 word"

fun flag_index :: "message_flag \<Rightarrow> nat" where
  "flag_index Seen = 0"
| "flag_index Answered = 1"
| "flag_index Flagged = 2"
| "flag_index Deleted = 3"
| "flag_index Draft = 4"
| "flag_index Recent = 5"

definition flag_set_flag :: "flag_set \<Rightarrow> message_flag \<Rightarrow> bool \<Rightarrow> flag_set" where
  "flag_set_flag s f value =
     (let m = push_bit (flag_index f) 1 in if value then s OR m else s AND NOT m)"

definition flag_reset :: "flag_set \<Rightarrow> message_flag \<Rightarrow> flag_set" where
  "flag_reset s f = flag_set_flag s f False"

definition flag_test :: "flag_set \<Rightarrow> message_flag \<Rightarrow> bool" where
  "flag_test s f \<longleftrightarrow> s AND push_bit (flag_index f) 1 \<noteq> 0"

definition flag_any :: "flag_set \<Rightarrow> bool" where
  "flag_any s \<longleftrightarrow> s \<noteq> 0"

datatype fetch_item = Item_envelope | Item_body_structure | Item_flags | Item_uid
  | Item_internal_date | Item_rfc822_size

fun item_index :: "fetch_item \<Rightarrow> nat" where
  "item_index Item_envelope = 0"
| "item_index Item_body_structure = 1"
| "item_index Item_flags = 2"
| "item_index Item_uid = 3"
| "item_index Item_internal_date = 4"
| "item_index Item_rfc822_size = 5"

record fetch_section =
  specifier :: octets
  peek_section :: bool

record fetch_items =
  item_bits :: "32 word"
  sections :: "fetch_section list"

definition items_empty :: fetch_items where
  "items_empty = \<lparr>item_bits = 0, sections = []\<rparr>"

definition items_add :: "fetch_items \<Rightarrow> fetch_item \<Rightarrow> fetch_items" where
  "items_add s i = s\<lparr>item_bits := item_bits s OR push_bit (item_index i) 1\<rparr>"

definition items_remove :: "fetch_items \<Rightarrow> fetch_item \<Rightarrow> fetch_items" where
  "items_remove s i = s\<lparr>item_bits := item_bits s AND NOT (push_bit (item_index i) 1)\<rparr>"

definition items_test :: "fetch_items \<Rightarrow> fetch_item \<Rightarrow> bool" where
  "items_test s i \<longleftrightarrow> item_bits s AND push_bit (item_index i) 1 \<noteq> 0"

definition items_add_section :: "fetch_items \<Rightarrow> octets \<Rightarrow> bool \<Rightarrow> fetch_items" where
  "items_add_section s spec pk =
     s\<lparr>sections := sections s @ [\<lparr>specifier = spec, peek_section = pk\<rparr>]\<rparr>"

definition items_any :: "fetch_items \<Rightarrow> bool" where
  "items_any s \<longleftrightarrow> item_bits s \<noteq> 0 \<or> sections s \<noteq> []"

definition items_clear :: "fetch_items \<Rightarrow> fetch_items" where
  "items_clear s = s\<lparr>item_bits := 0, sections := []\<rparr>"

datatype store_mode = Store_add | Store_remove | Store_replace

type_synonym status_items = "8 word"

definition si_messages :: status_items where "si_messages = 1"
definition si_recent :: status_items where "si_recent = 2"
definition si_uid_next :: status_items where "si_uid_next = 4"
definition si_uid_validity :: status_items where "si_uid_validity = 8"
definition si_unseen :: status_items where "si_unseen = 16"

definition has_status_item :: "status_items \<Rightarrow> status_items \<Rightarrow> bool" where
  "has_status_item s flag \<longleftrightarrow> s AND flag = flag"

record mailbox_info =
  mb_name :: octets
  mb_exists :: nat
  mb_recent :: nat
  mb_unseen :: "nat option"
  mb_uid_validity :: nat
  mb_uid_next :: nat
  mb_flags :: flag_set
  mb_permanent_flags :: flag_set
  mb_read_only :: bool

definition default_mailbox_info :: mailbox_info where
  "default_mailbox_info =
     \<lparr>mb_name = [], mb_exists = 0, mb_recent = 0, mb_unseen = None, mb_uid_validity = 0,
      mb_uid_next = 0, mb_flags = 0, mb_permanent_flags = 0, mb_read_only = False\<rparr>"

record mailbox_entry =
  me_name :: octets
  me_delimiter :: octets
  me_no_select :: bool
  me_has_children :: bool
  me_has_no_children :: bool

definition default_mailbox_entry :: mailbox_entry where
  "default_mailbox_entry =
     \<lparr>me_name = [], me_delimiter = [], me_no_select = False, me_has_children = False,
      me_has_no_children = False\<rparr>"

record mailbox_status =
  ms_messages :: "nat option"
  ms_recent :: "nat option"
  ms_uid_next :: "nat option"
  ms_uid_validity :: "nat option"
  ms_unseen :: "nat option"

definition default_mailbox_status :: mailbox_status where
  "default_mailbox_status =
     \<lparr>ms_messages = None, ms_recent = None, ms_uid_next = None, ms_uid_validity = None,
      ms_unseen = None\<rparr>"

subsection \<open>The contract of a selection\<close>

locale bit_selection =
  fixes add :: "'s \<Rightarrow> 'e \<Rightarrow> 's" and remove :: "'s \<Rightarrow> 'e \<Rightarrow> 's"
    and test :: "'s \<Rightarrow> 'e \<Rightarrow> bool" and none :: 's
  assumes test_add: "test (add s e) f \<longleftrightarrow> f = e \<or> test s f"
    and test_remove: "test (remove s e) f \<longleftrightarrow> f \<noteq> e \<and> test s f"
    and test_none: "\<not> test none e"
begin

lemma test_fold: "test (foldl add s es) f \<longleftrightarrow> f \<in> set es \<or> test s f"
  by (induction es arbitrary: s) (auto simp: test_add)

lemma selected: "test (foldl add none es) f \<longleftrightarrow> f \<in> set es"
  by (simp add: test_fold test_none)

lemma remove_add: "test (remove (add s e) e) f \<longleftrightarrow> f \<noteq> e \<and> test s f"
  by (auto simp: test_remove test_add)

end

lemma flag_index_less: "flag_index f < 8"
  by (cases f) auto

lemma flag_index_inj: "flag_index f = flag_index g \<longleftrightarrow> f = g"
  by (cases f; cases g) auto

lemma item_index_less: "item_index f < 32"
  by (cases f) auto

lemma item_index_inj: "item_index f = item_index g \<longleftrightarrow> f = g"
  by (cases f; cases g) auto

lemmas mask_simps = and_exp_eq_0_iff_not_bit bit_or_iff bit_and_iff bit_not_iff bit_exp_iff

interpretation flags: bit_selection "\<lambda>s f. flag_set_flag s f True" flag_reset flag_test 0
  by unfold_locales
    (auto simp: flag_set_flag_def flag_reset_def flag_test_def mask_simps flag_index_less
      flag_index_inj Let_def)

interpretation items: bit_selection items_add items_remove items_test items_empty
  by unfold_locales
    (auto simp: items_add_def items_remove_def items_test_def items_empty_def mask_simps
      item_index_less item_index_inj Let_def)

section \<open>Capability sets\<close>

type_synonym capability_set = "octets list"

definition capability_name_equals :: "octets \<Rightarrow> octets \<Rightarrow> bool" where
  "capability_name_equals a b = ascii_iequals a b"

definition capability_name_to_upper :: "octets \<Rightarrow> octets" where
  "capability_name_to_upper name = map ascii_to_upper name"

definition cap_contains :: "capability_set \<Rightarrow> octets \<Rightarrow> bool" where
  "cap_contains caps name \<longleftrightarrow> list_ex (\<lambda>stored. capability_name_equals stored name) caps"

definition cap_insert :: "capability_set \<Rightarrow> octets \<Rightarrow> capability_set" where
  "cap_insert caps name =
     (if name = [] then caps
      else if cap_contains caps name then caps
      else caps @ [capability_name_to_upper name])"

text \<open>The stored names are interned: upper case, non-empty and without duplicates.\<close>

definition caps_ok :: "capability_set \<Rightarrow> bool" where
  "caps_ok caps \<longleftrightarrow> distinct caps \<and> (\<forall>n \<in> set caps. n \<noteq> [] \<and> map ascii_to_upper n = n)"

lemma ascii_to_upper_idem [simp]: "ascii_to_upper (ascii_to_upper c) = ascii_to_upper c"
  by (auto simp: ascii_to_upper_def)

lemma map_upper_idem [simp]:
  "map (ascii_to_upper \<circ> ascii_to_upper) n = map ascii_to_upper n"
  by simp

lemma cap_contains_iff:
  "caps_ok caps \<Longrightarrow> cap_contains caps n \<longleftrightarrow> map ascii_to_upper n \<in> set caps"
  by (force simp: cap_contains_def capability_name_equals_def ascii_iequals_iff_map list_ex_iff
      caps_ok_def)

section \<open>Sequence sets\<close>

text \<open>The digit loop of \<open>parse_seq_number\<close>, with the 64-bit accumulator written out.\<close>

function seq_digits :: "octets \<Rightarrow> nat \<Rightarrow> nat \<Rightarrow> nat option" where
  "seq_digits src pos value =
     (if pos < length src \<and> is_digit (src ! pos) then
        (let value' = wrap64 (value * 10 + digit_val (src ! pos))
         in if value' > u32_max then None else seq_digits src (pos + 1) value')
      else Some pos)"
  by pat_completeness auto
termination by (relation "measure (\<lambda>(src, pos, value). length src - pos)") auto

declare seq_digits.simps [simp del]

definition parse_seq_number :: "octets \<Rightarrow> nat \<Rightarrow> nat option" where
  "parse_seq_number src pos =
     (if pos \<ge> length src then None
      else if src ! pos = CHR ''*'' then Some (pos + 1)
      else if \<not> (is_digit (src ! pos) \<and> src ! pos \<noteq> CHR ''0'') then None
      else seq_digits src pos 0)"

lemma seq_digits_eq:
  "value \<le> u32_max \<Longrightarrow>
     seq_digits src pos value =
       (let ds = takeWhile is_digit (drop pos src)
        in if dec_value_from value ds \<le> u32_max then Some (pos + length ds) else None)"
proof (induction src pos "value" rule: seq_digits.induct)
  case (1 src pos v)
  show ?case
  proof (cases "pos < length src \<and> is_digit (src ! pos)")
    case False
    then have "takeWhile is_digit (drop pos src) = []"
      by (cases "drop pos src") (auto simp: drop_eq_Nil nth_via_drop)
    with False 1(2) show ?thesis by (subst seq_digits.simps) auto
  next
    case True
    let ?v = "v * 10 + digit_val (src ! pos)" and ?ds = "takeWhile is_digit (drop (Suc pos) src)"
    have tw: "takeWhile is_digit (drop pos src) = src ! pos # ?ds"
      using True by (simp add: Cons_nth_drop_Suc [symmetric])
    have "digit_val (src ! pos) \<le> 9" using True by simp
    then have "?v \<le> u64_max" using 1(2) by (simp add: u32_max_def u64_max_def)
    then have w: "wrap64 ?v = ?v" by simp
    show ?thesis
    proof (cases "?v > u32_max")
      case big: True
      then have "dec_value_from ?v ?ds > u32_max" using dec_value_from_ge [of ?v ?ds] by linarith
      with True tw w big show ?thesis by (subst seq_digits.simps) simp
    next
      case False
      then show ?thesis
        using 1(1) [OF True refl] True tw w by (subst seq_digits.simps) simp
    qed
  qed
qed

lemma parse_seq_number_bounds:
  "parse_seq_number src pos = Some q \<Longrightarrow> pos < q \<and> q \<le> length src"
proof -
  assume a: "parse_seq_number src pos = Some q"
  show ?thesis
  proof (cases "src ! pos = CHR ''*''")
    case True
    with a show ?thesis by (auto simp: parse_seq_number_def split: if_splits)
  next
    case False
    with a have p: "pos < length src" "is_digit (src ! pos)"
      by (auto simp: parse_seq_number_def split: if_splits)
    let ?ds = "takeWhile is_digit (drop pos src)"
    have "?ds \<noteq> []" using p by (simp add: Cons_nth_drop_Suc [symmetric])
    moreover have "length ?ds \<le> length (drop pos src)" by (rule length_takeWhile_le)
    moreover have "q = pos + length ?ds"
      using a False p seq_digits_eq [of 0 src pos]
      by (auto simp: parse_seq_number_def Let_def split: if_splits)
    ultimately show ?thesis using p by auto
  qed
qed

function seq_loop :: "octets \<Rightarrow> nat \<Rightarrow> bool" where
  "seq_loop src pos =
     (case parse_seq_number src pos of
        None \<Rightarrow> False
      | Some p1 \<Rightarrow>
          (case (if p1 < length src \<and> src ! p1 = CHR '':''
                 then parse_seq_number src (p1 + 1) else Some p1) of
             None \<Rightarrow> False
           | Some p2 \<Rightarrow>
               (if p2 = length src then True
                else if src ! p2 \<noteq> CHR '','' then False
                else if p2 + 1 = length src then False
                else seq_loop src (p2 + 1))))"
  by pat_completeness auto
termination
proof (relation "measure (\<lambda>(src, pos). length src - pos)", goal_cases)
  case (2 src pos p1 p2)
  then have "pos < p1" "p1 \<le> p2" "p2 \<le> length src"
    using parse_seq_number_bounds [of src pos p1] parse_seq_number_bounds [of src "p1 + 1" p2]
    by (auto split: if_splits)
  then show ?case using 2 by auto
qed simp

declare seq_loop.simps [simp del]

definition seq_is_valid :: "octets \<Rightarrow> bool" where
  "seq_is_valid src \<longleftrightarrow> src \<noteq> [] \<and> seq_loop src 0"

text \<open>
  A sequence set value holds validated text; \<open>seq_parse\<close> is the non-throwing constructor and
  \<open>seq_make\<close> the throwing one (\<open>None\<close> is \<open>std::invalid_argument\<close>).
\<close>

definition seq_parse :: "octets \<Rightarrow> octets option" where
  "seq_parse src = (if seq_is_valid src then Some src else None)"

definition seq_make :: "octets \<Rightarrow> octets option" where
  "seq_make src = (if \<not> seq_is_valid src then None else Some src)"

text \<open>The grammar of RFC 3501 for \<open>sequence-set\<close>, as the class comment gives it.\<close>

definition g_seq_number :: "octets \<Rightarrow> bool" where
  "g_seq_number w \<longleftrightarrow> w = ''*'' \<or>
     (w \<noteq> [] \<and> list_all is_digit w \<and> hd w \<noteq> CHR ''0'' \<and> dec_value w \<le> u32_max)"

definition g_seq_range :: "octets \<Rightarrow> bool" where
  "g_seq_range w \<longleftrightarrow> g_seq_number w \<or>
     (\<exists>a b. w = a @ CHR '':'' # b \<and> g_seq_number a \<and> g_seq_number b)"

inductive g_seq_set :: "octets \<Rightarrow> bool" where
  one: "g_seq_range w \<Longrightarrow> g_seq_set w"
| more: "g_seq_range w \<Longrightarrow> g_seq_set ws \<Longrightarrow> g_seq_set (w @ CHR '','' # ws)"

lemma parse_seq_number_complete:
  assumes "g_seq_number w" and "r = [] \<or> \<not> is_digit (hd r)"
  shows "parse_seq_number (pre @ w @ r) (length pre) = Some (length (pre @ w))"
proof (cases "w = ''*''")
  case True
  then show ?thesis by (simp add: parse_seq_number_def nth_append)
next
  case False
  with assms(1) have w: "w \<noteq> []" "list_all is_digit w" "hd w \<noteq> CHR ''0''" "dec_value w \<le> u32_max"
    by (auto simp: g_seq_number_def)
  then obtain x xs where x: "w = x # xs" "is_digit x" by (cases w) auto
  then have "x \<noteq> CHR ''*''" by (auto simp: is_digit_def)
  have "takeWhile is_digit r = []" using assms(2) by (cases r) auto
  then have "takeWhile is_digit (w @ r) = w"
    using w(2) by (simp add: takeWhile_append2 list_all_iff)
  then show ?thesis
    using w x \<open>x \<noteq> CHR ''*''\<close> seq_digits_eq [of 0 "pre @ w @ r" "length pre"]
    by (simp add: parse_seq_number_def nth_append)
qed

lemma parse_seq_number_sound:
  assumes "parse_seq_number src pos = Some q"
  shows "g_seq_number (take (q - pos) (drop pos src))"
proof (cases "src ! pos = CHR ''*''")
  case True
  with assms have p: "q = pos + 1" "pos < length src"
    by (auto simp: parse_seq_number_def split: if_splits)
  with True have "take (q - pos) (drop pos src) = ''*''"
    by (simp add: Cons_nth_drop_Suc [symmetric])
  then show ?thesis by (simp add: g_seq_number_def)
next
  case False
  let ?ds = "takeWhile is_digit (drop pos src)"
  from assms False have p: "pos < length src" "is_digit (src ! pos)" "src ! pos \<noteq> CHR ''0''"
    by (auto simp: parse_seq_number_def split: if_splits)
  have q: "q = pos + length ?ds" "dec_value ?ds \<le> u32_max"
    using assms False p seq_digits_eq [of 0 src pos]
    by (auto simp: parse_seq_number_def Let_def split: if_splits)
  have hd: "?ds = src ! pos # takeWhile is_digit (drop (Suc pos) src)"
    using p by (simp add: Cons_nth_drop_Suc [symmetric])
  have "list_all is_digit ?ds" by (auto simp: list_all_iff dest: set_takeWhileD)
  then have "g_seq_number ?ds"
    using hd p q(2) unfolding g_seq_number_def by (metis list.sel(1) list.simps(3))
  then show ?thesis using q(1) by (simp add: takeWhile_eq_take [symmetric])
qed

lemma seq_loop_complete: "g_seq_set w \<Longrightarrow> seq_loop (pre @ w) (length pre)"
proof (induction w arbitrary: pre rule: g_seq_set.induct)
  case (one w)
  show ?case
  proof (cases "g_seq_number w")
    case True
    then show ?thesis
      using parse_seq_number_complete [OF True, of "[]" pre] by (subst seq_loop.simps) simp
  next
    case False
    with one obtain a b where ab: "w = a @ CHR '':'' # b" "g_seq_number a" "g_seq_number b"
      by (auto simp: g_seq_range_def)
    have "parse_seq_number (pre @ w) (length pre) = Some (length (pre @ a))"
      using parse_seq_number_complete [OF ab(2), of "CHR '':'' # b" pre] ab(1)
      by (simp add: is_digit_def)
    moreover have "parse_seq_number (pre @ w) (length (pre @ a) + 1) = Some (length (pre @ w))"
      using parse_seq_number_complete [OF ab(3), of "[]" "pre @ a @ '':''"] ab(1) by simp
    ultimately show ?thesis
      using ab(1) by (subst seq_loop.simps) (simp add: nth_append)
  qed
next
  case (more w ws)
  have ws: "ws \<noteq> []" using more.hyps(2)
    by (cases rule: g_seq_set.cases) (auto simp: g_seq_range_def g_seq_number_def)
  have rec: "seq_loop (pre @ w @ CHR '','' # ws) (length (pre @ w) + 1)"
    using more.IH [of "pre @ w @ '',''"] by simp
  show ?case
  proof (cases "g_seq_number w")
    case True
    then have "parse_seq_number (pre @ w @ CHR '','' # ws) (length pre) = Some (length (pre @ w))"
      using parse_seq_number_complete [OF True, of "CHR '','' # ws" pre] by (simp add: is_digit_def)
    then show ?thesis
      using rec ws by (subst seq_loop.simps) (simp add: nth_append)
  next
    case False
    with more.hyps(1) obtain a b where ab: "w = a @ CHR '':'' # b" "g_seq_number a" "g_seq_number b"
      by (auto simp: g_seq_range_def)
    have "parse_seq_number (pre @ w @ CHR '','' # ws) (length pre) = Some (length (pre @ a))"
      using parse_seq_number_complete [OF ab(2), of "CHR '':'' # b @ CHR '','' # ws" pre] ab(1)
      by (simp add: is_digit_def)
    moreover have "parse_seq_number (pre @ w @ CHR '','' # ws) (length (pre @ a) + 1)
        = Some (length (pre @ w))"
      using parse_seq_number_complete [OF ab(3), of "CHR '','' # ws" "pre @ a @ '':''"] ab(1)
      by (simp add: is_digit_def)
    ultimately show ?thesis
      using rec ws ab(1) by (subst seq_loop.simps) (simp add: nth_append)
  qed
qed

lemma seq_loop_sound: "seq_loop src pos \<Longrightarrow> g_seq_set (drop pos src)"
proof (induction src pos rule: seq_loop.induct)
  case (1 src pos)
  from 1(2) obtain p1 where p1: "parse_seq_number src pos = Some p1"
    by (subst (asm) seq_loop.simps) (auto split: option.splits)
  let ?next = "if p1 < length src \<and> src ! p1 = CHR '':'' then parse_seq_number src (p1 + 1)
               else Some p1"
  from 1(2) p1 obtain p2 where p2: "?next = Some p2"
    by (subst (asm) seq_loop.simps) (auto split: option.splits)
  note b1 = parse_seq_number_bounds [OF p1]
  have b2: "p1 \<le> p2" "p2 \<le> length src"
    using p2 b1 parse_seq_number_bounds [of src "p1 + 1" p2] by (auto split: if_splits)
  have n1: "g_seq_number (take (p1 - pos) (drop pos src))"
    by (rule parse_seq_number_sound [OF p1])
  have range: "g_seq_range (take (p2 - pos) (drop pos src))"
  proof (cases "p1 < length src \<and> src ! p1 = CHR '':''")
    case False
    then show ?thesis using p2 n1 by (auto simp: g_seq_range_def)
  next
    case True
    then have p2': "parse_seq_number src (p1 + 1) = Some p2" using p2 by simp
    have "take (p2 - pos) (drop pos src) =
        take (p1 - pos) (drop pos src) @ take (p2 - p1) (drop p1 src)"
      using b1 b2 take_add [of "p1 - pos" "p2 - p1" "drop pos src"] by simp
    also have "take (p2 - p1) (drop p1 src) =
        CHR '':'' # take (p2 - (p1 + 1)) (drop (p1 + 1) src)"
      using True parse_seq_number_bounds [OF p2']
      by (auto simp: Cons_nth_drop_Suc [symmetric] take_Cons' )
    finally show ?thesis
      using n1 parse_seq_number_sound [OF p2'] unfolding g_seq_range_def by blast
  qed
  have split: "drop pos src = take (p2 - pos) (drop pos src) @ drop p2 src"
    using b1 b2 append_take_drop_id [of "p2 - pos" "drop pos src"] by simp
  show ?case
  proof (cases "p2 = length src")
    case True
    then have "drop pos src = take (p2 - pos) (drop pos src)" using split by simp
    then show ?thesis using g_seq_set.one [OF range] by metis
  next
    case False
    then have c: "src ! p2 = CHR '',''" "p2 + 1 \<noteq> length src" "seq_loop src (p2 + 1)"
      using 1(2) p1 p2 False by (simp_all add: seq_loop.simps [of src pos] split: if_splits)
    have "g_seq_set (drop (p2 + 1) src)" using 1(1) [OF p1 p2 False _ c(2,3)] c(1) by simp
    moreover have "drop p2 src = CHR '','' # drop (p2 + 1) src"
      using False b2 c(1) by (simp add: Cons_nth_drop_Suc [symmetric])
    ultimately show ?thesis using split g_seq_set.more [OF range] by metis
  qed
qed

section \<open>Search criteria\<close>

fun criteria_loop :: "int \<Rightarrow> bool \<Rightarrow> bool \<Rightarrow> octets \<Rightarrow> bool" where
  "criteria_loop depth quoted escaped [] = (\<not> quoted \<and> depth = 0)"
| "criteria_loop depth quoted escaped (c # cs) =
     (if c = CR \<or> c = LF then False
      else if quoted then
        (if escaped then criteria_loop depth quoted False cs
         else if c = BSLASH then criteria_loop depth quoted True cs
         else if c = DQUOTE then criteria_loop depth False escaped cs
         else criteria_loop depth quoted escaped cs)
      else if c = DQUOTE then criteria_loop depth True escaped cs
      else if c = CHR ''('' then criteria_loop (depth + 1) quoted escaped cs
      else if c = CHR '')'' then
        (if depth - 1 < 0 then False else criteria_loop (depth - 1) quoted escaped cs)
      else criteria_loop depth quoted escaped cs)"

definition criteria_is_valid :: "octets \<Rightarrow> bool" where
  "criteria_is_valid src \<longleftrightarrow> src \<noteq> [] \<and> criteria_loop 0 False False src"

definition criteria_parse :: "octets \<Rightarrow> octets option" where
  "criteria_parse src = (if criteria_is_valid src then Some src else None)"

text \<open>
  The structural grammar: text without line ends, complete quoted strings (with backslash
  escapes) and balanced parentheses around such text.
\<close>

fun quoted_body :: "octets \<Rightarrow> bool" where
  "quoted_body [] \<longleftrightarrow> True"
| "quoted_body [c] \<longleftrightarrow> c \<notin> {CR, LF, DQUOTE, BSLASH}"
| "quoted_body (c # d # cs) \<longleftrightarrow>
     (if c = BSLASH then d \<noteq> CR \<and> d \<noteq> LF \<and> quoted_body cs
      else c \<notin> {CR, LF, DQUOTE} \<and> quoted_body (d # cs))"

inductive g_criteria :: "octets \<Rightarrow> bool" where
  nil: "g_criteria []"
| char: "c \<notin> {CR, LF, DQUOTE, CHR ''('', CHR '')''} \<Longrightarrow> g_criteria cs \<Longrightarrow> g_criteria (c # cs)"
| quoted: "quoted_body q \<Longrightarrow> g_criteria cs \<Longrightarrow> g_criteria (DQUOTE # q @ DQUOTE # cs)"
| paren: "g_criteria a \<Longrightarrow> g_criteria b \<Longrightarrow> g_criteria (CHR ''('' # a @ CHR '')'' # b)"

text \<open>Text that closes \<open>n\<close> open parentheses.\<close>

fun closes :: "nat \<Rightarrow> octets \<Rightarrow> bool" where
  "closes 0 cs = g_criteria cs"
| "closes (Suc n) cs = (\<exists>a b. cs = a @ CHR '')'' # b \<and> g_criteria a \<and> closes n b)"

lemma closes_extend:
  assumes "closes n cs" and "\<And>a. g_criteria a \<Longrightarrow> g_criteria (pre @ a)"
  shows "closes n (pre @ cs)"
proof (cases n)
  case 0
  with assms show ?thesis by simp
next
  case (Suc m)
  with assms(1) obtain a b where "cs = a @ CHR '')'' # b" "g_criteria a" "closes m b" by auto
  with Suc assms(2) show ?thesis by (metis append_assoc closes.simps(2))
qed

lemma criteria_quoted_split:
  "criteria_loop d True e cs \<Longrightarrow>
     \<exists>q rest. cs = q @ DQUOTE # rest \<and> (if e then q \<noteq> [] \<and> hd q \<noteq> CR \<and> hd q \<noteq> LF \<and> quoted_body (tl q)
                                      else quoted_body q) \<and> criteria_loop d False False rest"
proof (induction cs arbitrary: e)
  case (Cons c cs)
  show ?case
  proof (cases e)
    case True
    with Cons.prems have "criteria_loop d True False cs" "c \<noteq> CR" "c \<noteq> LF" by (auto split: if_splits)
    with Cons.IH [of False] obtain q rest where "cs = q @ DQUOTE # rest" "quoted_body q"
      "criteria_loop d False False rest" by auto
    then show ?thesis
      using True \<open>c \<noteq> CR\<close> \<open>c \<noteq> LF\<close> by (intro exI [of _ "c # q"] exI [of _ rest]) simp
  next
    case False
    consider "c = DQUOTE" | "c = BSLASH" | "c \<notin> {CR, LF, DQUOTE, BSLASH}"
      using Cons.prems by (auto split: if_splits)
    then show ?thesis
    proof cases
      case 1
      then show ?thesis using Cons.prems False by (intro exI [of _ "[]"] exI [of _ cs]) simp
    next
      case 2
      then have "criteria_loop d True True cs" using Cons.prems False by simp
      with Cons.IH [of True] obtain q rest where q: "cs = q @ DQUOTE # rest" "q \<noteq> []"
        "hd q \<noteq> CR" "hd q \<noteq> LF" "quoted_body (tl q)" "criteria_loop d False False rest" by auto
      then have "quoted_body (BSLASH # q)" by (cases q) auto
      then show ?thesis using 2 q False by (intro exI [of _ "c # q"] exI [of _ rest]) simp
    next
      case 3
      then have "criteria_loop d True False cs" using Cons.prems False by (simp split: if_splits)
      with Cons.IH [of False] obtain q rest where q: "cs = q @ DQUOTE # rest" "quoted_body q"
        "criteria_loop d False False rest" by auto
      then have "quoted_body (c # q)" using 3 by (cases q) auto
      then show ?thesis using 3 q False by (intro exI [of _ "c # q"] exI [of _ rest]) simp
    qed
  qed
qed simp

lemma criteria_sound: "criteria_loop (int n) False False cs \<Longrightarrow> closes n cs"
proof (induction cs arbitrary: n rule: length_induct)
  case (1 cs)
  note IH = 1(1) and prem = 1(2)
  show ?case
  proof (cases cs)
    case Nil
    with prem show ?thesis by (simp add: g_criteria.nil)
  next
    case (Cons c r)
    consider "c = DQUOTE" | "c = CHR ''(''" | "c = CHR '')''"
      | "c \<notin> {CR, LF, DQUOTE, CHR ''('', CHR '')''}"
      using prem Cons by (auto split: if_splits)
    then show ?thesis
    proof cases
      case 1
      then have "criteria_loop (int n) True False r" using prem Cons by simp
      from criteria_quoted_split [OF this] obtain q rest where q: "r = q @ DQUOTE # rest"
        "quoted_body q" "criteria_loop (int n) False False rest" by auto
      then have "closes n rest" using IH Cons by simp
      then show ?thesis
        using closes_extend [of n rest "DQUOTE # q @ [DQUOTE]"] g_criteria.quoted [OF q(2)]
        by (simp add: Cons q(1) 1)
    next
      case 2
      then have "criteria_loop (int (Suc n)) False False r"
        using prem Cons by (simp add: add.commute)
      then have "closes (Suc n) r" using IH Cons by (metis length_Cons lessI)
      then obtain a b where ab: "r = a @ CHR '')'' # b" "g_criteria a" "closes n b" by auto
      then show ?thesis
        using closes_extend [of n b "CHR ''('' # a @ '')''"] g_criteria.paren [OF ab(2)]
        by (simp add: Cons 2)
    next
      case 3
      with prem Cons obtain m where m: "n = Suc m"
        "criteria_loop (int m) False False r"
        by (cases n) (auto split: if_splits)
      then have "closes m r" using IH Cons by simp
      then show ?thesis using m(1) Cons 3 g_criteria.nil by (auto intro: exI [of _ "[]"])
    next
      case 4
      then have "criteria_loop (int n) False False r"
        using prem Cons by simp
      then have "closes n r" using IH Cons by simp
      then show ?thesis using closes_extend [of n r "[c]"] g_criteria.char [OF 4] Cons by simp
    qed
  qed
qed

lemma criteria_quoted_complete:
  "quoted_body q \<Longrightarrow> criteria_loop d True False (q @ DQUOTE # cs) = criteria_loop d False False cs"
proof (induction q rule: quoted_body.induct)
  case (3 x y ys)
  show ?case
  proof (cases "x = BSLASH")
    case True
    with 3 show ?thesis by simp
  next
    case False
    with 3 have "quoted_body (y # ys)" "x \<noteq> CR" "x \<noteq> LF" "x \<noteq> DQUOTE" by simp_all
    with False 3(2) show ?thesis by simp
  qed
qed simp_all

lemma criteria_complete:
  "g_criteria a \<Longrightarrow> 0 \<le> d \<Longrightarrow> criteria_loop d False False (a @ cs) = criteria_loop d False False cs"
proof (induction a arbitrary: d cs rule: g_criteria.induct)
  case (quoted q xs)
  then show ?case by (simp add: criteria_quoted_complete)
next
  case (paren a b)
  have "criteria_loop (d + 1) False False (a @ CHR '')'' # b @ cs) =
      criteria_loop (d + 1) False False (CHR '')'' # b @ cs)"
    by (rule paren.IH(1)) (use paren.prems in simp)
  then show ?case using paren.prems paren.IH(2) [of d cs] by simp
qed simp_all

section \<open>Properties\<close>

fun apply_flag_ops :: "flag_set \<Rightarrow> (message_flag \<times> bool) list \<Rightarrow> flag_set" where
  "apply_flag_ops s [] = s"
| "apply_flag_ops s ((f, v) # ops) = apply_flag_ops (flag_set_flag s f v) ops"

lemma flag_test_set: "flag_test (flag_set_flag s f v) g \<longleftrightarrow> (if g = f then v else flag_test s g)"
  using flags.test_add [of s f g] flags.test_remove [of s f g]
  by (cases v) (auto simp: flag_reset_def)

text \<open>
  A flag set behaves as a set of flags: after any sequence of \<open>set\<close> and \<open>reset\<close>
  calls, a flag is present exactly when the last call that named it was a
  \<open>set\<close>, or when it was before and no call named it; the bits of the octet never interfere.
\<close>

lemma flag_set_last_write:
  "flag_test (apply_flag_ops s ops) f =
     (case map_of (rev ops) f of None \<Rightarrow> flag_test s f | Some v \<Rightarrow> v)"
proof (induction ops arbitrary: s)
  case (Cons op ops)
  obtain g v where op: "op = (g, v)" by (cases op)
  show ?case
    unfolding op using Cons.IH [of "flag_set_flag s g v"]
    by (auto simp: flag_test_set map_add_def split: option.splits)
qed simp

text \<open>
  C34. The capability set implements a set of case-folded names: it stays interned (upper
  case, no duplicates, no empty name), and after an insertion a lookup succeeds exactly for
  the names it knew before and, case-insensitively, for the inserted one.
\<close>

theorem capability_set_refines:
  assumes "caps_ok caps"
  shows "caps_ok (cap_insert caps name) \<and>
         set (cap_insert caps name) =
           (if name = [] then set caps else insert (map ascii_to_upper name) (set caps)) \<and>
         (cap_contains (cap_insert caps name) n \<longleftrightarrow>
            cap_contains caps n \<or> (name \<noteq> [] \<and> ascii_iequals name n))"
proof -
  have ok: "caps_ok (cap_insert caps name)"
    using assms cap_contains_iff [OF assms, of name]
    by (auto simp: cap_insert_def caps_ok_def capability_name_to_upper_def)
  have "set (cap_insert caps name) =
      (if name = [] then set caps else insert (map ascii_to_upper name) (set caps))"
    using cap_contains_iff [OF assms, of name]
    by (auto simp: cap_insert_def capability_name_to_upper_def)
  then show ?thesis
    using ok cap_contains_iff [OF assms] cap_contains_iff [OF ok]
    by (auto simp: ascii_iequals_iff_map)
qed

theorem capability_set_refines_witness:
  "caps_ok (cap_insert [''IDLE''] ''uidplus'') \<and>
   set (cap_insert [''IDLE''] ''uidplus'') =
     (if ''uidplus'' = [] then set [''IDLE'']
      else insert (map ascii_to_upper ''uidplus'') (set [''IDLE''])) \<and>
   (cap_contains (cap_insert [''IDLE''] ''uidplus'') ''UidPlus'' \<longleftrightarrow>
      cap_contains [''IDLE''] ''UidPlus'' \<or> (''uidplus'' \<noteq> [] \<and> ascii_iequals ''uidplus'' ''UidPlus''))"
  by (rule capability_set_refines) (simp add: caps_ok_def ascii_to_upper_def)

text \<open>
  Sequence-set validation is the grammar: \<open>is_valid\<close> accepts a text exactly when it is
  a comma-separated list of numbers and ranges with every number in 1 to 4294967295 or
  \<open>*\<close>, so no accumulated value ever wraps and nothing else reaches the wire.
\<close>

theorem sequence_set_valid_iff_grammar:
  "seq_is_valid src \<longleftrightarrow> g_seq_set src"
proof
  assume "seq_is_valid src"
  then show "g_seq_set src" using seq_loop_sound [of src 0] by (simp add: seq_is_valid_def)
next
  assume g: "g_seq_set src"
  then have "src \<noteq> []"
    by (cases rule: g_seq_set.cases) (auto simp: g_seq_range_def g_seq_number_def)
  then show "seq_is_valid src" using seq_loop_complete [OF g, of "[]"] by (simp add: seq_is_valid_def)
qed

text \<open>
  Search-criteria validation is the structural grammar: a text is accepted exactly when
  it is non-empty, free of CR and LF, and made of plain octets, complete quoted strings and
  balanced parentheses. In particular an accepted text cannot end a command line early.
\<close>

theorem criteria_valid_iff_grammar:
  "criteria_is_valid src \<longleftrightarrow> src \<noteq> [] \<and> g_criteria src"
  using criteria_sound [of 0 src] criteria_complete [of src 0 "[]"]
  by (auto simp: criteria_is_valid_def)

end
