(* ===== verification/Parser.thy ===== *)
theory Parser
  imports Cursor Values
begin

text \<open>
  The response types of \<open>imap/response.h\<close> and the classifier and shallow parser of
  \<open>imap/detail/response_parser.h\<close>: tagged replies, untagged responses and continuation
  requests, with their response codes. \<open>None\<close> is \<open>std::nullopt\<close>, a protocol violation.

  The lemmas show which texts are rejected, that unknown codes and keywords degrade instead of
  failing, and that well-formed replies are read back exactly.
\<close>

section \<open>Response types\<close>

datatype response_status = St_ok | St_no | St_bad | St_preauth | St_bye

datatype untagged_kind = K_ok | K_no | K_bad | K_preauth | K_bye | K_capability | K_flags | K_list
  | K_lsub | K_status | K_search | K_exists | K_recent | K_expunge | K_fetch | K_unknown

datatype response_code = Alert_code | Badcharset_code "octets list" | Capability_code "octets list"
  | Parse_code | Permanentflags_code flag_set | Read_only_code | Read_write_code | Trycreate_code
  | Uidnext_code nat | Uidvalidity_code nat | Unseen_code nat | Unknown_code octets octets

record tagged_response =
  tr_tag :: octets
  tr_status :: response_status
  tr_code :: "response_code option"
  tr_text :: octets

record untagged_response =
  ur_kind :: untagged_kind
  ur_number :: nat
  ur_status :: response_status
  ur_code :: "response_code option"
  ur_text :: octets
  ur_payload :: octets

definition default_untagged :: untagged_response where
  "default_untagged =
     \<lparr>ur_kind = K_unknown, ur_number = 0, ur_status = St_ok, ur_code = None, ur_text = [],
      ur_payload = []\<rparr>"

datatype server_response = Tagged tagged_response | Untagged untagged_response
  | Continuation octets

section \<open>Keywords\<close>

definition classify_status :: "octets \<Rightarrow> response_status option" where
  "classify_status word =
     (if ascii_iequals word ''OK'' then Some St_ok
      else if ascii_iequals word ''NO'' then Some St_no
      else if ascii_iequals word ''BAD'' then Some St_bad
      else if ascii_iequals word ''PREAUTH'' then Some St_preauth
      else if ascii_iequals word ''BYE'' then Some St_bye
      else None)"

fun kind_for :: "response_status \<Rightarrow> untagged_kind" where
  "kind_for St_ok = K_ok"
| "kind_for St_no = K_no"
| "kind_for St_bad = K_bad"
| "kind_for St_preauth = K_preauth"
| "kind_for St_bye = K_bye"

definition map_flag :: "octets \<Rightarrow> flag_set \<Rightarrow> flag_set" where
  "map_flag flag flags =
     (if ascii_iequals flag (BSLASH # ''Seen'') then flag_set_flag flags Seen True
      else if ascii_iequals flag (BSLASH # ''Answered'') then flag_set_flag flags Answered True
      else if ascii_iequals flag (BSLASH # ''Flagged'') then flag_set_flag flags Flagged True
      else if ascii_iequals flag (BSLASH # ''Deleted'') then flag_set_flag flags Deleted True
      else if ascii_iequals flag (BSLASH # ''Draft'') then flag_set_flag flags Draft True
      else if ascii_iequals flag (BSLASH # ''Recent'') then flag_set_flag flags Recent True
      else flags)"

definition make_unknown :: "octets \<Rightarrow> octets \<Rightarrow> response_code" where
  "make_unknown atom arguments =
     Unknown_code atom (if arguments \<noteq> [] \<and> hd arguments = SP then tl arguments else arguments)"

section \<open>Progress of the accessors\<close>

lemma try_consume_True: "try_consume ch c = (True, c') \<Longrightarrow> rem_len c' < rem_len c"
  by (auto simp: try_consume_def rem_len_def at_end_def split: if_splits)

lemma try_consume_False: "try_consume ch c = (False, c') \<Longrightarrow> c' = c"
  by (auto simp: try_consume_def split: if_splits)

lemma read_while_progress:
  "read_while p c = (w, c') \<Longrightarrow> rem_len c' \<le> rem_len c \<and> (w \<noteq> [] \<longrightarrow> rem_len c' < rem_len c)"
proof -
  assume "read_while p c = (w, c')"
  then have w: "w = takeWhile p (drop (cpos c) (ctext c))" and c': "c' = c\<lparr>cpos := cpos c + length w\<rparr>"
    by (auto simp: read_while_eq remaining_def)
  have "w \<noteq> [] \<Longrightarrow> 0 < length w \<and> cpos c < length (ctext c)"
    unfolding w by (auto simp: takeWhile_eq_Nil_iff)
  then show ?thesis unfolding c' rem_len_def by (cases w) auto
qed

lemma read_atom_progress:
  "read_atom c = (w, c') \<Longrightarrow> rem_len c' \<le> rem_len c \<and> (w \<noteq> [] \<longrightarrow> rem_len c' < rem_len c)"
  unfolding read_atom_def by (rule read_while_progress)

lemma read_until_progress:
  "read_until_any stops c = (w, c') \<Longrightarrow>
     rem_len c' \<le> rem_len c \<and> (w \<noteq> [] \<longrightarrow> rem_len c' < rem_len c)"
  unfolding read_until_any_def by (rule read_while_progress)

lemma skip_spaces_progress: "rem_len (skip_spaces c) \<le> rem_len c"
  by (auto simp: skip_spaces_def rem_len_def advance_while_eq)

lemma read_quoted_progress: "read_quoted c = (Some v, c') \<Longrightarrow> rem_len c' < rem_len c"
proof -
  assume a: "read_quoted c = (Some v, c')"
  then obtain c1 where t: "try_consume DQUOTE c = (True, c1)"
    by (auto simp: read_quoted_def split: prod.splits bool.splits)
  then obtain stop e where q: "quoted_loop (ctext c1) (cpos c1) False = (stop, Some e)"
    using a by (auto simp: read_quoted_def split: prod.splits option.splits)
  have c1: "ctext c1 = ctext c" "cpos c1 = cpos c + 1" "cpos c < length (ctext c)"
    using t by (auto simp: try_consume_def at_end_def split: if_splits)
  have "cpos c1 \<le> stop" using quoted_loop_bounds [OF q] c1 by simp
  moreover have "ctext c' = ctext c1" "cpos c' = stop + 1"
    using a t q by (auto simp: read_quoted_def Let_def split: if_splits)
  ultimately show ?thesis using c1 by (auto simp: rem_len_def)
qed

lemma read_literal_progress: "read_literal c = (Some v, c') \<Longrightarrow> rem_len c' < rem_len c"
  by (auto simp: read_literal_def rem_len_def dest!: literal_headD split: option.splits if_splits)

lemma read_astring_progress: "read_astring c = (Some v, c') \<Longrightarrow> rem_len c' < rem_len c"
  using read_quoted_progress read_literal_progress read_atom_progress [of c]
  by (auto simp: read_astring_def read_string_def split: prod.splits if_splits)

lemmas [cursor_len] = try_consume_True try_consume_False read_atom_progress read_until_progress
  skip_spaces_progress read_astring_progress

section \<open>Response codes\<close>

text \<open>The three list loops of \<open>parse_resp_code\<close>. \<open>Inl c\<close> is a malformed list, with the
  cursor where the loop gave up.\<close>

function capability_loop :: "cursor \<Rightarrow> octets list \<Rightarrow> octets list" where
  "capability_loop c acc =
     (case try_consume SP c of
        (False, c1) \<Rightarrow> acc
      | (True, c1) \<Rightarrow>
          (case read_atom c1 of
             (cap, c2) \<Rightarrow> (if cap = [] then acc else capability_loop c2 (acc @ [cap]))))"
  by pat_completeness auto
termination
  by (relation "measure (\<lambda>(c, acc). rem_len c)")
    (auto dest!: sym [THEN try_consume_True] sym [THEN read_atom_progress])

function charset_loop :: "cursor \<Rightarrow> octets list \<Rightarrow> cursor + octets list" where
  "charset_loop c acc =
     (case try_consume (CHR '')'') (skip_spaces c) of
        (True, c1) \<Rightarrow> Inr acc
      | (False, c1) \<Rightarrow>
          (case read_astring c1 of
             (None, c2) \<Rightarrow> Inl c2
           | (Some cs, c2) \<Rightarrow> charset_loop c2 (acc @ [view_str cs])))"
  by pat_completeness auto
termination
  by (relation "measure (\<lambda>(c, acc). rem_len c)")
    (auto dest!: sym [THEN try_consume_False] sym [THEN read_astring_progress]
      intro: less_le_trans [OF _ skip_spaces_progress])

function flag_loop :: "cursor \<Rightarrow> flag_set \<Rightarrow> cursor + flag_set" where
  "flag_loop c flags =
     (case try_consume (CHR '')'') (skip_spaces c) of
        (True, c1) \<Rightarrow> Inr flags
      | (False, c1) \<Rightarrow>
          (case read_until_any '' )'' c1 of
             (flag, c2) \<Rightarrow> (if flag = [] then Inl c2 else flag_loop c2 (map_flag flag flags))))"
  by pat_completeness auto
termination
  by (relation "measure (\<lambda>(c, acc). rem_len c)")
    (auto dest!: sym [THEN try_consume_False] sym [THEN read_until_progress]
      intro: less_le_trans [OF _ skip_spaces_progress])

declare capability_loop.simps [simp del] charset_loop.simps [simp del] flag_loop.simps [simp del]

definition parse_resp_code :: "octets \<Rightarrow> response_code" where
  "parse_resp_code inner =
     (let (atom, c) = read_atom (mk_cursor inner)
      in if ascii_iequals atom ''ALERT'' then Alert_code
         else if ascii_iequals atom ''PARSE'' then Parse_code
         else if ascii_iequals atom ''READ-ONLY'' then Read_only_code
         else if ascii_iequals atom ''READ-WRITE'' then Read_write_code
         else if ascii_iequals atom ''TRYCREATE'' then Trycreate_code
         else if ascii_iequals atom ''UIDNEXT'' \<or> ascii_iequals atom ''UIDVALIDITY'' \<or>
                 ascii_iequals atom ''UNSEEN'' then
           (case try_consume SP c of
              (False, c1) \<Rightarrow> make_unknown atom (remaining c1)
            | (True, c1) \<Rightarrow>
                (case read_number c1 of
                   (None, c2) \<Rightarrow> make_unknown atom (remaining c2)
                 | (Some n, c2) \<Rightarrow>
                     (if ascii_iequals atom ''UIDNEXT'' then Uidnext_code (wrap32 n)
                      else if ascii_iequals atom ''UIDVALIDITY'' then Uidvalidity_code (wrap32 n)
                      else Unseen_code (wrap32 n))))
         else if ascii_iequals atom ''CAPABILITY'' then Capability_code (capability_loop c [])
         else if ascii_iequals atom ''BADCHARSET'' then
           (case try_consume SP c of
              (False, c1) \<Rightarrow> Badcharset_code []
            | (True, c1) \<Rightarrow>
                (case try_consume (CHR ''('') c1 of
                   (False, c2) \<Rightarrow> make_unknown atom (remaining c2)
                 | (True, c2) \<Rightarrow>
                     (case charset_loop c2 [] of
                        Inl c3 \<Rightarrow> make_unknown atom (remaining c3)
                      | Inr charsets \<Rightarrow> Badcharset_code charsets)))
         else if ascii_iequals atom ''PERMANENTFLAGS'' then
           (case try_consume SP c of
              (False, c1) \<Rightarrow> make_unknown atom (remaining c1)
            | (True, c1) \<Rightarrow>
                (case try_consume (CHR ''('') c1 of
                   (False, c2) \<Rightarrow> make_unknown atom (remaining c2)
                 | (True, c2) \<Rightarrow>
                     (case flag_loop c2 0 of
                        Inl c3 \<Rightarrow> make_unknown atom (remaining c3)
                      | Inr flags \<Rightarrow> Permanentflags_code flags)))
         else make_unknown atom (remaining c))"

section \<open>Response texts\<close>

text \<open>\<open>parse_resp_text\<close>: \<open>None\<close> is its result false (an unterminated code bracket).\<close>

definition parse_resp_text :: "cursor \<Rightarrow> (response_code option \<times> octets) option" where
  "parse_resp_text c =
     (case try_consume SP c of
        (False, c1) \<Rightarrow> Some (None, [])
      | (True, c1) \<Rightarrow>
          (if peek c1 = CHR ''['' then
             (let c2 = snd (try_consume (CHR ''['') c1);
                  (inner, c3) = read_until_any '']'' c2
              in case try_consume (CHR '']'') c3 of
                   (False, c4) \<Rightarrow> None
                 | (True, c4) \<Rightarrow>
                     (case try_consume SP c4 of
                        (True, c5) \<Rightarrow> Some (Some (parse_resp_code inner), remaining c5)
                      | (False, c5) \<Rightarrow> Some (Some (parse_resp_code inner), [])))
           else Some (None, remaining c1)))"

definition parse_continuation :: "octets \<Rightarrow> server_response option" where
  "parse_continuation response =
     (let rest = drop 1 response
      in Some (Continuation (if rest \<noteq> [] \<and> hd rest = SP then tl rest else rest)))"

definition parse_tagged :: "octets \<Rightarrow> server_response option" where
  "parse_tagged response =
     (let (tag, c) = read_atom (mk_cursor response)
      in if tag = [] then None
         else
           (case try_consume SP c of
              (False, c1) \<Rightarrow> None
            | (True, c1) \<Rightarrow>
                (let (word, c2) = read_atom c1
                 in case classify_status word of
                      None \<Rightarrow> None
                    | Some status \<Rightarrow>
                        (if status = St_preauth \<or> status = St_bye then None
                         else
                           (case parse_resp_text c2 of
                              None \<Rightarrow> None
                            | Some (code, msg) \<Rightarrow>
                                Some (Tagged \<lparr>tr_tag = tag, tr_status = status, tr_code = code,
                                              tr_text = msg\<rparr>))))))"

definition parse_untagged :: "octets \<Rightarrow> server_response option" where
  "parse_untagged response =
     (let c0 = snd (try_consume (CHR ''*'') (mk_cursor response))
      in case try_consume SP c0 of
           (False, c1) \<Rightarrow> None
         | (True, c) \<Rightarrow>
             (let data_start = position c; out = default_untagged
              in if is_digit (peek c) then
                   (case read_number c of
                      (None, c1) \<Rightarrow> None
                    | (Some number, c1) \<Rightarrow>
                        (case try_consume SP c1 of
                           (False, c2) \<Rightarrow> None
                         | (True, c2) \<Rightarrow>
                             (let out = out\<lparr>ur_number := number\<rparr>; (word, c3) = read_atom c2
                              in Some (Untagged
                                (if ascii_iequals word ''EXISTS'' then out\<lparr>ur_kind := K_exists\<rparr>
                                 else if ascii_iequals word ''RECENT'' then out\<lparr>ur_kind := K_recent\<rparr>
                                 else if ascii_iequals word ''EXPUNGE'' then out\<lparr>ur_kind := K_expunge\<rparr>
                                 else if ascii_iequals word ''FETCH'' then
                                   (case try_consume SP c3 of
                                      (True, c4) \<Rightarrow> out\<lparr>ur_kind := K_fetch, ur_payload := remaining c4\<rparr>
                                    | (False, c4) \<Rightarrow> out\<lparr>ur_kind := K_fetch\<rparr>)
                                 else out\<lparr>ur_kind := K_unknown,
                                          ur_payload := drop data_start response\<rparr>)))))
                 else
                   (let (word, c1) = read_atom c
                    in if word = [] then None
                       else
                         (case classify_status word of
                            Some status \<Rightarrow>
                              (case parse_resp_text c1 of
                                 None \<Rightarrow> None
                               | Some (code, msg) \<Rightarrow>
                                   Some (Untagged (out\<lparr>ur_kind := kind_for status, ur_status := status,
                                                       ur_code := code, ur_text := msg\<rparr>)))
                          | None \<Rightarrow>
                              (let known =
                                 (if ascii_iequals word ''CAPABILITY'' then Some K_capability
                                  else if ascii_iequals word ''FLAGS'' then Some K_flags
                                  else if ascii_iequals word ''LIST'' then Some K_list
                                  else if ascii_iequals word ''LSUB'' then Some K_lsub
                                  else if ascii_iequals word ''STATUS'' then Some K_status
                                  else if ascii_iequals word ''SEARCH'' then Some K_search
                                  else None)
                               in case known of
                                    None \<Rightarrow> Some (Untagged (out\<lparr>ur_kind := K_unknown,
                                                            ur_payload := drop data_start response\<rparr>))
                                  | Some kind \<Rightarrow>
                                      (case try_consume SP c1 of
                                         (True, c2) \<Rightarrow> Some (Untagged (out\<lparr>ur_kind := kind,
                                                          ur_payload := remaining c2\<rparr>))
                                       | (False, c2) \<Rightarrow> Some (Untagged (out\<lparr>ur_kind := kind\<rparr>))))))))"

definition parse_response :: "octets \<Rightarrow> server_response option" where
  "parse_response response =
     (if response = [] then None
      else if hd response = CHR ''+'' then parse_continuation response
      else if hd response = CHR ''*'' then parse_untagged response
      else parse_tagged response)"


section \<open>The parser over lists\<close>

text \<open>
  The accessors seen through the unread input alone. The shallow parser only looks at the unread
  input, so that its offsets can be forgotten.
\<close>

lemma fst_try_consume: "fst (try_consume ch c) \<longleftrightarrow> remaining c \<noteq> [] \<and> hd (remaining c) = ch"
  by (auto simp: try_consume_def at_end_def remaining_def hd_drop_conv_nth)

lemma remaining_try_consume:
  "remaining (snd (try_consume ch c)) =
     (if remaining c \<noteq> [] \<and> hd (remaining c) = ch then tl (remaining c) else remaining c)"
  by (auto simp: try_consume_def at_end_def remaining_def hd_drop_conv_nth tl_drop drop_Suc)

lemma peek_remaining: "peek c = (if remaining c = [] then CHR 0x00 else hd (remaining c))"
  by (auto simp: peek_def at_end_def remaining_def hd_drop_conv_nth)

lemma remaining_read_while: "remaining (snd (read_while p c)) = dropWhile p (remaining c)"
  by (simp add: read_while_eq remaining_def dropWhile_eq_drop add.commute)

lemma fst_read_while: "fst (read_while p c) = takeWhile p (remaining c)"
  by (simp add: read_while_eq)

lemma fst_read_number:
  "fst (read_number c) =
     (let ds = takeWhile is_digit (remaining c) in if ds = [] then None else from_chars u64_max ds)"
  by (simp add: read_number_def read_while_eq Let_def)

lemma remaining_read_number: "remaining (snd (read_number c)) = dropWhile is_digit (remaining c)"
  using remaining_read_while [of is_digit c]
  by (auto simp: read_number_def Let_def split: prod.split)

lemma remaining_mk_cursor [simp]: "remaining (mk_cursor src) = src"
  by (simp add: mk_cursor_def remaining_def)

lemmas unread = fst_try_consume remaining_try_consume peek_remaining remaining_read_while
  fst_read_while fst_read_number remaining_read_number read_atom_def read_until_any_def

text \<open>Response texts: the optional code in brackets, then the human readable text.\<close>

fun resp_text :: "octets \<Rightarrow> (response_code option \<times> octets) option" where
  "resp_text (s # b # xs) =
     (if s \<noteq> SP then Some (None, [])
      else if b \<noteq> CHR ''['' then Some (None, b # xs)
      else
        (case find_char (CHR '']'') xs of
           None \<Rightarrow> None
         | Some i \<Rightarrow>
             Some (Some (parse_resp_code (take i xs)),
                   (case drop (Suc i) xs of y # ys \<Rightarrow> if y = SP then ys else [] | [] \<Rightarrow> []))))"
| "resp_text _ = Some (None, [])"

lemma dropWhile_find_char:
  "find_char c xs = Some i \<Longrightarrow> dropWhile (\<lambda>x. x \<noteq> c) xs = c # drop (Suc i) xs"
  by (induction xs arbitrary: i) (auto split: if_splits)

lemma find_char_mem: "find_char c xs = Some i \<Longrightarrow> c \<in> set xs"
  using find_char_None [of c xs] by auto

lemma parse_resp_text_eq: "parse_resp_text c = resp_text (remaining c)"
  by (cases "remaining c" rule: resp_text.cases)
    (auto simp: parse_resp_text_def Let_def case_prod_beta unread dropWhile_eq_Nil_conv
      find_char_takeWhile dropWhile_find_char dest: find_char_mem
      split: bool.split option.split list.split)

section \<open>Tagged replies\<close>

text \<open>The shape of a tagged reply: an atom as the tag, a space, the status word, the response text.\<close>

definition tagged_form :: "octets \<Rightarrow> octets \<Rightarrow> response_status \<Rightarrow> octets \<Rightarrow> bool" where
  "tagged_form r tag status rest \<longleftrightarrow>
     (\<exists>word. r = tag @ SP # word @ rest \<and> tag \<noteq> [] \<and> list_all is_atom_char tag \<and>
        list_all is_atom_char word \<and> (rest = [] \<or> \<not> is_atom_char (hd rest)) \<and>
        classify_status word = Some status \<and> status \<in> {St_ok, St_no, St_bad})"

lemma run_split:
  assumes "list_all p a" "rest = [] \<or> \<not> p (hd rest)"
  shows "takeWhile p (a @ rest) = a" "dropWhile p (a @ rest) = rest"
proof -
  have "takeWhile p rest = []" "dropWhile p rest = rest" using assms(2) by (cases rest; auto)+
  then show "takeWhile p (a @ rest) = a" "dropWhile p (a @ rest) = rest"
    using assms(1) by (simp_all add: list_all_iff takeWhile_append2 dropWhile_append2)
qed

lemma run_ends: "dropWhile p xs = [] \<or> \<not> p (hd (dropWhile p xs))"
  using hd_dropWhile [of p xs] by auto

lemma list_all_takeWhile: "list_all p (takeWhile p xs)"
  by (auto simp: list_all_iff dest: set_takeWhileD)

lemma not_atom_SP [simp]: "\<not> is_atom_char SP"
  by (simp add: char_class)

lemma parse_tagged_eq:
  "parse_tagged r = Some (Tagged t) \<longleftrightarrow>
     (\<exists>rest. tagged_form r (tr_tag t) (tr_status t) rest \<and>
        resp_text rest = Some (tr_code t, tr_text t))" (is "?l \<longleftrightarrow> ?r")
proof -
  define tag ys where "tag = takeWhile is_atom_char r" and "ys = dropWhile is_atom_char r"
  define word zs where "word = takeWhile is_atom_char (tl ys)" and "zs = dropWhile is_atom_char (tl ys)"
  have "?l \<longleftrightarrow> tag \<noteq> [] \<and> ys \<noteq> [] \<and> hd ys = SP \<and> tr_tag t = tag \<and>
      classify_status word = Some (tr_status t) \<and> tr_status t \<in> {St_ok, St_no, St_bad} \<and>
      resp_text zs = Some (tr_code t, tr_text t)"
    by (cases t, cases "tr_status t")
      (auto simp: parse_tagged_def Let_def case_prod_beta unread parse_resp_text_eq
        tag_def ys_def word_def zs_def split: bool.splits option.splits response_status.splits)
  also have "\<dots> \<longleftrightarrow> ?r"
  proof
    assume a: "tag \<noteq> [] \<and> ys \<noteq> [] \<and> hd ys = SP \<and> tr_tag t = tag \<and>
      classify_status word = Some (tr_status t) \<and> tr_status t \<in> {St_ok, St_no, St_bad} \<and>
      resp_text zs = Some (tr_code t, tr_text t)"
    then have "r = tag @ SP # word @ zs"
      unfolding tag_def ys_def word_def zs_def
      by (metis list.collapse takeWhile_dropWhile_id)
    with a have "tagged_form r (tr_tag t) (tr_status t) zs"
      unfolding tagged_form_def tag_def word_def zs_def
      by (metis list_all_takeWhile run_ends)
    with a show ?r by blast
  next
    assume ?r
    then obtain w rest where r: "r = tr_tag t @ SP # w @ rest" and f: "tr_tag t \<noteq> []"
      "list_all is_atom_char (tr_tag t)" "list_all is_atom_char w"
      "rest = [] \<or> \<not> is_atom_char (hd rest)" "classify_status w = Some (tr_status t)"
      "tr_status t \<in> {St_ok, St_no, St_bad}" "resp_text rest = Some (tr_code t, tr_text t)"
      by (auto simp: tagged_form_def)
    have "tag = tr_tag t" "ys = SP # w @ rest"
      unfolding tag_def ys_def r using f(2) by (simp_all add: run_split)
    moreover have "word = w" "zs = rest"
      unfolding word_def zs_def \<open>ys = SP # w @ rest\<close> using f(3,4) by (simp_all add: run_split)
    ultimately show "tag \<noteq> [] \<and> ys \<noteq> [] \<and> hd ys = SP \<and> tr_tag t = tag \<and>
      classify_status word = Some (tr_status t) \<and> tr_status t \<in> {St_ok, St_no, St_bad} \<and>
      resp_text zs = Some (tr_code t, tr_text t)" using f by simp
  qed
  finally show ?thesis .
qed

lemma parse_untagged_shape: "parse_untagged r = Some x \<Longrightarrow> \<exists>u. x = Untagged u"
  by (auto simp: parse_untagged_def Let_def split: prod.splits bool.splits option.splits if_splits)

lemma atom_char_star [simp]: "\<not> is_atom_char (CHR ''*'')"
  by (simp add: char_class)

text \<open>
  The tagged replies the parser accepts are exactly the texts of the form tag, space, status
  word, response text, where the tag is a non-empty atom that does not start with a plus sign and
  the status is OK, NO or BAD; tag, status, code and text of the result are those of the input.
\<close>

theorem tagged_reply_iff:
  "parse_response r = Some (Tagged t) \<longleftrightarrow>
     hd (tr_tag t) \<noteq> CHR ''+'' \<and>
     (\<exists>rest. tagged_form r (tr_tag t) (tr_status t) rest \<and>
        resp_text rest = Some (tr_code t, tr_text t))"
proof -
  have first: "tagged_form r (tr_tag t) st rest \<Longrightarrow>
      r \<noteq> [] \<and> hd r = hd (tr_tag t) \<and> hd r \<noteq> CHR ''*''" for st rest
    by (cases "tr_tag t") (auto simp: tagged_form_def)
  have "parse_response r = Some (Tagged t) \<longleftrightarrow>
      r \<noteq> [] \<and> hd r \<noteq> CHR ''+'' \<and> hd r \<noteq> CHR ''*'' \<and> parse_tagged r = Some (Tagged t)"
    by (auto simp: parse_response_def parse_continuation_def Let_def dest: parse_untagged_shape)
  then show ?thesis using first by (auto simp: parse_tagged_eq)
qed

section \<open>What is rejected\<close>

definition unterminated_code :: "octets \<Rightarrow> bool" where
  "unterminated_code rest \<longleftrightarrow> (\<exists>u. rest = '' ['' @ u \<and> CHR '']'' \<notin> set u)"

definition lacks_space :: "octets \<Rightarrow> bool" where
  "lacks_space xs \<longleftrightarrow> xs = [] \<or> hd xs \<noteq> SP"

definition bad_untagged :: "octets \<Rightarrow> bool" where
  "bad_untagged ys \<longleftrightarrow>
     (if ys \<noteq> [] \<and> is_digit (hd ys)
      then u64_max < dec_value (takeWhile is_digit ys) \<or> lacks_space (dropWhile is_digit ys)
      else takeWhile is_atom_char ys = [] \<or>
        (classify_status (takeWhile is_atom_char ys) \<noteq> None \<and>
         unterminated_code (dropWhile is_atom_char ys)))"

definition bad_tagged :: "octets \<Rightarrow> bool" where
  "bad_tagged r \<longleftrightarrow>
     (let tag = takeWhile is_atom_char r; ys = dropWhile is_atom_char r;
          word = takeWhile is_atom_char (tl ys); rest = dropWhile is_atom_char (tl ys)
      in tag = [] \<or> lacks_space ys \<or>
         classify_status word \<notin> {Some St_ok, Some St_no, Some St_bad} \<or> unterminated_code rest)"

lemma resp_text_None: "resp_text xs = None \<longleftrightarrow> unterminated_code xs"
  by (cases xs rule: resp_text.cases)
    (auto simp: unterminated_code_def split: option.splits dest: find_char_mem)

lemma not_tagged_status:
  "st = St_preauth \<or> st = St_bye \<longleftrightarrow> st \<noteq> St_ok \<and> st \<noteq> St_no \<and> st \<noteq> St_bad"
  by (cases st) auto

lemma parse_tagged_None: "parse_tagged r = None \<longleftrightarrow> bad_tagged r"
  unfolding parse_tagged_def not_tagged_status
  by (auto simp: bad_tagged_def lacks_space_def Let_def case_prod_beta unread
      parse_resp_text_eq resp_text_None [symmetric] simp del: dropWhile_eq_Nil_conv
      split: bool.splits option.splits)

lemma null_not_digit [simp]: "\<not> is_digit (CHR 0x00)"
  by (simp add: char_class)

lemma parse_untagged_None:
  "hd r = CHR ''*'' \<Longrightarrow> r \<noteq> [] \<Longrightarrow>
     parse_untagged r = None \<longleftrightarrow> lacks_space (tl r) \<or> bad_untagged (tl (tl r))"
  by (auto simp: parse_untagged_def bad_untagged_def lacks_space_def Let_def case_prod_beta unread
      parse_resp_text_eq resp_text_None [symmetric] from_chars_def takeWhile_eq_Nil_iff
      split: bool.splits option.splits if_splits)

text \<open>
  C29. Only malformed bytes are a protocol violation: the parser fails exactly on the empty
  response, on an untagged response without its space, with a number that does not fit 64 bits or
  has no space after it, with no keyword, or with an unterminated code bracket after a status word,
  and on a tagged reply whose tag, space, status or code bracket is malformed. Unknown keywords and
  unknown response codes never make it fail.
\<close>

theorem violation_iff:
  "parse_response r = None \<longleftrightarrow>
     r = [] \<or>
     (hd r = CHR ''*'' \<and> (lacks_space (tl r) \<or> bad_untagged (tl (tl r)))) \<or>
     (hd r \<noteq> CHR ''*'' \<and> hd r \<noteq> CHR ''+'' \<and> bad_tagged r)"
  by (auto simp: parse_response_def parse_continuation_def Let_def parse_tagged_None
      parse_untagged_None)

section \<open>Response codes\<close>

text \<open>The wire form of a response code, and the codes that have one.\<close>

fun sp_join :: "octets list \<Rightarrow> octets" where
  "sp_join [] = []"
| "sp_join (x # xs) = x @ (if xs = [] then [] else SP # sp_join xs)"

fun flag_name :: "message_flag \<Rightarrow> octets" where
  "flag_name Seen = BSLASH # ''Seen''"
| "flag_name Answered = BSLASH # ''Answered''"
| "flag_name Flagged = BSLASH # ''Flagged''"
| "flag_name Deleted = BSLASH # ''Deleted''"
| "flag_name Draft = BSLASH # ''Draft''"
| "flag_name Recent = BSLASH # ''Recent''"

definition all_flags :: "message_flag list" where
  "all_flags = [Seen, Answered, Flagged, Deleted, Draft, Recent]"

fun print_code :: "response_code \<Rightarrow> octets" where
  "print_code Alert_code = ''ALERT''"
| "print_code (Badcharset_code cs) =
     ''BADCHARSET'' @ (if cs = [] then [] else '' ('' @ sp_join cs @ '')'')"
| "print_code (Capability_code caps) = ''CAPABILITY'' @ concat (map (\<lambda>c. SP # c) caps)"
| "print_code Parse_code = ''PARSE''"
| "print_code (Permanentflags_code f) =
     ''PERMANENTFLAGS ('' @ sp_join (map flag_name (filter (flag_test f) all_flags)) @ '')''"
| "print_code Read_only_code = ''READ-ONLY''"
| "print_code Read_write_code = ''READ-WRITE''"
| "print_code Trycreate_code = ''TRYCREATE''"
| "print_code (Uidnext_code n) = ''UIDNEXT '' @ to_chars n"
| "print_code (Uidvalidity_code n) = ''UIDVALIDITY '' @ to_chars n"
| "print_code (Unseen_code n) = ''UNSEEN '' @ to_chars n"
| "print_code (Unknown_code a args) = a @ (if args = [] then [] else SP # args)"

definition known_codes :: "octets list" where
  "known_codes = [''ALERT'', ''PARSE'', ''READ-ONLY'', ''READ-WRITE'', ''TRYCREATE'', ''UIDNEXT'',
     ''UIDVALIDITY'', ''UNSEEN'', ''CAPABILITY'', ''BADCHARSET'', ''PERMANENTFLAGS'']"

definition plain_atom :: "octets \<Rightarrow> bool" where
  "plain_atom a \<longleftrightarrow> a \<noteq> [] \<and> list_all is_atom_char a"

fun wf_code :: "response_code \<Rightarrow> bool" where
  "wf_code (Badcharset_code cs) \<longleftrightarrow> list_all (\<lambda>a. plain_atom a \<and> hd a \<noteq> CHR ''~'') cs"
| "wf_code (Capability_code caps) \<longleftrightarrow> list_all plain_atom caps"
| "wf_code (Permanentflags_code f) \<longleftrightarrow> take_bit 6 f = f"
| "wf_code (Uidnext_code n) \<longleftrightarrow> n \<le> u32_max"
| "wf_code (Uidvalidity_code n) \<longleftrightarrow> n \<le> u32_max"
| "wf_code (Unseen_code n) \<longleftrightarrow> n \<le> u32_max"
| "wf_code (Unknown_code a args) \<longleftrightarrow>
     list_all is_atom_char a \<and> list_all (\<lambda>k. \<not> ascii_iequals a k) known_codes"
| "wf_code _ \<longleftrightarrow> True"

lemma remaining_skip_spaces: "remaining (skip_spaces c) = dropWhile (\<lambda>x. x = SP) (remaining c)"
  by (simp add: skip_spaces_def remaining_def advance_while_eq dropWhile_eq_drop add.commute)

lemma capability_loop_printed:
  "remaining c = concat (map (\<lambda>x. SP # x) caps) \<Longrightarrow> list_all plain_atom caps \<Longrightarrow>
     capability_loop c acc = acc @ caps"
proof (induction caps arbitrary: c acc)
  case Nil
  then show ?case
    by (subst capability_loop.simps) (auto simp: case_prod_beta fst_try_consume split: bool.split)
next
  case (Cons x xs)
  let ?tail = "concat (map (\<lambda>x. SP # x) xs)"
  have ends: "?tail = [] \<or> \<not> is_atom_char (hd ?tail)" by (cases xs) auto
  have x: "list_all is_atom_char x" "x \<noteq> []" using Cons.prems by (auto simp: plain_atom_def)
  let ?c1 = "snd (try_consume SP c)"
  have r1: "remaining ?c1 = x @ ?tail" "fst (try_consume SP c)"
    using Cons.prems by (simp_all add: unread)
  have ra: "fst (read_atom ?c1) = x" "remaining (snd (read_atom ?c1)) = ?tail"
    using r1 run_split [OF x(1) ends] by (simp_all add: unread)
  have "capability_loop c acc = capability_loop (snd (read_atom ?c1)) (acc @ [x])"
    using r1(2) ra(1) x(2)
    by (subst capability_loop.simps) (auto simp: case_prod_beta split: bool.split)
  then show ?case using Cons.IH [OF ra(2)] Cons.prems by simp
qed

lemma read_astring_atom:
  assumes "remaining c = a @ rest" "plain_atom a" "hd a \<noteq> CHR ''~''"
    and "rest = [] \<or> \<not> is_atom_char (hd rest)"
  shows "\<exists>c'. read_astring c = (Some (Text_view a), c') \<and> remaining c' = rest"
proof -
  obtain x xs where x: "a = x # xs" using assms(2) by (cases a) (auto simp: plain_atom_def)
  then have "is_atom_char x" using assms(2) by (simp add: plain_atom_def)
  then have nq: "x \<noteq> DQUOTE" "x \<noteq> CHR ''{''" by auto
  have pk: "peek c = x" using assms(1) x by (simp add: peek_remaining)
  have ra: "fst (read_atom c) = a" "remaining (snd (read_atom c)) = rest"
    using assms run_split [of is_atom_char a rest] by (simp_all add: unread plain_atom_def)
  show ?thesis
    using nq pk ra x assms(3)
    by (intro exI [of _ "snd (read_atom c)"])
      (auto simp: read_astring_def Let_def case_prod_beta)
qed

lemma charset_loop_printed:
  "remaining c = pre @ sp_join cs @ '')'' \<Longrightarrow> pre = [] \<or> pre = [SP] \<Longrightarrow>
     list_all (\<lambda>a. plain_atom a \<and> hd a \<noteq> CHR ''~'') cs \<Longrightarrow> charset_loop c acc = Inr (acc @ cs)"
proof (induction cs arbitrary: c acc pre)
  case Nil
  then have "remaining (skip_spaces c) = '')''" by (auto simp: remaining_skip_spaces)
  then show ?case
    by (subst charset_loop.simps) (auto simp: case_prod_beta fst_try_consume split: bool.split)
next
  case (Cons x xs)
  have x: "plain_atom x" "hd x \<noteq> CHR ''~''" using Cons.prems by auto
  then obtain y ys where y: "x = y # ys" "is_atom_char y" by (cases x) (auto simp: plain_atom_def)
  then have ny: "y \<noteq> SP" "y \<noteq> CHR '')''" by auto
  define pre' tail where "pre' = (if xs = [] then [] else [SP])" and "tail = pre' @ sp_join xs @ '')''"
  have "remaining (skip_spaces c) = x @ tail"
    using Cons.prems(1,2) y(1) ny by (auto simp: remaining_skip_spaces tail_def pre'_def)
  moreover have "tail = [] \<or> \<not> is_atom_char (hd tail)"
    by (auto simp: tail_def pre'_def char_class)
  ultimately obtain c' where c': "read_astring (skip_spaces c) = (Some (Text_view x), c')"
    "remaining c' = tail" using read_astring_atom x by blast
  have "try_consume (CHR '')'') (skip_spaces c) = (False, skip_spaces c)"
    using \<open>remaining (skip_spaces c) = x @ tail\<close> y ny fst_try_consume [of "CHR '')''" "skip_spaces c"]
    by (cases "try_consume (CHR '')'') (skip_spaces c)") (auto dest: try_consume_False)
  then have "charset_loop c acc = charset_loop c' (acc @ [x])"
    using c' by (subst charset_loop.simps) simp
  then show ?case
    using Cons.IH [of c' pre' "acc @ [x]"] c'(2) Cons.prems(3) by (simp add: tail_def pre'_def)
qed

lemma flag_loop_printed:
  "remaining c = pre @ sp_join fs @ '')'' \<Longrightarrow> pre = [] \<or> pre = [SP] \<Longrightarrow>
     list_all (\<lambda>a. a \<noteq> [] \<and> SP \<notin> set a \<and> CHR '')'' \<notin> set a) fs \<Longrightarrow>
     flag_loop c flags = Inr (fold map_flag fs flags)"
proof (induction fs arbitrary: c flags pre)
  case Nil
  then have "remaining (skip_spaces c) = '')''" by (auto simp: remaining_skip_spaces)
  then show ?case
    by (subst flag_loop.simps) (auto simp: case_prod_beta fst_try_consume split: bool.split)
next
  case (Cons x xs)
  have x: "list_all (\<lambda>z. z \<notin> set '' )'') x" "x \<noteq> []" using Cons.prems by (auto simp: list_all_iff)
  then obtain y ys where y: "x = y # ys" "y \<noteq> SP" "y \<noteq> CHR '')''" by (cases x) auto
  define pre' tail where "pre' = (if xs = [] then [] else [SP])" and "tail = pre' @ sp_join xs @ '')''"
  have r: "remaining (skip_spaces c) = x @ tail"
    using Cons.prems(1,2) y by (auto simp: remaining_skip_spaces tail_def pre'_def)
  have ends: "tail = [] \<or> \<not> (\<lambda>z. z \<notin> set '' )'') (hd tail)" by (auto simp: tail_def pre'_def)
  let ?c' = "snd (read_until_any '' )'' (skip_spaces c))"
  have c': "fst (read_until_any '' )'' (skip_spaces c)) = x" "remaining ?c' = tail"
    using run_split [OF x(1) ends] r by (simp_all add: unread)
  have "try_consume (CHR '')'') (skip_spaces c) = (False, skip_spaces c)"
    using r y fst_try_consume [of "CHR '')''" "skip_spaces c"]
    by (cases "try_consume (CHR '')'') (skip_spaces c)") (auto dest: try_consume_False)
  then have "flag_loop c flags = flag_loop ?c' (map_flag x flags)"
    using c' x(2) by (subst flag_loop.simps) (simp add: case_prod_beta)
  then show ?case
    using Cons.IH [of ?c' pre' "map_flag x flags"] c'(2) Cons.prems(3)
    by (simp add: tail_def pre'_def)
qed

lemma map_flag_name: "map_flag (flag_name f) flags = flag_set_flag flags f True"
  by (cases f) (simp_all add: map_flag_def ascii_iequals_def ascii_to_upper_def)

lemma fold_map_flag_names:
  "fold map_flag (map flag_name fs) flags = foldl (\<lambda>s f. flag_set_flag s f True) flags fs"
  by (induction fs arbitrary: flags) (simp_all add: map_flag_name)

lemma set_all_flags [simp]: "set all_flags = UNIV"
  by (auto simp: all_flags_def) (metis message_flag.exhaust)

lemma flag_index_onto: "n < 6 \<Longrightarrow> \<exists>f. flag_index f = n"
proof -
  assume "n < 6"
  then have "n \<in> {0, 1, 2, 3, 4, 5}" by auto
  then show ?thesis using flag_index.simps by blast
qed

lemma bit_fold_flags:
  "n < 8 \<Longrightarrow> bit (foldl (\<lambda>s f. flag_set_flag s f True) s fs) n \<longleftrightarrow>
     bit s n \<or> (\<exists>f \<in> set fs. flag_index f = n)"
  by (induction fs arbitrary: s)
    (auto simp: flag_set_flag_def Let_def bit_or_iff bit_exp_iff)

lemma flags_named:
  fixes f :: flag_set
  assumes "take_bit 6 f = f"
  shows "foldl (\<lambda>s f. flag_set_flag s f True) 0 (filter (flag_test f) all_flags) = f"
proof (rule bit_word_eqI)
  fix n assume n: "n < LENGTH(8)"
  have "bit f n \<longleftrightarrow> n < 6 \<and> bit f n" using assms by (metis bit_take_bit_iff)
  then show "bit (foldl (\<lambda>s f. flag_set_flag s f True) 0 (filter (flag_test f) all_flags)) n
      \<longleftrightarrow> bit f n"
    using n flag_index_onto [of n]
    by (auto simp: bit_fold_flags flag_test_def and_exp_eq_0_iff_not_bit)
qed

lemma flag_names_ok: "list_all (\<lambda>a. a \<noteq> [] \<and> SP \<notin> set a \<and> CHR '')'' \<notin> set a) (map flag_name fs)"
proof -
  have "flag_name f \<noteq> [] \<and> SP \<notin> set (flag_name f) \<and> CHR '')'' \<notin> set (flag_name f)" for f
    by (cases f) auto
  then show ?thesis by (simp add: list_all_iff)
qed

lemma read_code_atom:
  assumes "list_all is_atom_char a" "rest = [] \<or> \<not> is_atom_char (hd rest)"
  obtains c where "read_atom (mk_cursor (a @ rest)) = (a, c)" "remaining c = rest"
proof
  show "read_atom (mk_cursor (a @ rest)) = (a, snd (read_atom (mk_cursor (a @ rest))))"
    "remaining (snd (read_atom (mk_cursor (a @ rest)))) = rest"
    using run_split [OF assms] by (simp_all add: prod_eq_iff unread)
qed

lemma try_consume_rem:
  "remaining c = x # xs \<Longrightarrow> \<exists>c'. try_consume x c = (True, c') \<and> remaining c' = xs"
  using fst_try_consume [of x c] remaining_try_consume [of x c]
  by (cases "try_consume x c") auto

lemma try_consume_miss: "remaining c = [] \<Longrightarrow> try_consume x c = (False, c)"
  using fst_try_consume [of x c] by (cases "try_consume x c") (auto dest: try_consume_False)

lemma read_number_rem:
  "remaining c = to_chars n \<Longrightarrow> n \<le> u64_max \<Longrightarrow> fst (read_number c) = Some n"
  by (simp add: fst_read_number takeWhile_eq_all_conv [THEN iffD2] to_chars_digits)

lemma known_codes_distinct:
  "list_all (\<lambda>a. list_all (\<lambda>b. ascii_iequals a b \<longleftrightarrow> a = b) known_codes) known_codes"
  by code_simp

lemma iequals_known:
  "a \<in> set known_codes \<Longrightarrow> b \<in> set known_codes \<Longrightarrow> ascii_iequals a b \<longleftrightarrow> a = b"
  using known_codes_distinct by (auto simp: list_all_iff)

lemma known_codes_mem:
  "''ALERT'' \<in> set known_codes" "''PARSE'' \<in> set known_codes" "''READ-ONLY'' \<in> set known_codes"
  "''READ-WRITE'' \<in> set known_codes" "''TRYCREATE'' \<in> set known_codes"
  "''UIDNEXT'' \<in> set known_codes" "''UIDVALIDITY'' \<in> set known_codes"
  "''UNSEEN'' \<in> set known_codes" "''CAPABILITY'' \<in> set known_codes"
  "''BADCHARSET'' \<in> set known_codes" "''PERMANENTFLAGS'' \<in> set known_codes"
  by (simp_all add: known_codes_def)

lemmas code_names = iequals_known known_codes_mem

lemma number_code:
  assumes "a \<in> {''UIDNEXT'', ''UIDVALIDITY'', ''UNSEEN''}" "n \<le> u32_max"
  shows "parse_resp_code (a @ SP # to_chars n) =
    (if a = ''UIDNEXT'' then Uidnext_code n
     else if a = ''UIDVALIDITY'' then Uidvalidity_code n else Unseen_code n)"
proof -
  have "list_all is_atom_char a" using assms(1) by (auto simp: char_class)
  then obtain c where c: "read_atom (mk_cursor (a @ SP # to_chars n)) = (a, c)"
    "remaining c = SP # to_chars n" using read_code_atom [of a "SP # to_chars n"] by auto
  then obtain c1 where c1: "try_consume SP c = (True, c1)" "remaining c1 = to_chars n"
    using try_consume_rem by blast
  have "n \<le> u64_max" using assms(2) by (simp add: u32_max_def u64_max_def)
  then obtain c2 where c2: "read_number c1 = (Some n, c2)"
    using read_number_rem [OF c1(2)] by (cases "read_number c1") auto
  show ?thesis
    using assms c(1) c1(1) c2
    by (elim insertE emptyE) (simp_all add: parse_resp_code_def code_names)
qed

lemma known_codes_atoms: "a \<in> set known_codes \<Longrightarrow> list_all is_atom_char a"
  by (auto simp: known_codes_def char_class)

lemma bare_codes:
  "parse_resp_code ''ALERT'' = Alert_code" "parse_resp_code ''PARSE'' = Parse_code"
  "parse_resp_code ''READ-ONLY'' = Read_only_code" "parse_resp_code ''READ-WRITE'' = Read_write_code"
  "parse_resp_code ''TRYCREATE'' = Trycreate_code"
proof -
  have read: "fst (read_atom (mk_cursor a)) = a" if "a \<in> set known_codes" for a
    using run_split(1) [OF known_codes_atoms [OF that], of "[]"] by (simp add: unread)
  show "parse_resp_code ''ALERT'' = Alert_code" "parse_resp_code ''PARSE'' = Parse_code"
    "parse_resp_code ''READ-ONLY'' = Read_only_code" "parse_resp_code ''READ-WRITE'' = Read_write_code"
    "parse_resp_code ''TRYCREATE'' = Trycreate_code"
    by (simp_all add: parse_resp_code_def case_prod_beta Let_def read code_names)
qed

lemma capability_code:
  assumes "list_all plain_atom caps"
  shows "parse_resp_code (print_code (Capability_code caps)) = Capability_code caps"
proof -
  let ?rest = "concat (map (\<lambda>c. SP # c) caps)"
  have "?rest = [] \<or> \<not> is_atom_char (hd ?rest)" by (cases caps) auto
  then obtain c where c: "read_atom (mk_cursor (''CAPABILITY'' @ ?rest)) = (''CAPABILITY'', c)"
    "remaining c = ?rest"
    by (rule read_code_atom [OF known_codes_atoms [OF known_codes_mem(9)], of ?rest])
  then show ?thesis
    using capability_loop_printed [OF c(2) assms, of "[]"]
    by (simp add: parse_resp_code_def code_names)
qed

lemma badcharset_code:
  assumes "list_all (\<lambda>a. plain_atom a \<and> hd a \<noteq> CHR ''~'') cs"
  shows "parse_resp_code (print_code (Badcharset_code cs)) = Badcharset_code cs"
proof -
  let ?rest = "if cs = [] then [] else '' ('' @ sp_join cs @ '')''"
  obtain c where c: "read_atom (mk_cursor (''BADCHARSET'' @ ?rest)) = (''BADCHARSET'', c)"
    "remaining c = ?rest"
    by (rule read_code_atom [OF known_codes_atoms [OF known_codes_mem(10)], of ?rest])
      (simp_all split: if_splits)
  show ?thesis
  proof (cases "cs = []")
    case True
    then show ?thesis
      using c try_consume_miss [of c SP] by (simp add: parse_resp_code_def code_names)
  next
    case False
    then have "remaining c = SP # ''('' @ sp_join cs @ '')''" using c by simp
    then obtain c1 where c1: "try_consume SP c = (True, c1)"
      "remaining c1 = CHR ''('' # sp_join cs @ '')''" using try_consume_rem by fastforce
    then obtain c2 where c2: "try_consume (CHR ''('') c1 = (True, c2)"
      "remaining c2 = sp_join cs @ '')''" using try_consume_rem by fastforce
    show ?thesis
      using False c(1) c1(1) c2(1) charset_loop_printed [of c2 "[]" cs "[]"] c2(2) assms
      by (simp add: parse_resp_code_def code_names)
  qed
qed

lemma permanentflags_code:
  assumes "take_bit 6 f = f"
  shows "parse_resp_code (print_code (Permanentflags_code f)) = Permanentflags_code f"
proof -
  let ?names = "map flag_name (filter (flag_test f) all_flags)"
  let ?rest = "'' ('' @ sp_join ?names @ '')''"
  obtain c where c: "read_atom (mk_cursor (''PERMANENTFLAGS'' @ ?rest)) = (''PERMANENTFLAGS'', c)"
    "remaining c = ?rest"
    by (rule read_code_atom [OF known_codes_atoms [OF known_codes_mem(11)], of ?rest]) simp_all
  then have "remaining c = SP # ''('' @ sp_join ?names @ '')''" by simp
  then obtain c1 where c1: "try_consume SP c = (True, c1)"
    "remaining c1 = CHR ''('' # sp_join ?names @ '')''" using try_consume_rem by fastforce
  then obtain c2 where c2: "try_consume (CHR ''('') c1 = (True, c2)"
    "remaining c2 = sp_join ?names @ '')''" using try_consume_rem by fastforce
  have "flag_loop c2 0 = Inr f"
    using flag_loop_printed [of c2 "[]" ?names 0] c2(2) flag_names_ok flags_named [OF assms]
      fold_map_flag_names [of "filter (flag_test f) all_flags" 0] by auto
  then show ?thesis
    using c(1) c1(1) c2(1) by (simp add: parse_resp_code_def code_names)
qed

lemma unknown_code:
  assumes "list_all is_atom_char a" "list_all (\<lambda>k. \<not> ascii_iequals a k) known_codes"
  shows "parse_resp_code (print_code (Unknown_code a args)) = Unknown_code a args"
proof -
  let ?rest = "if args = [] then [] else SP # args"
  obtain c where c: "read_atom (mk_cursor (a @ ?rest)) = (a, c)" "remaining c = ?rest"
    by (rule read_code_atom [OF assms(1), of ?rest]) (simp_all split: if_splits)
  have "parse_resp_code (a @ ?rest) = make_unknown a ?rest"
    using c assms(2) by (simp add: parse_resp_code_def known_codes_def)
  then show ?thesis by (simp add: make_unknown_def)
qed

text \<open>
  C30. Response codes round-trip: every well-formed code, written in its wire form, is read back
  as itself: the known codes with their numbers, capability and charset lists and permanent flags,
  and any other code as an unknown code with its atom and its arguments kept verbatim.
\<close>

theorem resp_code_roundtrip:
  assumes "wf_code code"
  shows "parse_resp_code (print_code code) = code"
  using assms
proof (cases code)
  case (Capability_code caps)
  then show ?thesis using assms capability_code by simp
next
  case (Badcharset_code cs)
  then show ?thesis using assms badcharset_code by simp
next
  case (Permanentflags_code f)
  then show ?thesis using assms permanentflags_code [of f] by (simp del: print_code.simps)
next
  case (Unknown_code a args)
  then show ?thesis using assms unknown_code by simp
next
  case (Uidnext_code n)
  then show ?thesis using assms number_code [of "''UIDNEXT''" n] by simp
next
  case (Uidvalidity_code n)
  then show ?thesis using assms number_code [of "''UIDVALIDITY''" n] by simp
next
  case (Unseen_code n)
  then show ?thesis using assms number_code [of "''UNSEEN''" n] by simp
qed (simp_all add: bare_codes)

theorem resp_code_roundtrip_witness:
  "parse_resp_code (print_code (Capability_code [''IMAP4rev1'', ''IDLE''])) =
     Capability_code [''IMAP4rev1'', ''IDLE'']"
  by (rule resp_code_roundtrip) (simp add: plain_atom_def char_class)

section \<open>Numbered data\<close>

definition numbered_kind :: "octets \<Rightarrow> untagged_kind" where
  "numbered_kind word =
     (if ascii_iequals word ''EXISTS'' then K_exists
      else if ascii_iequals word ''RECENT'' then K_recent
      else if ascii_iequals word ''EXPUNGE'' then K_expunge
      else if ascii_iequals word ''FETCH'' then K_fetch else K_unknown)"

lemma untagged_prefix:
  "try_consume SP (snd (try_consume (CHR ''*'') (mk_cursor (''* '' @ body)))) =
     (True, (mk_cursor (''* '' @ body))\<lparr>cpos := 2\<rparr>)"
  by (simp add: try_consume_def at_end_def mk_cursor_def)

lemma digit_not_SP [simp]: "\<not> is_digit SP"
  by (simp add: char_class)

text \<open>
  Message data keep their number and their payload: for every number that fits 64 bits and
  every keyword, \<open>* n keyword rest\<close> parses to an untagged response with this number and the
  kind of the keyword in any case; the payload is the text after \<open>FETCH\<close> and its space, the
  whole text after the star for an unknown keyword, and empty for the other kinds.
\<close>

theorem numbered_data:
  assumes "n \<le> u64_max" "list_all is_atom_char word" "rest = [] \<or> \<not> is_atom_char (hd rest)"
  shows "parse_response (''* '' @ to_chars n @ SP # word @ rest) =
     Some (Untagged (default_untagged\<lparr>ur_number := n, ur_kind := numbered_kind word,
       ur_payload := (case numbered_kind word of
           K_fetch \<Rightarrow> (if rest \<noteq> [] \<and> hd rest = SP then tl rest else [])
         | K_unknown \<Rightarrow> to_chars n @ SP # word @ rest
         | _ \<Rightarrow> [])\<rparr>))"
proof -
  let ?body = "to_chars n @ SP # word @ rest"
  let ?c = "(mk_cursor (''* '' @ ?body))\<lparr>cpos := 2\<rparr>"
  have rem: "remaining ?c = ?body" by (simp add: remaining_def mk_cursor_def)
  have dig: "takeWhile is_digit ?body = to_chars n" "dropWhile is_digit ?body = SP # word @ rest"
    by (rule run_split [OF to_chars_digits]; simp)+
  obtain d ds where d: "to_chars n = d # ds" "is_digit d"
    using to_chars_digits [of n] by (cases "to_chars n") auto
  obtain c1 where c1: "read_number ?c = (Some n, c1)" "remaining c1 = SP # word @ rest"
    using fst_read_number [of ?c] remaining_read_number [of ?c] rem dig assms(1)
    by (cases "read_number ?c") auto
  obtain c2 where c2: "try_consume SP c1 = (True, c2)" "remaining c2 = word @ rest"
    using try_consume_rem [OF c1(2)] by blast
  obtain c3 where c3: "read_atom c2 = (word, c3)" "remaining c3 = rest"
    using run_split [OF assms(2,3)] fst_read_while [of is_atom_char c2]
      remaining_read_while [of is_atom_char c2] c2(2)
    by (cases "read_atom c2") (auto simp: read_atom_def)
  have pk: "is_digit (peek ?c)" using rem d by (simp add: peek_remaining)
  obtain b c4 where c4: "try_consume SP c3 = (b, c4)" by (cases "try_consume SP c3")
  have b: "b \<longleftrightarrow> rest \<noteq> [] \<and> hd rest = SP" "b \<Longrightarrow> remaining c4 = tl rest"
    using fst_try_consume [of SP c3] remaining_try_consume [of SP c3] c3(2) c4 by auto
  have pos: "drop (position ?c) (''* '' @ ?body) = ?body"
    by (simp add: position_def)
  have "parse_response (''* '' @ ?body) = parse_untagged (''* '' @ ?body)"
    by (simp add: parse_response_def)
  also have "\<dots> = Some (Untagged (default_untagged\<lparr>ur_number := n, ur_kind := numbered_kind word,
       ur_payload := (case numbered_kind word of
           K_fetch \<Rightarrow> (if b then tl rest else []) | K_unknown \<Rightarrow> ?body | _ \<Rightarrow> [])\<rparr>))"
    unfolding parse_untagged_def Let_def untagged_prefix
    using b(2) by (cases b)
      (simp_all only: prod.case bool.case option.case pk c1(1) c2(1) c3(1) c4 if_True pos,
       auto simp: numbered_kind_def default_untagged_def)
  finally show ?thesis using b(1) by simp
qed

text \<open>The keyword is matched in any case, and the largest number is kept.\<close>

theorem numbered_data_witness:
  "parse_response (''* '' @ to_chars u64_max @ SP # ''fetch'' @ '' (UID 7)'') =
     Some (Untagged (default_untagged\<lparr>ur_number := u64_max, ur_kind := K_fetch,
       ur_payload := ''(UID 7)''\<rparr>))"
proof -
  have "numbered_kind ''fetch'' = K_fetch" by code_simp
  then show ?thesis using numbered_data [of u64_max "''fetch''" "'' (UID 7)''"]
    by (simp add: char_class)
qed

end
