(* ===== verification/Lexer.thy ===== *)
theory Lexer
  imports Astring
begin

text \<open>
  The two-mode response framer of \<open>imap/detail/response_lexer.h\<close>: \<open>scan\<close> is the loop of
  \<open>next_complete_response\<close>, \<open>literal_trailer\<close> the recogniser of \<open>{n}\<close> at the end of a
  line, \<open>drain\<close> the extraction loop the read pump runs over the buffer.

  The read buffer is \<open>bnio::dynamic_byte_vector_buffer\<close>, which the repository only calls: its
  operations are a parameter (\<open>buffer_ops\<close>), and \<open>buffer_ok\<close> states what the framer relies
  on, namely that \<open>consume\<close> drops octets from the front and \<open>commit\<close> appends octets.

  The lemmas show that framing is exactly the grammar \<open>framed\<close> (soundness and completeness)
  and that it does not depend on how the octets were split into reads.
\<close>

section \<open>State and operations\<close>

datatype scan_mode = Line_scan | Literal_scan

record lexer =
  mode :: scan_mode
  scan_pos :: nat
  line_start :: nat
  literal_remaining :: nat
  response_end :: nat

definition init_lexer :: lexer where
  "init_lexer = \<lparr>mode = Line_scan, scan_pos = 0, line_start = 0, literal_remaining = 0,
                 response_end = 0\<rparr>"

text \<open>The backward loop of \<open>literal_trailer\<close> over the digits before \<open>end\<close>.\<close>

fun back_digits :: "octets \<Rightarrow> nat \<Rightarrow> nat" where
  "back_digits line 0 = 0"
| "back_digits line (Suc e) = (if is_digit (line ! e) then back_digits line e else Suc e)"

text \<open>The accumulation loop of \<open>literal_trailer\<close>, with its 64-bit overflow guard.\<close>

fun acc_digits :: "nat \<Rightarrow> octets \<Rightarrow> nat option" where
  "acc_digits value [] = Some value"
| "acc_digits value (c # cs) =
     (let d = digit_val c
      in if value > (u64_max - d) div 10 then None
         else acc_digits (wrap64 (value * 10 + d)) cs)"

definition literal_trailer :: "octets \<Rightarrow> nat option" where
  "literal_trailer line =
     (if length line < 3 \<or> line ! (length line - 1) \<noteq> CHR ''}'' then None
      else
        (let end0 = length line - 1;
             digit_end = (if end0 > 0 \<and> line ! (end0 - 1) = CHR ''+'' then end0 - 1 else end0);
             end1 = back_digits line digit_end
         in if end1 = digit_end \<or> end1 = 0 \<or> line ! (end1 - 1) \<noteq> CHR ''{'' then None
            else
              (let open_pos = end1 - 1
               in if open_pos > 0 \<and> line ! (open_pos - 1) \<noteq> SP \<and> line ! (open_pos - 1) \<noteq> CHR ''~''
                  then None
                  else acc_digits 0 (take (digit_end - end1) (drop end1 line)))))"

text \<open>The line scan: the offset of the next CR LF at or after \<open>i\<close>, or the size of the buffer.\<close>

function find_eol :: "octets \<Rightarrow> nat \<Rightarrow> nat" where
  "find_eol buf i =
     (if i + 1 < length buf
      then if buf ! i = CR \<and> buf ! (i + 1) = LF then i else find_eol buf (Suc i)
      else length buf)"
  by pat_completeness auto
termination by (relation "measure (\<lambda>(buf, i). length buf - i)") auto

declare find_eol.simps [simp del]

lemma find_eol_bounds:
  "find_eol buf i \<noteq> length buf \<Longrightarrow> i \<le> find_eol buf i \<and> find_eol buf i + 1 < length buf"
proof (induction buf i rule: find_eol.induct)
  case (1 buf i)
  then show ?case
    by (auto simp: find_eol.simps [of buf i] split: if_splits)
qed

function scan :: "lexer \<Rightarrow> octets \<Rightarrow> lexer \<times> octets option" where
  "scan s buf =
     (if mode s = Literal_scan then
        (if length buf - scan_pos s < literal_remaining s then (s, None)
         else
           (let pos = scan_pos s + literal_remaining s
            in scan (s\<lparr>scan_pos := pos, literal_remaining := 0, mode := Line_scan,
                       line_start := pos\<rparr>) buf))
      else
        (let eol = find_eol buf (scan_pos s)
         in if eol = length buf
            then (s\<lparr>scan_pos := (if length buf > line_start s then length buf - 1
                                else line_start s)\<rparr>, None)
            else
              (case literal_trailer (take (eol - line_start s) (drop (line_start s) buf)) of
                 Some n \<Rightarrow> scan (s\<lparr>literal_remaining := n, scan_pos := eol + 2,
                                  mode := Literal_scan\<rparr>) buf
               | None \<Rightarrow> (s\<lparr>response_end := eol + 2\<rparr>, Some (take eol buf)))))"
  by pat_completeness auto
termination
proof (relation "measure (\<lambda>(s, buf). 2 * (length buf - scan_pos s)
                            + (if mode s = Literal_scan then 1 else 0))", goal_cases)
  case (3 s buf eol n)
  then show ?case using find_eol_bounds [of buf "scan_pos s"] by (simp, linarith)
qed auto

declare scan.simps [simp del]

text \<open>
  \<open>next_complete_response\<close> and \<open>consume_response\<close> with their assertions: \<open>None\<close> is a failed
  assertion (the extraction/consumption contract is violated).
\<close>

definition next_complete_response ::
  "lexer \<Rightarrow> octets \<Rightarrow> (lexer \<times> octets option) option" where
  "next_complete_response s buf = (if response_end s = 0 then Some (scan s buf) else None)"

record 'b buffer_ops =
  data_of :: "'b \<Rightarrow> octets"
  consume_of :: "'b \<Rightarrow> nat \<Rightarrow> 'b"
  commit_of :: "'b \<Rightarrow> octets \<Rightarrow> 'b"

definition reset :: "lexer \<Rightarrow> lexer" where
  "reset s = s\<lparr>mode := Line_scan, scan_pos := 0, line_start := 0, literal_remaining := 0,
               response_end := 0\<rparr>"

definition consume_response :: "'b buffer_ops \<Rightarrow> lexer \<Rightarrow> 'b \<Rightarrow> (lexer \<times> 'b) option" where
  "consume_response ops s b =
     (if response_end s \<noteq> 0 then Some (reset s, consume_of ops b (response_end s)) else None)"

text \<open>
  The extraction loop of \<open>read_pump::on_read\<close> with the dispatch of each text left out: every
  complete response in order, until the framer asks for more octets. \<open>None\<close> stands for a
  failed assertion or for a loop that does not end.
\<close>

partial_function (option) drain ::
  "'b buffer_ops \<Rightarrow> lexer \<Rightarrow> 'b \<Rightarrow> (lexer \<times> 'b \<times> octets list) option" where
  "drain ops s b =
     (case next_complete_response s (data_of ops b) of
        None \<Rightarrow> None
      | Some (s1, None) \<Rightarrow> Some (s1, b, [])
      | Some (s1, Some text) \<Rightarrow>
          (case consume_response ops s1 b of
             None \<Rightarrow> None
           | Some (s2, b2) \<Rightarrow>
               Option.bind (drain ops s2 b2) (\<lambda>(s3, b3, texts). Some (s3, b3, text # texts))))"

text \<open>One read completion: commit the octets, then drain.\<close>

definition feed ::
  "'b buffer_ops \<Rightarrow> lexer \<times> 'b \<Rightarrow> octets \<Rightarrow> (lexer \<times> 'b \<times> octets list) option" where
  "feed ops sb chunk = drain ops (fst sb) (commit_of ops (snd sb) chunk)"

fun feed_all ::
  "'b buffer_ops \<Rightarrow> lexer \<times> 'b \<Rightarrow> octets list \<Rightarrow> (lexer \<times> 'b \<times> octets list) option" where
  "feed_all ops (s, b) [] = Some (s, b, [])"
| "feed_all ops (s, b) (c # cs) =
     (case feed ops (s, b) c of
        None \<Rightarrow> None
      | Some (s1, b1, texts) \<Rightarrow>
          (case feed_all ops (s1, b1) cs of
             None \<Rightarrow> None
           | Some (s2, b2, later) \<Rightarrow> Some (s2, b2, texts @ later)))"

definition buffer_ok :: "'b buffer_ops \<Rightarrow> bool" where
  "buffer_ok ops \<longleftrightarrow>
     (\<forall>b n. n \<le> length (data_of ops b) \<longrightarrow> data_of ops (consume_of ops b n) = drop n (data_of ops b)) \<and>
     (\<forall>b x. data_of ops (commit_of ops b x) = data_of ops b @ x)"

section \<open>The literal trailer\<close>

lemma back_digits_le: "back_digits line e \<le> e"
  by (induction line e rule: back_digits.induct) auto

lemma back_digits_digits:
  "back_digits line e \<le> i \<Longrightarrow> i < e \<Longrightarrow> is_digit (line ! i)"
proof (induction line e rule: back_digits.induct)
  case (2 line e)
  then show ?case by (cases "i = e") (auto split: if_splits)
qed simp

lemma back_digits_run:
  assumes "list_all is_digit ds" and "pre = [] \<or> \<not> is_digit (last pre)"
  shows "back_digits (pre @ ds @ post) (length pre + length ds) = length pre"
  using assms(1)
proof (induction ds arbitrary: post rule: rev_induct)
  case Nil
  show ?case
  proof (cases pre rule: rev_cases)
    case (snoc ys y)
    with assms(2) show ?thesis by (simp add: nth_append)
  qed simp
next
  case (snoc d ds)
  then show ?case
    using snoc.IH [of "d # post"] by (simp add: nth_append)
qed

lemma acc_digits_value:
  "list_all is_digit ds \<Longrightarrow> v \<le> u64_max \<Longrightarrow>
     acc_digits v ds = (if dec_value_from v ds \<le> u64_max then Some (dec_value_from v ds) else None)"
proof (induction ds arbitrary: v)
  case (Cons c cs)
  have d: "digit_val c \<le> 9" using Cons.prems(1) by simp
  have big: "(9 :: nat) \<le> u64_max" by (simp add: u64_max_def)
  have guard: "v > (u64_max - digit_val c) div 10 \<longleftrightarrow> v * 10 + digit_val c > u64_max"
    using d big by (auto simp: div_less_iff_less_mult)
  show ?case
  proof (cases "v * 10 + digit_val c > u64_max")
    case True
    then have "dec_value_from (v * 10 + digit_val c) cs > u64_max"
      using dec_value_from_ge [of "v * 10 + digit_val c" cs] by linarith
    with True guard show ?thesis by simp
  next
    case False
    then show ?thesis using Cons guard by simp
  qed
qed simp

text \<open>
  \<open>trailer_shape\<close> spells out what a literal marker at the end of a line looks like: digits in
  braces, an optional \<open>+\<close>, and a space, a tilde or nothing in front.
\<close>

definition trailer_shape :: "octets \<Rightarrow> octets \<Rightarrow> octets \<Rightarrow> octets \<Rightarrow> bool" where
  "trailer_shape line pre ds pl \<longleftrightarrow>
     line = pre @ ''{'' @ ds @ pl @ ''}'' \<and> ds \<noteq> [] \<and> list_all is_digit ds \<and>
     (pl = [] \<or> pl = ''+'') \<and> (pre = [] \<or> last pre = SP \<or> last pre = CHR ''~'')"

lemma literal_trailer_shape:
  assumes "trailer_shape line pre ds pl"
  shows "literal_trailer line = (if dec_value ds \<le> u64_max then Some (dec_value ds) else None)"
proof -
  let ?n = "length pre" and ?m = "length ds"
  from assms have line: "line = (pre @ ''{'') @ ds @ (pl @ ''}'')" and ds: "ds \<noteq> []"
    and dig: "list_all is_digit ds" and pl: "pl = [] \<or> pl = ''+''"
    and pre: "pre = [] \<or> last pre = SP \<or> last pre = CHR ''~''"
    by (auto simp: trailer_shape_def)
  have len: "length line = ?n + 1 + ?m + length pl + 1" using line by simp
  have lastds: "is_digit (line ! (?n + ?m))"
  proof -
    have "line ! (?n + ?m) = ds ! (?m - 1)"
      using line ds by (simp add: nth_append)
    with ds dig show ?thesis by (simp add: list_all_length)
  qed
  have last: "line ! (length line - 1) = CHR ''}''" using line len by (auto simp: nth_append)
  have de: "(if length line - 1 > 0 \<and> line ! (length line - 1 - 1) = CHR ''+''
              then length line - 1 - 1 else length line - 1) = ?n + 1 + ?m"
    using pl line len lastds by (auto simp: nth_append)
  have bd: "back_digits line (?n + 1 + ?m) = ?n + 1"
    using back_digits_run [OF dig, of "pre @ ''{''" "pl @ ''}''"] line by simp
  have brace: "line ! ?n = CHR ''{''" using line by (simp add: nth_append)
  have before: "?n > 0 \<Longrightarrow> line ! (?n - 1) = SP \<or> line ! (?n - 1) = CHR ''~''"
    using pre line by (cases pre rule: rev_cases) (auto simp: nth_append)
  have mid: "take ?m (drop (?n + 1) line) = ds" using line by simp
  have "literal_trailer line = acc_digits 0 ds"
    unfolding literal_trailer_def Let_def de bd
    using len ds last brace before mid by auto
  then show ?thesis using acc_digits_value [OF dig, of 0] by simp
qed

lemma literal_trailer_SomeD:
  assumes "literal_trailer line = Some n"
  obtains pre ds pl where "trailer_shape line pre ds pl" "dec_value ds = n" "n \<le> u64_max"
proof -
  define e0 where "e0 = length line - 1"
  define de where "de = (if e0 > 0 \<and> line ! (e0 - 1) = CHR ''+'' then e0 - 1 else e0)"
  define e1 where "e1 = back_digits line de"
  from assms have len: "3 \<le> length line" and last: "line ! e0 = CHR ''}''"
    and ne: "e1 \<noteq> de" "e1 \<noteq> 0" "line ! (e1 - 1) = CHR ''{''"
    and sp: "e1 - 1 > 0 \<Longrightarrow> line ! (e1 - 2) = SP \<or> line ! (e1 - 2) = CHR ''~''"
    and acc: "acc_digits 0 (take (de - e1) (drop e1 line)) = Some n"
    by (auto simp: literal_trailer_def Let_def e0_def de_def e1_def numeral_2_eq_2 split: if_splits)
  define pre where "pre = take (e1 - 1) line"
  define ds where "ds = take (de - e1) (drop e1 line)"
  define pl where "pl = (if de = e0 then [] else ''+'')"
  have lt: "e1 < de" using back_digits_le [of line de] ne(1) e1_def by simp
  have de_e0: "de \<le> e0" and e0: "e0 < length line" using len by (auto simp: de_def e0_def)
  have dig: "list_all is_digit ds"
    using back_digits_digits [of line de] e1_def de_e0 e0
    by (auto simp: ds_def list_all_length)
  have tail: "drop de line = pl @ ''}''"
  proof (cases "de = e0")
    case True
    then show ?thesis
      using last e0_def len by (simp add: pl_def Cons_nth_drop_Suc [symmetric])
  next
    case False
    then have "de = e0 - 1" "e0 > 0" "line ! (e0 - 1) = CHR ''+''"
      by (auto simp: de_def split: if_splits)
    moreover from this have "Suc (e0 - 1) = e0" by simp
    ultimately have "drop de line = [line ! (e0 - 1), line ! e0]"
      using e0_def len by (metis Cons_nth_drop_Suc diff_Suc_1 drop_eq_Nil diff_less e0 lessI
        less_trans order_refl Suc_diff_1 zero_less_one)
    then show ?thesis
      using False last \<open>line ! (e0 - 1) = CHR ''+''\<close> by (simp add: pl_def)
  qed
  have "line = pre @ drop (e1 - 1) line" by (simp add: pre_def)
  also have "drop (e1 - 1) line = ''{'' @ drop e1 line"
    using ne lt de_e0 e0 by (simp add: Cons_nth_drop_Suc [symmetric])
  also have "drop e1 line = ds @ drop de line"
    using lt unfolding ds_def by (metis append_take_drop_id drop_drop le_add_diff_inverse2 less_imp_le)
  finally have line: "line = pre @ ''{'' @ ds @ pl @ ''}''" using tail by simp
  have "ds \<noteq> []" using lt de_e0 e0 by (simp add: ds_def)
  moreover have "pre = [] \<or> last pre = SP \<or> last pre = CHR ''~''"
  proof (cases "e1 - 1 > 0")
    case True
    then have "pre \<noteq> []" and "length pre = e1 - 1" using lt de_e0 e0 by (auto simp: pre_def)
    then have "last pre = pre ! (e1 - 2)" by (simp add: last_conv_nth numeral_2_eq_2)
    then have "last pre = line ! (e1 - 2)" using True by (simp add: pre_def)
    then show ?thesis using sp True by simp
  qed (simp add: pre_def)
  ultimately have shape: "trailer_shape line pre ds pl"
    using line dig by (auto simp: trailer_shape_def pl_def)
  from acc have "n = dec_value ds" "n \<le> u64_max"
    using acc_digits_value [OF dig, of 0] unfolding ds_def by (auto split: if_splits)
  then show thesis using that shape by simp
qed

section \<open>Framing against the grammar\<close>

text \<open>
  \<open>split_crlf\<close> cuts at the first CR LF; \<open>framed\<close> is the grammar of a response text
  (without its final CR LF): a plain line, or a line that ends in a literal marker, CR LF, as
  many octets as the marker announces, and the rest of the text.
\<close>

fun split_crlf :: "octets \<Rightarrow> (octets \<times> octets) option" where
  "split_crlf (a # b # xs) =
     (if a = CR \<and> b = LF then Some ([], xs)
      else map_option (\<lambda>(l, r). (a # l, r)) (split_crlf (b # xs)))"
| "split_crlf [] = None"
| "split_crlf [v] = None"

definition no_crlf :: "octets \<Rightarrow> bool" where
  "no_crlf l \<longleftrightarrow> split_crlf l = None"

inductive framed :: "octets \<Rightarrow> bool" where
  plain: "no_crlf l \<Longrightarrow> literal_trailer l = None \<Longrightarrow> framed l"
| literal: "no_crlf l \<Longrightarrow> literal_trailer l = Some n \<Longrightarrow> length octs = n \<Longrightarrow> framed t \<Longrightarrow>
     framed (l @ CRLF @ octs @ t)"

lemma split_crlf_no_crlf: "no_crlf l \<Longrightarrow> split_crlf (l @ CRLF @ r) = Some (l, r)"
proof (induction l rule: split_crlf.induct)
  case (1 a b xs)
  then show ?case by (auto simp: no_crlf_def split: if_splits)
next
  case (3 v)
  then show ?case by (cases "v = CR") auto
qed (auto simp: no_crlf_def)

lemma split_crlf_SomeD: "split_crlf b = Some (l, r) \<Longrightarrow> b = l @ CRLF @ r \<and> no_crlf l"
proof (induction b arbitrary: l rule: split_crlf.induct)
  case (1 x y xs)
  show ?case
  proof (cases "x = CR \<and> y = LF")
    case True
    with 1 show ?thesis by (auto simp: no_crlf_def)
  next
    case False
    with 1 obtain l' where l': "split_crlf (y # xs) = Some (l', r)" "l = x # l'" by auto
    with 1 False have "y # xs = l' @ CRLF @ r" "no_crlf l'" by auto
    then show ?thesis
      using l' False by (cases l') (auto simp: no_crlf_def)
  qed
qed auto

lemma find_eol_split:
  "find_eol (pre @ b) (length pre) =
     (case split_crlf b of None \<Rightarrow> length (pre @ b) | Some (l, r) \<Rightarrow> length pre + length l)"
proof (induction b arbitrary: pre rule: split_crlf.induct)
  case (1 x y xs)
  have IH: "find_eol (pre @ x # y # xs) (Suc (length pre)) =
      (case split_crlf (y # xs) of None \<Rightarrow> Suc (length pre) + length (y # xs)
       | Some (l, r) \<Rightarrow> Suc (length pre) + length l)" if "\<not> (x = CR \<and> y = LF)"
    using 1 [OF that, of "pre @ [x]"] by (simp split: option.splits)
  show ?case
    by (subst find_eol.simps) (use IH in \<open>auto simp: nth_append split: option.splits\<close>)
next
  case 2
  show ?case by (subst find_eol.simps) simp
next
  case (3 v)
  show ?case by (subst find_eol.simps) simp
qed

text \<open>The state of the framer at the start of a line at offset \<open>p\<close>.\<close>

definition at_line :: "nat \<Rightarrow> lexer" where
  "at_line p = \<lparr>mode = Line_scan, scan_pos = p, line_start = p, literal_remaining = 0,
                response_end = 0\<rparr>"

lemma init_at_line: "init_lexer = at_line 0"
  by (simp add: init_lexer_def at_line_def)

text \<open>One round of the loop from the start of a line, in terms of the unread octets.\<close>

lemma scan_at_line:
  "scan (at_line (length pre)) (pre @ b) =
     (case split_crlf b of
        None \<Rightarrow> ((at_line (length pre))\<lparr>scan_pos := (if b \<noteq> [] then length (pre @ b) - 1
                                                  else length pre)\<rparr>, None)
      | Some (l, r) \<Rightarrow>
          (case literal_trailer l of
             None \<Rightarrow> ((at_line (length pre))\<lparr>response_end := length (pre @ l) + 2\<rparr>,
                      Some (pre @ l))
           | Some n \<Rightarrow>
               (if length r < n
                then ((at_line (length pre))\<lparr>literal_remaining := n,
                        scan_pos := length (pre @ l) + 2, mode := Literal_scan\<rparr>, None)
                else scan (at_line (length (pre @ l @ CRLF @ take n r)))
                       ((pre @ l @ CRLF @ take n r) @ drop n r))))"
proof (cases "split_crlf b")
  case None
  then show ?thesis
    by (subst scan.simps) (auto simp: at_line_def find_eol_split)
next
  case (Some lr)
  obtain l r where lr: "lr = (l, r)" by (cases lr)
  have b: "b = l @ CRLF @ r" using split_crlf_SomeD Some lr by simp
  have eol: "find_eol (pre @ b) (length pre) = length (pre @ l)"
    using find_eol_split [of pre b] Some lr by simp
  have line: "take (length (pre @ l) - length pre) (drop (length pre) (pre @ b)) = l"
    using b by simp
  show ?thesis
  proof (cases "literal_trailer l")
    case None
    then show ?thesis
      using Some lr eol line b by (subst scan.simps) (simp add: at_line_def)
  next
    case (Some n)
    let ?s = "(at_line (length pre))\<lparr>literal_remaining := n, scan_pos := length (pre @ l) + 2,
                mode := Literal_scan\<rparr>"
    have step: "scan (at_line (length pre)) (pre @ b) = scan ?s (pre @ b)"
      using Some lr eol line b by (subst scan.simps) (simp add: at_line_def)
    have "scan ?s (pre @ b) =
        (if length r < n then (?s, None)
         else scan (at_line (length (pre @ l) + 2 + n)) (pre @ b))"
      using b by (subst scan.simps) (simp add: at_line_def)
    then show ?thesis
      using step Some \<open>split_crlf b = Some lr\<close> lr b by (simp add: min_absorb2 ac_simps)
  qed
qed

lemma framed_scan:
  "framed t \<Longrightarrow> \<exists>s'. scan (at_line (length pre)) (pre @ t @ CRLF @ rest) = (s', Some (pre @ t)) \<and>
     response_end s' = length (pre @ t) + 2"
proof (induction t arbitrary: pre rule: framed.induct)
  case (plain l)
  then show ?case
    using scan_at_line [of pre "l @ CRLF @ rest"] split_crlf_no_crlf [of l rest] by simp
next
  case (literal l n octs t)
  have "split_crlf ((l @ CRLF @ octs @ t) @ CRLF @ rest) = Some (l, octs @ t @ CRLF @ rest)"
    using split_crlf_no_crlf [OF literal(1), of "octs @ t @ CRLF @ rest"] by simp
  then have "scan (at_line (length pre)) (pre @ (l @ CRLF @ octs @ t) @ CRLF @ rest) =
      scan (at_line (length (pre @ l @ CRLF @ octs))) ((pre @ l @ CRLF @ octs) @ t @ CRLF @ rest)"
    using scan_at_line [of pre "(l @ CRLF @ octs @ t) @ CRLF @ rest"] literal by simp
  then show ?case using literal.IH [of "pre @ l @ CRLF @ octs"] by auto
qed

lemma scan_framed:
  "scan (at_line (length pre)) (pre @ b) = (s', Some u) \<Longrightarrow>
     \<exists>t rest. b = t @ CRLF @ rest \<and> framed t \<and> u = pre @ t \<and> response_end s' = length u + 2"
proof (induction b arbitrary: pre rule: length_induct)
  case (1 b)
  from 1(2) obtain l r where lr: "split_crlf b = Some (l, r)"
    using scan_at_line [of pre b] by (auto split: option.splits)
  then have b: "b = l @ CRLF @ r" and l: "no_crlf l" using split_crlf_SomeD by auto
  show ?case
  proof (cases "literal_trailer l")
    case None
    then have "u = pre @ l" "response_end s' = length u + 2"
      using 1(2) scan_at_line [of pre b] lr by auto
    then show ?thesis using b framed.plain [OF l None] by blast
  next
    case (Some n)
    let ?pre = "pre @ l @ CRLF @ take n r"
    from 1(2) Some lr have len: "n \<le> length r"
      and go: "scan (at_line (length ?pre)) (?pre @ drop n r) = (s', Some u)"
      using scan_at_line [of pre b] by (auto split: if_splits)
    have "length (drop n r) < length b" using b by simp
    with 1(1) go obtain t rest where t: "drop n r = t @ CRLF @ rest" "framed t" "u = ?pre @ t"
      "response_end s' = length u + 2" by blast
    have "framed (l @ CRLF @ take n r @ t)"
      using l Some len t(2) by (intro framed.literal) auto
    moreover have "b = (l @ CRLF @ take n r @ t) @ CRLF @ rest"
      using b t(1) by (metis append_assoc append_take_drop_id)
    ultimately show ?thesis using t by (metis append_assoc)
  qed
qed

section \<open>Independence of the segmentation into reads\<close>

lemma scan_SomeD:
  "scan s buf = (s', Some t) \<Longrightarrow>
     2 \<le> response_end s' \<and> response_end s' \<le> length buf \<and> t = take (response_end s' - 2) buf"
proof (induction s buf rule: scan.induct)
  case (1 s buf)
  then show ?case
    using find_eol_bounds [of buf "scan_pos s"]
    by (subst (asm) (3) scan.simps) (auto simp: Let_def split: if_splits option.splits)
qed

lemma find_eol_append:
  "find_eol buf i \<noteq> length buf \<Longrightarrow> find_eol (buf @ x) i = find_eol buf i"
proof (induction buf i rule: find_eol.induct)
  case (1 buf i)
  then show ?case
    by (auto simp: find_eol.simps [of buf i] find_eol.simps [of "buf @ x" i] nth_append
        split: if_splits)
qed

lemma find_eol_skip:
  "find_eol buf i = length buf \<Longrightarrow> i \<le> j \<Longrightarrow> j + 1 \<le> length buf \<Longrightarrow>
     find_eol (buf @ x) i = find_eol (buf @ x) j"
proof (induction buf i rule: find_eol.induct)
  case (1 buf i)
  show ?case
  proof (cases "i = j")
    case False
    with 1 show ?thesis
      by (auto simp: find_eol.simps [of buf i] find_eol.simps [of "buf @ x" i] nth_append
          split: if_splits)
  qed simp
qed

lemma line_append:
  "eol \<le> length buf \<Longrightarrow> take (eol - p) (drop p (buf @ x)) = take (eol - p) (drop p buf)"
  by simp

text \<open>A complete response is extracted unchanged when more octets follow.\<close>

lemma scan_append: "scan s buf = (s', Some t) \<Longrightarrow> scan s (buf @ x) = (s', Some t)"
proof (induction s buf rule: scan.induct)
  case (1 s buf)
  note bounds = find_eol_bounds [of buf "scan_pos s"]
  show ?case
  proof (cases "mode s = Literal_scan")
    case True
    with 1 show ?thesis
      by (auto simp: scan.simps [of s buf] scan.simps [of s "buf @ x"] Let_def split: if_splits)
  next
    case False
    with 1(3) have eol: "find_eol buf (scan_pos s) \<noteq> length buf"
      by (auto simp: scan.simps [of s buf] Let_def split: if_splits)
    note eol' = find_eol_append [OF eol, of x] line_append [of "find_eol buf (scan_pos s)" buf _ x]
    show ?thesis
      using 1 False eol eol' bounds
      by (auto simp: scan.simps [of s buf] scan.simps [of s "buf @ x"] Let_def
          split: option.splits)
  qed
qed

text \<open>What holds of the framer between reads.\<close>

definition lexer_inv :: "lexer \<Rightarrow> octets \<Rightarrow> bool" where
  "lexer_inv s buf \<longleftrightarrow>
     response_end s = 0 \<and> scan_pos s \<le> length buf \<and> line_start s \<le> scan_pos s \<and>
     (mode s = Line_scan \<longrightarrow> scan_pos s = line_start s \<or> scan_pos s < length buf)"

lemma lexer_inv_init [simp]: "lexer_inv init_lexer buf"
  by (simp add: lexer_inv_def init_lexer_def)

lemma lexer_inv_append: "lexer_inv s buf \<Longrightarrow> lexer_inv s (buf @ x)"
  by (auto simp: lexer_inv_def)

lemma scan_None_inv: "scan s buf = (s', None) \<Longrightarrow> lexer_inv s buf \<Longrightarrow> lexer_inv s' buf"
proof (induction s buf rule: scan.induct)
  case (1 s buf)
  then show ?case
    using find_eol_bounds [of buf "scan_pos s"]
    by (subst (asm) (3) scan.simps)
      (auto simp: Let_def lexer_inv_def split: if_splits option.splits)
qed

lemma scan_line_cong:
  assumes line: "mode s \<noteq> Literal_scan" and eol: "find_eol b (scan_pos s) = find_eol b p"
  shows "snd (scan (s\<lparr>scan_pos := p\<rparr>) b) = snd (scan s b) \<and>
         response_end (fst (scan (s\<lparr>scan_pos := p\<rparr>) b)) = response_end (fst (scan s b)) \<and>
         (snd (scan s b) = None \<longrightarrow> scan (s\<lparr>scan_pos := p\<rparr>) b = scan s b)"
proof -
  define e where "e = find_eol b p"
  have 1: "scan s b =
      (if e = length b
       then (s\<lparr>scan_pos := (if length b > line_start s then length b - 1 else line_start s)\<rparr>, None)
       else case literal_trailer (take (e - line_start s) (drop (line_start s) b)) of
              Some n \<Rightarrow> scan (s\<lparr>literal_remaining := n, scan_pos := e + 2, mode := Literal_scan\<rparr>) b
            | None \<Rightarrow> (s\<lparr>response_end := e + 2\<rparr>, Some (take e b)))"
    unfolding e_def using line eol by (subst scan.simps) (simp add: Let_def)
  have 2: "scan (s\<lparr>scan_pos := p\<rparr>) b =
      (if e = length b
       then (s\<lparr>scan_pos := (if length b > line_start s then length b - 1 else line_start s)\<rparr>, None)
       else case literal_trailer (take (e - line_start s) (drop (line_start s) b)) of
              Some n \<Rightarrow> scan (s\<lparr>literal_remaining := n, scan_pos := e + 2, mode := Literal_scan\<rparr>) b
            | None \<Rightarrow> (s\<lparr>scan_pos := p, response_end := e + 2\<rparr>, Some (take e b)))"
    unfolding e_def using line by (subst scan.simps) (simp add: Let_def split: option.split)
  show ?thesis
    unfolding 1 2 by (cases "literal_trailer (take (e - line_start s) (drop (line_start s) b))") auto
qed

text \<open>Resuming after more octets arrived agrees with scanning everything at once.\<close>

lemma scan_resume:
  assumes "scan s buf = (s', None)" and "lexer_inv s buf"
  shows "snd (scan s' (buf @ x)) = snd (scan s (buf @ x)) \<and>
         response_end (fst (scan s' (buf @ x))) = response_end (fst (scan s (buf @ x))) \<and>
         (snd (scan s (buf @ x)) = None \<longrightarrow> scan s' (buf @ x) = scan s (buf @ x))"
  using assms
proof (induction s buf rule: scan.induct)
  case (1 s buf)
  note bounds = find_eol_bounds [of buf "scan_pos s"]
  show ?case
  proof (cases "mode s = Literal_scan")
    case True
    show ?thesis
    proof (cases "length buf - scan_pos s < literal_remaining s")
      case True
      with \<open>mode s = Literal_scan\<close> 1(3) have "s' = s" by (simp add: scan.simps [of s buf])
      then show ?thesis by simp
    next
      case False
      with \<open>mode s = Literal_scan\<close> 1 show ?thesis
        by (auto simp: scan.simps [of s buf] scan.simps [of s "buf @ x"] Let_def lexer_inv_def)
    qed
  next
    case line: False
    show ?thesis
    proof (cases "find_eol buf (scan_pos s) = length buf")
      case False
      note eol' = find_eol_append [OF False, of x]
        line_append [of "find_eol buf (scan_pos s)" buf _ x]
      show ?thesis
        using 1 line False eol' bounds
        by (auto simp: scan.simps [of s buf] scan.simps [of s "buf @ x"] Let_def lexer_inv_def
            split: option.splits)
    next
      case True
      let ?p = "if length buf > line_start s then length buf - 1 else line_start s"
      have s': "s' = s\<lparr>scan_pos := ?p\<rparr>"
        using 1(3) line True by (auto simp: scan.simps [of s buf] Let_def)
      have "find_eol (buf @ x) (scan_pos s) = find_eol (buf @ x) ?p"
        using find_eol_skip [OF True, of ?p] 1(4) line
        by (cases "mode s") (auto simp: lexer_inv_def)
      then show ?thesis
        using scan_line_cong [OF line] s' by simp
    qed
  qed
qed

section \<open>The extraction loop\<close>

text \<open>The extraction loop on the octets alone: the reference for \<open>drain\<close>.\<close>

function drain_list :: "lexer \<Rightarrow> octets \<Rightarrow> lexer \<times> octets \<times> octets list" where
  "drain_list s buf =
     (case scan s buf of
        (s1, None) \<Rightarrow> (s1, buf, [])
      | (s1, Some t) \<Rightarrow>
          (case drain_list init_lexer (drop (response_end s1) buf) of
             (s2, b2, ts) \<Rightarrow> (s2, b2, t # ts)))"
  by pat_completeness auto
termination
  by (relation "measure (\<lambda>(s, buf). length buf)") (auto dest!: sym [THEN scan_SomeD])

declare drain_list.simps [simp del]

lemma reset_eq [simp]: "reset s = init_lexer"
  by (simp add: reset_def init_lexer_def)

lemma buffer_ok_consume [simp]:
  "buffer_ok ops \<Longrightarrow> n \<le> length (data_of ops b) \<Longrightarrow>
     data_of ops (consume_of ops b n) = drop n (data_of ops b)"
  by (simp add: buffer_ok_def)

lemma buffer_ok_commit [simp]:
  "buffer_ok ops \<Longrightarrow> data_of ops (commit_of ops b x) = data_of ops b @ x"
  by (simp add: buffer_ok_def)

lemma init_response_end [simp]: "response_end init_lexer = 0"
  by (simp add: init_lexer_def)

lemma drain_list_empty [simp]: "drain_list init_lexer [] = (init_lexer, [], [])"
proof -
  have "scan init_lexer [] = (init_lexer, None)"
    by (subst scan.simps) (simp add: init_lexer_def find_eol.simps [of "[]" 0])
  then show ?thesis by (subst drain_list.simps) simp
qed

lemma drain_refines:
  assumes "buffer_ok ops" and "response_end s = 0" and "drain_list s (data_of ops b) = (s', rest, ts)"
  shows "\<exists>b'. drain ops s b = Some (s', b', ts) \<and> data_of ops b' = rest"
  using assms(2,3)
proof (induction s "data_of ops b" arbitrary: b ts rule: drain_list.induct)
  case (1 s)
  obtain s1 r where sc: "scan s (data_of ops b) = (s1, r)" by force
  show ?case
  proof (cases r)
    case None
    then show ?thesis
      using 1(2,3) sc
      by (subst drain.simps)
        (auto simp: next_complete_response_def drain_list.simps [of s "data_of ops b"])
  next
    case (Some t)
    let ?b2 = "consume_of ops b (response_end s1)"
    have bd: "response_end s1 \<noteq> 0" "response_end s1 \<le> length (data_of ops b)"
      using scan_SomeD [of s "data_of ops b" s1 t] sc Some by auto
    have d2: "data_of ops ?b2 = drop (response_end s1) (data_of ops b)"
      using assms(1) bd by simp
    obtain ts' where ts': "ts = t # ts'" "drain_list init_lexer (data_of ops ?b2) = (s', rest, ts')"
      using 1(3) sc Some d2 by (auto simp: drain_list.simps [of s] split: prod.splits)
    obtain b' where "drain ops init_lexer ?b2 = Some (s', b', ts')" "data_of ops b' = rest"
      using 1(1) [OF sc [symmetric] Some, of ?b2 ts'] d2 ts' by auto
    then show ?thesis
      using 1(2) sc Some bd ts'
      by (subst drain.simps) (auto simp: next_complete_response_def consume_response_def)
  qed
qed

lemma drain_list_append:
  "lexer_inv s buf \<Longrightarrow> drain_list s buf = (s1, b1, ts) \<Longrightarrow> drain_list s1 (b1 @ x) = (s2, b2, us) \<Longrightarrow>
     drain_list s (buf @ x) = (s2, b2, ts @ us) \<and> lexer_inv s1 b1"
proof (induction s buf arbitrary: ts rule: drain_list.induct)
  case (1 s buf)
  obtain s0 r where sc: "scan s buf = (s0, r)" by force
  show ?case
  proof (cases r)
    case None
    with sc 1(3) have eq: "s1 = s0" "b1 = buf" "ts = []"
      by (simp_all add: drain_list.simps [of s buf])
    note rs = scan_resume [OF sc [unfolded None] 1(2), of x]
    have "drain_list s (buf @ x) = drain_list s0 (buf @ x)"
      using rs by (auto simp: drain_list.simps [of s "buf @ x"] drain_list.simps [of s0 "buf @ x"]
          split: prod.splits option.splits)
    then show ?thesis using eq 1(4) scan_None_inv [OF sc [unfolded None] 1(2)] by simp
  next
    case (Some t)
    obtain ts' where ts': "ts = t # ts'"
      "drain_list init_lexer (drop (response_end s0) buf) = (s1, b1, ts')"
      using 1(3) sc Some by (auto simp: drain_list.simps [of s] split: prod.splits)
    have sc': "scan s (buf @ x) = (s0, Some t)" using scan_append sc Some by simp
    have "response_end s0 \<le> length buf" using scan_SomeD sc Some by auto
    then show ?thesis
      using 1(1) [OF sc [symmetric] Some lexer_inv_init ts'(2) 1(4)] sc' ts'
      by (simp add: drain_list.simps [of s "buf @ x"])
  qed
qed

lemma feed_all_refines:
  assumes ok: "buffer_ok ops" and "lexer_inv s (data_of ops b)"
    and "drain_list s (data_of ops b) = (s, data_of ops b, [])"
    and "drain_list s (data_of ops b @ concat cs) = (s', rest, ts)"
  shows "\<exists>b'. feed_all ops (s, b) cs = Some (s', b', ts) \<and> data_of ops b' = rest"
  using assms(2-4)
proof (induction cs arbitrary: s b ts)
  case (Cons c cs)
  let ?b0 = "commit_of ops b c"
  have d0: "data_of ops ?b0 = data_of ops b @ c" using ok by simp
  obtain s1 r1 ts1 where dr1: "drain_list s (data_of ops b @ c) = (s1, r1, ts1)"
    by (cases "drain_list s (data_of ops b @ c)")
  have re: "response_end s = 0" using Cons.prems(1) by (simp add: lexer_inv_def)
  obtain b1 where b1: "drain ops s ?b0 = Some (s1, b1, ts1)" "data_of ops b1 = r1"
    using drain_refines [OF ok re] dr1 d0 by metis
  obtain s2 r2 ts2 where dr2: "drain_list s1 (r1 @ concat cs) = (s2, r2, ts2)"
    by (cases "drain_list s1 (r1 @ concat cs)")
  have inv0: "lexer_inv s (data_of ops b @ c)" by (rule lexer_inv_append [OF Cons.prems(1)])
  have all: "drain_list s ((data_of ops b @ c) @ concat cs) = (s2, r2, ts1 @ ts2)"
    and inv1: "lexer_inv s1 r1"
    using drain_list_append [OF inv0 dr1 dr2] by auto
  have eq: "s2 = s'" "r2 = rest" "ts = ts1 @ ts2" using all Cons.prems(3) by simp_all
  have idem: "drain_list s1 r1 = (s1, r1, [])"
  proof -
    obtain s3 r3 ts3 where d3: "drain_list s1 (r1 @ []) = (s3, r3, ts3)"
      by (cases "drain_list s1 (r1 @ [])")
    then have "drain_list s ((data_of ops b @ c) @ []) = (s3, r3, ts1 @ ts3)"
      using drain_list_append [OF inv0 dr1 d3] by simp
    with dr1 d3 show ?thesis by simp
  qed
  obtain b' where "feed_all ops (s1, b1) cs = Some (s', b', ts2)" "data_of ops b' = rest"
    using Cons.IH [of s1 b1 ts2] b1 inv1 idem dr2 eq by auto
  then show ?case using b1 eq by (simp add: feed_def)
qed simp

text \<open>The framer on a fresh connection, as the octets arrive.\<close>

lemma feed_all_init:
  assumes "buffer_ok ops" and "data_of ops b = []"
    and "drain_list init_lexer (concat cs) = (s', rest, ts)"
  shows "\<exists>b'. feed_all ops (init_lexer, b) cs = Some (s', b', ts) \<and> data_of ops b' = rest"
proof (rule feed_all_refines [OF assms(1)])
  show "drain_list init_lexer (data_of ops b) = (init_lexer, data_of ops b, [])"
    using assms(2) by simp
qed (use assms in auto)

lemma drain_list_sound:
  "drain_list init_lexer buf = (s', rest, ts) \<Longrightarrow>
     list_all framed ts \<and> buf = concat (map (\<lambda>t. t @ CRLF) ts) @ rest"
proof (induction buf arbitrary: ts rule: length_induct)
  case (1 buf)
  obtain s1 r where sc: "scan init_lexer buf = (s1, r)" by force
  show ?case
  proof (cases r)
    case None
    with sc 1(2) show ?thesis by (simp add: drain_list.simps [of init_lexer buf])
  next
    case (Some t)
    obtain ts' where ts': "ts = t # ts'"
      "drain_list init_lexer (drop (response_end s1) buf) = (s', rest, ts')"
      using 1(2) sc Some by (auto simp: drain_list.simps [of _ buf] split: prod.splits)
    obtain b where b: "buf = t @ CRLF @ b" "framed t" "response_end s1 = length t + 2"
      using scan_framed [of "[]" buf s1 t] sc Some by (auto simp: init_at_line)
    then have "drop (response_end s1) buf = b" and "length b < length buf" by simp_all
    with 1(1) ts'(2) have "list_all framed ts' \<and> b = concat (map (\<lambda>t. t @ CRLF) ts') @ rest"
      by metis
    then show ?thesis using b ts' by simp
  qed
qed

lemma drain_list_complete:
  "list_all framed ts \<Longrightarrow>
     drain_list init_lexer (concat (map (\<lambda>t. t @ CRLF) ts)) = (init_lexer, [], ts)"
proof (induction ts)
  case Nil
  show ?case by simp
next
  case (Cons t ts)
  obtain s1 where "scan init_lexer (t @ CRLF @ concat (map (\<lambda>t. t @ CRLF) ts)) = (s1, Some t)"
    "response_end s1 = length t + 2"
    using framed_scan [of t "[]" "concat (map (\<lambda>t. t @ CRLF) ts)"] Cons.prems
    by (auto simp: init_at_line)
  then show ?case
    using Cons by (subst drain_list.simps) simp
qed

section \<open>Properties\<close>

text \<open>
  C22. Framing does not depend on the transport: whatever way the same octets are cut into
  reads, the framer stops in the same state, has extracted the same response texts in the same
  order and leaves the same octets in the buffer, with no assertion failing and no loop
  running forever.
\<close>

theorem segmentation_independent:
  assumes "buffer_ok ops" and "data_of ops b = []" and "concat chunks1 = concat chunks2"
  shows "\<exists>s' b1 b2 texts.
           feed_all ops (init_lexer, b) chunks1 = Some (s', b1, texts) \<and>
           feed_all ops (init_lexer, b) chunks2 = Some (s', b2, texts) \<and>
           data_of ops b1 = data_of ops b2"
proof -
  obtain s' rest texts where d: "drain_list init_lexer (concat chunks1) = (s', rest, texts)"
    by (cases "drain_list init_lexer (concat chunks1)")
  with assms(3) have "drain_list init_lexer (concat chunks2) = (s', rest, texts)" by simp
  with d show ?thesis using feed_all_init [OF assms(1,2)] by metis
qed

definition list_buffer :: "octets buffer_ops" where
  "list_buffer = \<lparr>data_of = (\<lambda>b. b), consume_of = (\<lambda>b n. drop n b), commit_of = (\<lambda>b x. b @ x)\<rparr>"

lemma list_buffer_ok: "buffer_ok list_buffer" "data_of list_buffer [] = []"
  by (simp_all add: buffer_ok_def list_buffer_def)

theorem segmentation_independent_witness:
  "\<exists>s' b1 b2 texts.
     feed_all list_buffer (init_lexer, []) [''* OK hi'' @ [CR], [LF] @ ''* B''] = Some (s', b1, texts) \<and>
     feed_all list_buffer (init_lexer, []) [''* O'', ''K hi'' @ CRLF @ ''* B''] = Some (s', b2, texts) \<and>
     data_of list_buffer b1 = data_of list_buffer b2"
  by (rule segmentation_independent [OF list_buffer_ok]) simp

text \<open>
  C23. No response is lost, merged or invented: when the server sends a sequence of texts of
  the grammar \<open>framed\<close>, each followed by CR LF, the framer extracts exactly this sequence
  however the octets arrive, and ends empty and ready for the next response. Literal octets,
  CR LF among them, are never taken for a line end.
\<close>

theorem framing_complete:
  assumes "buffer_ok ops" and "data_of ops b = []" and "list_all framed texts"
    and "concat chunks = concat (map (\<lambda>t. t @ CRLF) texts)"
  shows "\<exists>b'. feed_all ops (init_lexer, b) chunks = Some (init_lexer, b', texts) \<and>
              data_of ops b' = []"
  using feed_all_init [OF assms(1,2)] drain_list_complete [OF assms(3)] assms(4) by metis

theorem framing_complete_witness:
  "\<exists>b'. feed_all list_buffer (init_lexer, [])
           [''* A {4}'' @ CRLF @ ''x'' @ [CR], [LF] @ ''y)'' @ CRLF]
         = Some (init_lexer, b', [''* A {4}'' @ CRLF @ ''x'' @ CRLF @ ''y'' @ '')'']) \<and>
        data_of list_buffer b' = []"
proof (rule framing_complete [OF list_buffer_ok])
  have "trailer_shape ''* A {4}'' ''* A '' ''4'' []" by (simp add: trailer_shape_def is_digit_def)
  then have lit: "literal_trailer ''* A {4}'' = Some 4"
    using literal_trailer_shape by (fastforce simp: digit_val_def u64_max_def)
  have pl: "literal_trailer '')'' = None" by (simp add: literal_trailer_def)
  have "framed (''* A {4}'' @ CRLF @ (''x'' @ CRLF @ ''y'') @ '')'')"
    by (rule framed.literal [OF _ lit]) (use pl in \<open>simp_all add: framed.plain no_crlf_def\<close>)
  then show "list_all framed [''* A {4}'' @ CRLF @ ''x'' @ CRLF @ ''y'' @ '')'']" by simp
qed simp

text \<open>
  C24. Whatever octets arrive, in whatever reads, each extracted text belongs to the grammar
  and the texts with their line ends, followed by what is left in the buffer, are the octets
  received: the framer consumes nothing it did not deliver.
\<close>

theorem framing_sound:
  assumes "buffer_ok ops" and "data_of ops b = []"
  shows "\<exists>s' b' texts. feed_all ops (init_lexer, b) chunks = Some (s', b', texts) \<and>
           list_all framed texts \<and>
           concat chunks = concat (map (\<lambda>t. t @ CRLF) texts) @ data_of ops b'"
proof -
  obtain s' rest texts where d: "drain_list init_lexer (concat chunks) = (s', rest, texts)"
    by (cases "drain_list init_lexer (concat chunks)")
  then show ?thesis
    using feed_all_init [OF assms(1,2) d] drain_list_sound [OF d] by metis
qed

theorem framing_sound_witness:
  "\<exists>s' b' texts. feed_all list_buffer (init_lexer, []) [''* OK'' @ CRLF, ''a {'']
        = Some (s', b', texts) \<and> list_all framed texts \<and>
     concat [''* OK'' @ CRLF, ''a {''] = concat (map (\<lambda>t. t @ CRLF) texts) @ data_of list_buffer b'"
  by (rule framing_sound [OF list_buffer_ok])

text \<open>
  The literal marker is recognised exactly when the line ends in digits between braces,
  with an optional plus sign, preceded by a space, a tilde or nothing; its count is the
  decimal value, and a count that does not fit 64 bits is refused rather than wrapped.
\<close>

theorem literal_trailer_correct:
  "literal_trailer line = Some n \<longleftrightarrow>
     (\<exists>pre ds pl. trailer_shape line pre ds pl \<and> n = dec_value ds \<and> n \<le> u64_max)"
  by (metis literal_trailer_SomeD literal_trailer_shape option.inject option.simps(3))

end
