(* ===== verification/Mail.thy ===== *)
theory Mail
  imports Values
begin

text \<open>
  The mail data of \<open>common/\<close> and \<open>imap/message_attributes.h\<close>: addresses, envelopes, MIME
  structure, headers, bodies, whole messages and the attributes of a FETCH response. Strings are
  octet lists; a wire \<open>NIL\<close> is the empty string or the empty list.
\<close>

record address =
  ad_display_name :: octets
  ad_adl :: octets
  ad_mailbox_name :: octets
  ad_host_name :: octets

definition empty_address :: address where
  "empty_address = \<lparr>ad_display_name = [], ad_adl = [], ad_mailbox_name = [], ad_host_name = []\<rparr>"

definition email :: "address \<Rightarrow> octets" where
  "email a = ad_mailbox_name a @ (if ad_host_name a \<noteq> [] then CHR ''@'' # ad_host_name a else [])"

record envelope =
  env_date :: octets
  env_subject :: octets
  env_from :: "address list"
  env_sender :: "address list"
  env_reply_to :: "address list"
  env_to :: "address list"
  env_cc :: "address list"
  env_bcc :: "address list"
  env_in_reply_to :: octets
  env_message_id :: octets

definition empty_envelope :: envelope where
  "empty_envelope =
     \<lparr>env_date = [], env_subject = [], env_from = [], env_sender = [], env_reply_to = [], env_to = [],
      env_cc = [], env_bcc = [], env_in_reply_to = [], env_message_id = []\<rparr>"

text \<open>The recursive node of a BODYSTRUCTURE; a multipart node has children and no content fields.\<close>

datatype body_structure = Body_structure
  (bs_media_type: octets)
  (bs_subtype: octets)
  (bs_parameters: "(octets \<times> octets) list")
  (bs_id: octets)
  (bs_description: octets)
  (bs_encoding: octets)
  (bs_octets: nat)
  (bs_parts: "body_structure list")

record mail_header =
  mh_subject :: octets
  mh_from :: "address list"
  mh_to :: "address list"
  mh_cc :: "address list"
  mh_bcc :: "address list"
  mh_date :: octets
  mh_message_id :: octets
  mh_in_reply_to :: octets

definition empty_header :: mail_header where
  "empty_header =
     \<lparr>mh_subject = [], mh_from = [], mh_to = [], mh_cc = [], mh_bcc = [], mh_date = [],
      mh_message_id = [], mh_in_reply_to = []\<rparr>"

record mail_body =
  mbody_content_type :: octets
  mbody_data :: octets

record mail =
  ml_header :: mail_header
  ml_body :: mail_body
  ml_envelope :: "envelope option"

definition empty_mail :: mail where
  "empty_mail =
     \<lparr>ml_header = empty_header, ml_body = \<lparr>mbody_content_type = [], mbody_data = []\<rparr>,
      ml_envelope = None\<rparr>"

record body_section =
  sec_specifier :: octets
  sec_data :: octets

record message_attributes =
  ma_flags :: flag_set
  ma_internal_date :: octets
  ma_rfc822_size :: nat
  ma_envelope :: "envelope option"
  ma_body_structure :: "body_structure option"
  ma_sections :: "body_section list"
  ma_uid :: nat

definition empty_attributes :: message_attributes where
  "empty_attributes =
     \<lparr>ma_flags = 0, ma_internal_date = [], ma_rfc822_size = 0, ma_envelope = None,
      ma_body_structure = None, ma_sections = [], ma_uid = 0\<rparr>"

end
