(* ===== verification/Commands.thy ===== *)
theory Commands
  imports Parser Lexer Mail
begin

text \<open>
  The command classes of \<open>imap/command/\<close>: their arguments, how they render onto the wire, the segment protocol the write
  pump drives (\<open>next_segment\<close>, \<open>awaits_continuation\<close>, \<open>on_segment_flushed\<close>,
  \<open>on_continuation\<close>, \<open>blocks_pipeline\<close>) and \<open>wants_untagged\<close>.

  A command is its constructor arguments, the state of its wire production and the accumulator of
  its replies (the latter is used in theory \<open>Replies\<close>). Four shapes of wire production occur:
  a line with an \<open>emitted_\<close> flag, a line with a \<open>segment_pending_\<close> flag, a list of
  segments with the literal walls between them, and the IDLE state machine.
\<close>

section \<open>Arguments and wire states\<close>

datatype command_args = Noop | Capability | Logout | Starttls | Close_mailbox | Expunge | Idle
  | Login octets octets bool
  | Authenticate octets octets bool
  | Select octets | Examine octets | Create octets | Delete octets | Rename octets octets
  | Subscribe octets | Unsubscribe octets | List_mailboxes octets octets
  | Status octets status_items
  | Append_message octets octets flag_set octets bool
  | Search octets | Uid_search octets
  | Store octets flag_set store_mode | Uid_store octets flag_set store_mode
  | Copy octets octets | Uid_copy octets octets | Move octets octets | Uid_move octets octets
  | Raw octets
  | Fetch octets fetch_items | Uid_fetch octets fetch_items
  | Fetch_envelopes octets | Uid_fetch_envelopes octets
  | Fetch_headers octets "octets list" | Uid_fetch_headers octets "octets list"
  | Fetch_message octets | Uid_fetch_message octets

datatype idle_phase = Idle_initial | Idle_sent | Idling | Done_pending | Done_sent | Idle_finished

text \<open>
  \<open>Segmented wire segs emitted unlocked\<close> keeps the offsets \<open>seg_[0 .. seg_count_)\<close> of
  the segments in the rendered text.
\<close>

datatype wire_state = Once octets bool
  | Pending octets bool
  | Segmented octets "(nat \<times> nat) list" nat nat
  | Idle_wire octets idle_phase bool bool

record snapshot =
  sn_exists :: nat
  sn_recent :: nat
  sn_unseen :: "nat option"
  sn_uid_validity :: nat
  sn_uid_next :: nat
  sn_flags :: flag_set
  sn_permanent_flags :: flag_set

datatype accum = No_accum | Caps_accum capability_set | Snapshot_accum snapshot
  | Rows_accum "mailbox_entry list" | Status_accum mailbox_status | Matches_accum "nat list"
  | Raw_accum octets
  | Fetch_accum "message_attributes list" | Envelopes_accum "envelope list"
  | Headers_accum "mail_header list" | Messages_accum "mail list"

record command =
  cmd_args :: command_args
  cmd_wire :: wire_state
  cmd_accum :: accum

definition empty_snapshot :: snapshot where
  "empty_snapshot =
     \<lparr>sn_exists = 0, sn_recent = 0, sn_unseen = None, sn_uid_validity = 0, sn_uid_next = 0,
      sn_flags = 0, sn_permanent_flags = 0\<rparr>"

fun new_accum :: "command_args \<Rightarrow> accum" where
  "new_accum Capability = Caps_accum []"
| "new_accum (Select _) = Snapshot_accum empty_snapshot"
| "new_accum (Examine _) = Snapshot_accum empty_snapshot"
| "new_accum (List_mailboxes _ _) = Rows_accum []"
| "new_accum (Status _ _) = Status_accum default_mailbox_status"
| "new_accum (Search _) = Matches_accum []"
| "new_accum (Uid_search _) = Matches_accum []"
| "new_accum (Raw _) = Raw_accum []"
| "new_accum (Fetch _ _) = Fetch_accum []"
| "new_accum (Uid_fetch _ _) = Fetch_accum []"
| "new_accum (Fetch_envelopes _) = Envelopes_accum []"
| "new_accum (Uid_fetch_envelopes _) = Envelopes_accum []"
| "new_accum (Fetch_headers _ _) = Headers_accum []"
| "new_accum (Uid_fetch_headers _ _) = Headers_accum []"
| "new_accum (Fetch_message _) = Messages_accum []"
| "new_accum (Uid_fetch_message _) = Messages_accum []"
| "new_accum _ = No_accum"

fun new_wire :: "command_args \<Rightarrow> wire_state" where
  "new_wire Idle = Idle_wire [] Idle_initial False False"
| "new_wire (Login _ _ _) = Segmented [] [] 0 0"
| "new_wire (Authenticate _ _ _) = Segmented [] [] 0 0"
| "new_wire (Append_message _ _ _ _ _) = Segmented [] [] 0 0"
| "new_wire Close_mailbox = Pending [] False"
| "new_wire Expunge = Pending [] False"
| "new_wire (Search _) = Pending [] False"
| "new_wire (Uid_search _) = Pending [] False"
| "new_wire (Store _ _ _) = Pending [] False"
| "new_wire (Uid_store _ _ _) = Pending [] False"
| "new_wire (Copy _ _) = Pending [] False"
| "new_wire (Uid_copy _ _) = Pending [] False"
| "new_wire (Move _ _) = Pending [] False"
| "new_wire (Uid_move _ _) = Pending [] False"
| "new_wire (Fetch _ _) = Pending [] False"
| "new_wire (Uid_fetch _ _) = Pending [] False"
| "new_wire (Fetch_envelopes _) = Pending [] False"
| "new_wire (Uid_fetch_envelopes _) = Pending [] False"
| "new_wire (Fetch_headers _ _) = Pending [] False"
| "new_wire (Uid_fetch_headers _ _) = Pending [] False"
| "new_wire (Fetch_message _) = Pending [] False"
| "new_wire (Uid_fetch_message _) = Pending [] False"
| "new_wire _ = Once [] False"

definition new_command :: "command_args \<Rightarrow> command" where
  "new_command a = \<lparr>cmd_args = a, cmd_wire = new_wire a, cmd_accum = new_accum a\<rparr>"

section \<open>Rendering\<close>

definition atom_safe :: "octets \<Rightarrow> bool" where
  "atom_safe v \<longleftrightarrow>
     v \<noteq> [] \<and>
     list_all (\<lambda>c. \<not> (of_char c < (0x20 :: nat) \<or> of_char c \<ge> (0x7F :: nat)) \<and>
                   c \<notin> set ''(){ %*'' \<and> c \<noteq> DQUOTE \<and> c \<noteq> BSLASH \<and> c \<noteq> CHR '']'') v"

definition append_arg :: "octets \<Rightarrow> octets \<Rightarrow> octets" where
  "append_arg v wire = wire @ (if atom_safe v then v else quote v)"

text \<open>The flag and item emitters: the selected names, separated by spaces.\<close>

definition emit_names :: "(bool \<times> octets) list \<Rightarrow> octets" where
  "emit_names sel = sp_join (map snd (filter fst sel))"

definition append_flag_names :: "flag_set \<Rightarrow> octets" where
  "append_flag_names flags =
     emit_names (map (\<lambda>f. (flag_test flags f, flag_name f))
       [Seen, Answered, Flagged, Deleted, Draft, Recent])"

definition append_flags :: "flag_set \<Rightarrow> octets" where
  "append_flags flags =
     '' ('' @ emit_names (map (\<lambda>f. (flag_test flags f, flag_name f))
       [Answered, Deleted, Draft, Flagged, Recent, Seen]) @ '')''"

definition append_items :: "status_items \<Rightarrow> octets" where
  "append_items items =
     emit_names
       [(has_status_item items si_messages, ''MESSAGES''), (has_status_item items si_recent, ''RECENT''),
        (has_status_item items si_uid_next, ''UIDNEXT''),
        (has_status_item items si_uid_validity, ''UIDVALIDITY''),
        (has_status_item items si_unseen, ''UNSEEN'')]"

subsection \<open>Single lines\<close>

definition noop_render :: "octets \<Rightarrow> octets" where
  "noop_render tag = tag @ '' NOOP'' @ CRLF"

definition capability_render :: "octets \<Rightarrow> octets" where
  "capability_render tag = tag @ '' CAPABILITY'' @ CRLF"

definition logout_render :: "octets \<Rightarrow> octets" where
  "logout_render tag = tag @ '' LOGOUT'' @ CRLF"

definition starttls_render :: "octets \<Rightarrow> octets" where
  "starttls_render tag = tag @ '' STARTTLS'' @ CRLF"

definition close_render :: "octets \<Rightarrow> octets" where
  "close_render tag = tag @ '' CLOSE'' @ CRLF"

definition expunge_render :: "octets \<Rightarrow> octets" where
  "expunge_render tag = tag @ '' EXPUNGE'' @ CRLF"

definition select_render :: "octets \<Rightarrow> octets \<Rightarrow> octets" where
  "select_render mailbox tag = append_arg mailbox (tag @ '' SELECT '') @ CRLF"

definition examine_render :: "octets \<Rightarrow> octets \<Rightarrow> octets" where
  "examine_render mailbox tag = append_arg mailbox (tag @ '' EXAMINE '') @ CRLF"

definition create_render :: "octets \<Rightarrow> octets \<Rightarrow> octets" where
  "create_render mailbox tag = append_arg mailbox (tag @ '' CREATE '') @ CRLF"

definition delete_render :: "octets \<Rightarrow> octets \<Rightarrow> octets" where
  "delete_render mailbox tag = append_arg mailbox (tag @ '' DELETE '') @ CRLF"

definition rename_render :: "octets \<Rightarrow> octets \<Rightarrow> octets \<Rightarrow> octets" where
  "rename_render old_name new_name tag =
     append_arg new_name (append_arg old_name (tag @ '' RENAME '') @ '' '') @ CRLF"

definition subscribe_render :: "octets \<Rightarrow> octets \<Rightarrow> octets" where
  "subscribe_render mailbox tag = append_arg mailbox (tag @ '' SUBSCRIBE '') @ CRLF"

definition unsubscribe_render :: "octets \<Rightarrow> octets \<Rightarrow> octets" where
  "unsubscribe_render mailbox tag = append_arg mailbox (tag @ '' UNSUBSCRIBE '') @ CRLF"

definition list_render :: "octets \<Rightarrow> octets \<Rightarrow> octets \<Rightarrow> octets" where
  "list_render reference pattern tag =
     append_arg pattern (append_arg reference (tag @ '' LIST '') @ '' '') @ CRLF"

definition status_render :: "octets \<Rightarrow> status_items \<Rightarrow> octets \<Rightarrow> octets" where
  "status_render mailbox items tag =
     append_arg mailbox (tag @ '' STATUS '') @ '' ('' @ append_items items @ '')'' @ CRLF"

definition search_render :: "octets \<Rightarrow> octets \<Rightarrow> octets" where
  "search_render criteria tag = tag @ '' SEARCH '' @ criteria @ CRLF"

definition uid_search_render :: "octets \<Rightarrow> octets \<Rightarrow> octets" where
  "uid_search_render criteria tag = tag @ '' UID SEARCH '' @ criteria @ CRLF"

fun mode_name :: "store_mode \<Rightarrow> octets" where
  "mode_name Store_add = ''+FLAGS''"
| "mode_name Store_remove = ''-FLAGS''"
| "mode_name Store_replace = ''FLAGS''"

definition store_render :: "octets \<Rightarrow> flag_set \<Rightarrow> store_mode \<Rightarrow> octets \<Rightarrow> octets" where
  "store_render seq_set flags md tag =
     tag @ '' STORE '' @ seq_set @ '' '' @ mode_name md @ '' ('' @ append_flag_names flags @ '')'' @ CRLF"

definition uid_store_render :: "octets \<Rightarrow> flag_set \<Rightarrow> store_mode \<Rightarrow> octets \<Rightarrow> octets" where
  "uid_store_render uid_set flags md tag =
     tag @ '' UID STORE '' @ uid_set @ '' '' @ mode_name md @ '' ('' @ append_flag_names flags @ '')'' @ CRLF"

text \<open>The renderings through \<open>render_astring\<close> are \<open>None\<close> when its assertion fails.\<close>

definition copy_render :: "octets \<Rightarrow> octets \<Rightarrow> octets \<Rightarrow> octets option" where
  "copy_render seq_set mailbox tag =
     map_option (\<lambda>l. l @ CRLF) (render_astring mailbox (tag @ '' COPY '' @ seq_set @ '' ''))"

definition uid_copy_render :: "octets \<Rightarrow> octets \<Rightarrow> octets \<Rightarrow> octets option" where
  "uid_copy_render uid_set mailbox tag =
     map_option (\<lambda>l. l @ CRLF) (render_astring mailbox (tag @ '' UID COPY '' @ uid_set @ '' ''))"

definition move_render :: "octets \<Rightarrow> octets \<Rightarrow> octets \<Rightarrow> octets option" where
  "move_render seq_set mailbox tag =
     map_option (\<lambda>l. l @ CRLF) (render_astring mailbox (tag @ '' MOVE '' @ seq_set @ '' ''))"

definition uid_move_render :: "octets \<Rightarrow> octets \<Rightarrow> octets \<Rightarrow> octets option" where
  "uid_move_render uid_set mailbox tag =
     map_option (\<lambda>l. l @ CRLF) (render_astring mailbox (tag @ '' UID MOVE '' @ uid_set @ '' ''))"

subsection \<open>FETCH\<close>

text \<open>The items, each followed by a space; the last space is removed again.\<close>

definition append_fetch_items :: "fetch_items \<Rightarrow> octets" where
  "append_fetch_items items =
     (if items_test items Item_envelope then ''ENVELOPE '' else []) @
     (if items_test items Item_body_structure then ''BODYSTRUCTURE '' else []) @
     (if items_test items Item_flags then ''FLAGS '' else []) @
     (if items_test items Item_uid then ''UID '' else []) @
     (if items_test items Item_internal_date then ''INTERNALDATE '' else []) @
     (if items_test items Item_rfc822_size then ''RFC822.SIZE '' else []) @
     concat (map (\<lambda>s. (if peek_section s then ''BODY.PEEK['' else ''BODY['') @ specifier s @ ''] '') (sections items))"

definition drop_last_space :: "octets \<Rightarrow> octets" where
  "drop_last_space line = (if line \<noteq> [] \<and> last line = SP then butlast line else line)"

definition fetch_render :: "octets \<Rightarrow> fetch_items \<Rightarrow> octets \<Rightarrow> octets" where
  "fetch_render seq_set items tag =
     drop_last_space (tag @ '' FETCH '' @ seq_set @ '' ('' @ append_fetch_items items) @ '')'' @ CRLF"

definition uid_fetch_render :: "octets \<Rightarrow> fetch_items \<Rightarrow> octets \<Rightarrow> octets" where
  "uid_fetch_render uid_set items tag =
     drop_last_space (tag @ '' UID FETCH '' @ uid_set @ '' ('' @ append_fetch_items items) @ '')'' @ CRLF"

definition fetch_envelopes_render :: "octets \<Rightarrow> octets \<Rightarrow> octets" where
  "fetch_envelopes_render seq_set tag = tag @ '' FETCH '' @ seq_set @ '' (ENVELOPE)'' @ CRLF"

definition uid_fetch_envelopes_render :: "octets \<Rightarrow> octets \<Rightarrow> octets" where
  "uid_fetch_envelopes_render uid_set tag = tag @ '' UID FETCH '' @ uid_set @ '' (ENVELOPE)'' @ CRLF"

text \<open>The field names, separated by spaces, each through \<open>render_astring\<close>.\<close>

fun render_fields :: "bool \<Rightarrow> octets list \<Rightarrow> octets \<Rightarrow> octets option" where
  "render_fields first [] line = Some line"
| "render_fields first (f # fs) line =
     (case render_astring f (if first then line else line @ '' '') of
        None \<Rightarrow> None | Some line' \<Rightarrow> render_fields False fs line')"

definition fetch_headers_render :: "octets \<Rightarrow> octets list \<Rightarrow> octets \<Rightarrow> octets option" where
  "fetch_headers_render seq_set names tag =
     map_option (\<lambda>l. l @ '')])'' @ CRLF)
       (render_fields True names (tag @ '' FETCH '' @ seq_set @ '' (BODY.PEEK[HEADER.FIELDS (''))"

definition uid_fetch_headers_render :: "octets \<Rightarrow> octets list \<Rightarrow> octets \<Rightarrow> octets option" where
  "uid_fetch_headers_render uid_set names tag =
     map_option (\<lambda>l. l @ '')])'' @ CRLF)
       (render_fields True names (tag @ '' UID FETCH '' @ uid_set @ '' (BODY.PEEK[HEADER.FIELDS (''))"

definition fetch_message_render :: "octets \<Rightarrow> octets \<Rightarrow> octets" where
  "fetch_message_render seq_set tag = tag @ '' FETCH '' @ seq_set @ '' (BODY.PEEK[])'' @ CRLF"

definition uid_fetch_message_render :: "octets \<Rightarrow> octets \<Rightarrow> octets" where
  "uid_fetch_message_render uid_set tag = tag @ '' UID FETCH '' @ uid_set @ '' (BODY.PEEK[])'' @ CRLF"

definition raw_render :: "octets \<Rightarrow> octets \<Rightarrow> octets" where
  "raw_render line tag = tag @ '' '' @ line @ CRLF"

subsection \<open>Segmented commands\<close>

definition append_render ::
  "octets \<Rightarrow> octets \<Rightarrow> flag_set \<Rightarrow> octets \<Rightarrow> bool \<Rightarrow> octets \<Rightarrow> wire_state" where
  "append_render mailbox message flags date_time literal_plus tag =
     (let head = append_arg mailbox (tag @ '' APPEND '')
              @ (if flag_any flags then append_flags flags else [])
              @ (if date_time \<noteq> [] then '' '' @ quote date_time else [])
              @ '' {'' @ to_chars (length message) @ (if literal_plus then ''+'' else []) @ ''}'' @ CRLF;
          wire = head @ message @ CRLF
      in Segmented wire [(0, length head), (length head, length wire)] 0 (if literal_plus then 2 else 1))"

text \<open>The rendering state of LOGIN: the text, the closed segments, the start of the open one and
  the number of walls. The array \<open>seg_\<close> holds four segments; more are dropped.\<close>

record login_build =
  lb_wire :: octets
  lb_segs :: "(nat \<times> nat) list"
  lb_begin :: nat
  lb_walls :: nat

definition close_segment :: "login_build \<Rightarrow> login_build" where
  "close_segment b =
     b\<lparr>lb_segs := (if length (lb_segs b) < 4 then lb_segs b @ [(lb_begin b, length (lb_wire b))]
                   else lb_segs b),
       lb_begin := length (lb_wire b)\<rparr>"

definition login_append_arg :: "bool \<Rightarrow> octets \<Rightarrow> login_build \<Rightarrow> login_build" where
  "login_append_arg literal_plus v b =
     (if atom_safe v then b\<lparr>lb_wire := lb_wire b @ v\<rparr>
      else if CR \<notin> set v \<and> LF \<notin> set v then b\<lparr>lb_wire := lb_wire b @ quote v\<rparr>
      else
        (let b1 = b\<lparr>lb_wire := lb_wire b @ ''{'' @ to_chars (length v) @
                      (if literal_plus then ''+'' else []) @ ''}'' @ CRLF\<rparr>;
             b2 = close_segment b1
         in b2\<lparr>lb_walls := lb_walls b2 + 1, lb_wire := lb_wire b2 @ v\<rparr>))"

definition login_render :: "octets \<Rightarrow> octets \<Rightarrow> bool \<Rightarrow> octets \<Rightarrow> wire_state" where
  "login_render user_name password literal_plus tag =
     (let b0 = \<lparr>lb_wire = tag @ '' LOGIN '', lb_segs = [], lb_begin = 0, lb_walls = 0\<rparr>;
          b1 = login_append_arg literal_plus user_name b0;
          b2 = login_append_arg literal_plus password (b1\<lparr>lb_wire := lb_wire b1 @ '' ''\<rparr>);
          b3 = close_segment (b2\<lparr>lb_wire := lb_wire b2 @ CRLF\<rparr>)
      in Segmented (lb_wire b3) (lb_segs b3) 0
           (if lb_walls b3 = 0 \<or> literal_plus then length (lb_segs b3) else 1))"

definition b64_alphabet :: octets where
  "b64_alphabet = ''ABCDEFGHIJKLMNOPQRSTUVWXYZabcdefghijklmnopqrstuvwxyz0123456789+/''"

text \<open>The 24-bit group \<open>n\<close> of three octets; its four six-bit digits from the top.\<close>

definition b64_group :: "nat \<Rightarrow> nat \<Rightarrow> nat \<Rightarrow> nat" where
  "b64_group a b c = a * 2 ^ 16 + b * 2 ^ 8 + c"

definition b64_digit :: "nat \<Rightarrow> nat \<Rightarrow> char" where
  "b64_digit n shift = b64_alphabet ! (n div 2 ^ shift mod 64)"

fun append_base64 :: "octets \<Rightarrow> octets" where
  "append_base64 (a # b # c # rest) =
     (let n = b64_group (of_char a) (of_char b) (of_char c)
      in b64_digit n 18 # b64_digit n 12 # b64_digit n 6 # b64_digit n 0 # append_base64 rest)"
| "append_base64 [a, b] =
     (let n = b64_group (of_char a) (of_char b) 0
      in [b64_digit n 18, b64_digit n 12, b64_digit n 6, CHR ''=''])"
| "append_base64 [a] =
     (let n = b64_group (of_char a) 0 0 in [b64_digit n 18, b64_digit n 12, CHR ''='', CHR ''=''])"
| "append_base64 [] = []"

definition authenticate_render :: "octets \<Rightarrow> octets \<Rightarrow> bool \<Rightarrow> octets \<Rightarrow> wire_state" where
  "authenticate_render mechanism response sasl_ir tag =
     (let line = tag @ '' AUTHENTICATE '' @ mechanism
      in if sasl_ir then
           (let wire = line @ '' '' @ (if response = [] then ''='' else append_base64 response) @ CRLF
            in Segmented wire [(0, length wire)] 0 1)
         else
           (let head = line @ CRLF;
                wire = head @ (if response = [] then ''*'' else append_base64 response) @ CRLF
            in Segmented wire [(0, length head), (length head, length wire)] 0 1))"

subsection \<open>Stamping the tag\<close>

definition idle_render :: "octets \<Rightarrow> wire_state \<Rightarrow> wire_state" where
  "idle_render tag w =
     (case w of Idle_wire _ _ _ done_requested \<Rightarrow>
        Idle_wire (tag @ '' IDLE'' @ CRLF) Idle_sent True done_requested
      | _ \<Rightarrow> w)"

text \<open>\<open>render_wire\<close> is the dispatch over the classes; a line command keeps its
  \<open>emitted_\<close> flag, which is false until it is flushed.\<close>

fun render_wire :: "command_args \<Rightarrow> octets \<Rightarrow> wire_state \<Rightarrow> wire_state option" where
  "render_wire Noop tag w = Some (Once (noop_render tag) False)"
| "render_wire Capability tag w = Some (Once (capability_render tag) False)"
| "render_wire Logout tag w = Some (Once (logout_render tag) False)"
| "render_wire Starttls tag w = Some (Once (starttls_render tag) False)"
| "render_wire Close_mailbox tag w = Some (Pending (close_render tag) True)"
| "render_wire Expunge tag w = Some (Pending (expunge_render tag) True)"
| "render_wire Idle tag w = Some (idle_render tag w)"
| "render_wire (Login u p lp) tag w = Some (login_render u p lp tag)"
| "render_wire (Authenticate m r ir) tag w = Some (authenticate_render m r ir tag)"
| "render_wire (Select mb) tag w = Some (Once (select_render mb tag) False)"
| "render_wire (Examine mb) tag w = Some (Once (examine_render mb tag) False)"
| "render_wire (Create mb) tag w = Some (Once (create_render mb tag) False)"
| "render_wire (Delete mb) tag w = Some (Once (delete_render mb tag) False)"
| "render_wire (Rename a b) tag w = Some (Once (rename_render a b tag) False)"
| "render_wire (Subscribe mb) tag w = Some (Once (subscribe_render mb tag) False)"
| "render_wire (Unsubscribe mb) tag w = Some (Once (unsubscribe_render mb tag) False)"
| "render_wire (List_mailboxes r p) tag w = Some (Once (list_render r p tag) False)"
| "render_wire (Status mb i) tag w = Some (Once (status_render mb i tag) False)"
| "render_wire (Append_message mb m f d lp) tag w = Some (append_render mb m f d lp tag)"
| "render_wire (Search c) tag w = Some (Pending (search_render c tag) True)"
| "render_wire (Uid_search c) tag w = Some (Pending (uid_search_render c tag) True)"
| "render_wire (Store s f m) tag w = Some (Pending (store_render s f m tag) True)"
| "render_wire (Uid_store s f m) tag w = Some (Pending (uid_store_render s f m tag) True)"
| "render_wire (Copy s mb) tag w = map_option (\<lambda>l. Pending l True) (copy_render s mb tag)"
| "render_wire (Uid_copy s mb) tag w = map_option (\<lambda>l. Pending l True) (uid_copy_render s mb tag)"
| "render_wire (Move s mb) tag w = map_option (\<lambda>l. Pending l True) (move_render s mb tag)"
| "render_wire (Uid_move s mb) tag w = map_option (\<lambda>l. Pending l True) (uid_move_render s mb tag)"
| "render_wire (Raw l) tag w = Some (Once (raw_render l tag) False)"
| "render_wire (Fetch s i) tag w = Some (Pending (fetch_render s i tag) True)"
| "render_wire (Uid_fetch s i) tag w = Some (Pending (uid_fetch_render s i tag) True)"
| "render_wire (Fetch_envelopes s) tag w = Some (Pending (fetch_envelopes_render s tag) True)"
| "render_wire (Uid_fetch_envelopes s) tag w = Some (Pending (uid_fetch_envelopes_render s tag) True)"
| "render_wire (Fetch_headers s fs) tag w = map_option (\<lambda>l. Pending l True) (fetch_headers_render s fs tag)"
| "render_wire (Uid_fetch_headers s fs) tag w = map_option (\<lambda>l. Pending l True) (uid_fetch_headers_render s fs tag)"
| "render_wire (Fetch_message s) tag w = Some (Pending (fetch_message_render s tag) True)"
| "render_wire (Uid_fetch_message s) tag w = Some (Pending (uid_fetch_message_render s tag) True)"

definition render :: "octets \<Rightarrow> command \<Rightarrow> command option" where
  "render tag c =
     map_option (\<lambda>w. c\<lparr>cmd_wire := w,
         cmd_accum := (case cmd_accum c of Raw_accum _ \<Rightarrow> Raw_accum tag | a \<Rightarrow> a)\<rparr>)
       (render_wire (cmd_args c) tag (cmd_wire c))"

section \<open>The segment protocol\<close>

fun wire_next :: "wire_state \<Rightarrow> octets" where
  "wire_next (Once wire emitted) = (if emitted then [] else wire)"
| "wire_next (Pending line pending) = (if pending then line else [])"
| "wire_next (Segmented wire segs emitted unlocked) =
     (if emitted \<ge> unlocked \<or> emitted \<ge> length segs then []
      else (let (off, stop) = segs ! emitted in take (stop - off) (drop off wire)))"
| "wire_next (Idle_wire segment phase pending dreq) = (if pending then segment else [])"

fun wire_awaits :: "wire_state \<Rightarrow> bool" where
  "wire_awaits (Segmented wire segs emitted unlocked) \<longleftrightarrow> unlocked < length segs"
| "wire_awaits (Idle_wire segment phase pending dreq) \<longleftrightarrow> phase = Idle_sent"
| "wire_awaits _ \<longleftrightarrow> False"

fun wire_flushed :: "wire_state \<Rightarrow> wire_state" where
  "wire_flushed (Once wire emitted) = Once wire True"
| "wire_flushed (Pending line pending) = Pending line False"
| "wire_flushed (Segmented wire segs emitted unlocked) =
     Segmented wire segs (if emitted < length segs then emitted + 1 else emitted) unlocked"
| "wire_flushed (Idle_wire segment phase pending dreq) =
     Idle_wire segment (if phase = Done_pending then Done_sent else phase) False dreq"

definition queue_done :: "bool \<Rightarrow> wire_state" where
  "queue_done dreq = Idle_wire (''DONE'' @ CRLF) Done_pending True dreq"

definition idle_on_continuation :: "octets \<Rightarrow> idle_phase \<Rightarrow> bool \<Rightarrow> bool \<Rightarrow> wire_state" where
  "idle_on_continuation segment phase pending dreq =
     (if phase \<noteq> Idle_sent then Idle_wire segment phase pending dreq
      else if dreq then queue_done dreq else Idle_wire segment Idling pending dreq)"

text \<open>\<open>done()\<close> of IDLE; None for the commands that do not have it.\<close>

fun idle_done :: "wire_state \<Rightarrow> wire_state option" where
  "idle_done (Idle_wire segment phase pending dreq) =
     Some (if phase = Idling then queue_done True else Idle_wire segment phase pending True)"
| "idle_done _ = None"

text \<open>\<open>on_continuation\<close> of the segmented commands: the walls of APPEND and LOGIN; AUTHENTICATE
  appends the cancel line when every segment is released already (at most four segments).\<close>

definition literal_on_continuation :: "octets \<Rightarrow> (nat \<times> nat) list \<Rightarrow> nat \<Rightarrow> nat \<Rightarrow> wire_state" where
  "literal_on_continuation wire segs emitted unlocked =
     Segmented wire segs emitted (if unlocked < length segs then unlocked + 1 else unlocked)"

definition authenticate_on_continuation ::
  "octets \<Rightarrow> (nat \<times> nat) list \<Rightarrow> nat \<Rightarrow> nat \<Rightarrow> wire_state" where
  "authenticate_on_continuation wire segs emitted unlocked =
     (if unlocked < length segs then Segmented wire segs emitted (unlocked + 1)
      else if length segs \<ge> 4 then Segmented wire segs emitted unlocked
      else Segmented (wire @ ''*'' @ CRLF) (segs @ [(length wire, length wire + 3)]) emitted (unlocked + 1))"

definition next_segment :: "command \<Rightarrow> octets" where
  "next_segment c = wire_next (cmd_wire c)"

definition awaits_continuation :: "command \<Rightarrow> bool" where
  "awaits_continuation c \<longleftrightarrow> wire_awaits (cmd_wire c)"

definition on_segment_flushed :: "command \<Rightarrow> command" where
  "on_segment_flushed c = c\<lparr>cmd_wire := wire_flushed (cmd_wire c)\<rparr>"

definition on_continuation :: "octets \<Rightarrow> command \<Rightarrow> command" where
  "on_continuation msg c =
     c\<lparr>cmd_wire := (case cmd_wire c of
         Segmented wire segs e u \<Rightarrow>
           (case cmd_args c of
              Authenticate _ _ _ \<Rightarrow> authenticate_on_continuation wire segs e u
            | _ \<Rightarrow> literal_on_continuation wire segs e u)
       | Idle_wire s p pe d \<Rightarrow> idle_on_continuation s p pe d
       | w \<Rightarrow> w)\<rparr>"

fun args_block_pipeline :: "command_args \<Rightarrow> bool" where
  "args_block_pipeline Logout = True"
| "args_block_pipeline Starttls = True"
| "args_block_pipeline (Authenticate _ _ _) = True"
| "args_block_pipeline _ = False"

definition blocks_pipeline :: "command \<Rightarrow> bool" where
  "blocks_pipeline c = args_block_pipeline (cmd_args c)"

fun args_want :: "command_args \<Rightarrow> untagged_kind \<Rightarrow> bool" where
  "args_want Capability k \<longleftrightarrow> k = K_capability"
| "args_want (Select _) k \<longleftrightarrow> k = K_flags"
| "args_want (Examine _) k \<longleftrightarrow> k = K_flags"
| "args_want (List_mailboxes _ _) k \<longleftrightarrow> k = K_list"
| "args_want (Status _ _) k \<longleftrightarrow> k = K_status"
| "args_want (Search _) k \<longleftrightarrow> k = K_search"
| "args_want (Uid_search _) k \<longleftrightarrow> k = K_search"
| "args_want (Fetch _ _) k \<longleftrightarrow> k = K_fetch"
| "args_want (Uid_fetch _ _) k \<longleftrightarrow> k = K_fetch"
| "args_want (Fetch_envelopes _) k \<longleftrightarrow> k = K_fetch"
| "args_want (Uid_fetch_envelopes _) k \<longleftrightarrow> k = K_fetch"
| "args_want (Fetch_headers _ _) k \<longleftrightarrow> k = K_fetch"
| "args_want (Uid_fetch_headers _ _) k \<longleftrightarrow> k = K_fetch"
| "args_want (Fetch_message _) k \<longleftrightarrow> k = K_fetch"
| "args_want (Uid_fetch_message _) k \<longleftrightarrow> k = K_fetch"
| "args_want _ k \<longleftrightarrow> False"

definition wants_untagged :: "untagged_kind \<Rightarrow> command \<Rightarrow> bool" where
  "wants_untagged k c = args_want (cmd_args c) k"

section \<open>Base64\<close>

text \<open>The reference decoder of RFC 4648 with padding; None on anything else.\<close>

fun b64_decode :: "octets \<Rightarrow> octets option" where
  "b64_decode [] = Some []"
| "b64_decode (p # q # r # s # rest) =
     (case (find_char p b64_alphabet, find_char q b64_alphabet) of
        (Some a, Some b) \<Rightarrow>
          (if r = CHR ''='' then
             (if s = CHR ''='' \<and> rest = [] \<and> b mod 16 = 0
              then Some [char_of (a * 4 + b div 16)] else None)
           else
             (case find_char r b64_alphabet of
                None \<Rightarrow> None
              | Some c \<Rightarrow>
                  (if s = CHR ''='' then
                     (if rest = [] \<and> c mod 4 = 0
                      then Some [char_of (a * 4 + b div 16), char_of (b mod 16 * 16 + c div 4)] else None)
                   else
                     (case (find_char s b64_alphabet, b64_decode rest) of
                        (Some d, Some tail) \<Rightarrow>
                          Some (char_of (a * 4 + b div 16) # char_of (b mod 16 * 16 + c div 4) #
                                char_of (c mod 4 * 64 + d) # tail)
                      | _ \<Rightarrow> None))))
      | _ \<Rightarrow> None)"
| "b64_decode _ = None"

lemma find_char_nth: "distinct xs \<Longrightarrow> i < length xs \<Longrightarrow> find_char (xs ! i) xs = Some i"
  by (induction xs arbitrary: i) (auto simp: nth_Cons split: nat.splits)

lemma b64_alphabet_facts: "distinct b64_alphabet" "length b64_alphabet = 64"
    "CHR ''='' \<notin> set b64_alphabet"
  by (simp_all add: b64_alphabet_def)

lemma find_b64_digit [simp]: "find_char (b64_digit n s) b64_alphabet = Some (n div 2 ^ s mod 64)"
  unfolding b64_digit_def by (rule find_char_nth) (simp_all add: b64_alphabet_facts)

lemma b64_digit_not_pad [simp]: "b64_digit n s \<noteq> CHR ''=''"
proof
  assume "b64_digit n s = CHR ''=''"
  moreover have "b64_digit n s \<in> set b64_alphabet"
    unfolding b64_digit_def by (rule nth_mem) (simp add: b64_alphabet_facts)
  ultimately show False using b64_alphabet_facts(3) by simp
qed

lemma base64_digits:
  fixes d3 d2 d1 d0 :: nat
  assumes "d3 < 64" "d2 < 64" "d1 < 64" "d0 < 64" and n: "n = ((d3 * 64 + d2) * 64 + d1) * 64 + d0"
  shows "n div 2 ^ 18 mod 64 = d3" "n div 2 ^ 12 mod 64 = d2" "n div 2 ^ 6 mod 64 = d1"
    "n div 2 ^ 0 mod 64 = d0"
proof -
  have d: "(x * 64 + y) div 64 = x" "(x * 64 + y) mod 64 = y" if "y < 64" for x y :: nat
    using that by simp_all
  have p: "m div 2 ^ 6 = m div 64" "m div 2 ^ 12 = m div 64 div 64"
    "m div 2 ^ 18 = m div 64 div 64 div 64" "m div 2 ^ 0 = m" for m :: nat
    by (simp_all add: div_mult2_eq [symmetric])
  show "n div 2 ^ 18 mod 64 = d3" "n div 2 ^ 12 mod 64 = d2" "n div 2 ^ 6 mod 64 = d1"
    "n div 2 ^ 0 mod 64 = d0"
    unfolding p n using assms(1-4) by (simp_all only: d mod_less)
qed

lemma b64_digits_of_group:
  fixes a b c :: nat
  assumes "a < 256" "b < 256" "c < 256"
  shows "b64_group a b c div 2 ^ 18 mod 64 = a div 4"
    "b64_group a b c div 2 ^ 12 mod 64 = a mod 4 * 16 + b div 16"
    "b64_group a b c div 2 ^ 6 mod 64 = b mod 16 * 4 + c div 64"
    "b64_group a b c div 2 ^ 0 mod 64 = c mod 64"
proof -
  obtain a1 a0 where a: "a = a1 * 4 + a0" "a0 < 4" "a1 < 64"
    using assms(1) by (intro that [of "a div 4" "a mod 4"]) auto
  obtain b1 b0 where b: "b = b1 * 16 + b0" "b0 < 16" "b1 < 16"
    using assms(2) by (intro that [of "b div 16" "b mod 16"]) auto
  obtain c1 c0 where c: "c = c1 * 64 + c0" "c0 < 64" "c1 < 4"
    using assms(3) by (intro that [of "c div 64" "c mod 64"]) auto
  have n: "b64_group a b c = ((a1 * 64 + (a0 * 16 + b1)) * 64 + (b0 * 4 + c1)) * 64 + c0"
    by (simp add: b64_group_def a b c)
  have small: "a0 * 16 + b1 < 64" "b0 * 4 + c1 < 64" using a b c by auto
  have parts: "a div 4 = a1" "a mod 4 = a0" "b div 16 = b1" "b mod 16 = b0" "c div 64 = c1"
    "c mod 64 = c0" using a b c by simp_all
  show "b64_group a b c div 2 ^ 18 mod 64 = a div 4"
    "b64_group a b c div 2 ^ 12 mod 64 = a mod 4 * 16 + b div 16"
    "b64_group a b c div 2 ^ 6 mod 64 = b mod 16 * 4 + c div 64"
    "b64_group a b c div 2 ^ 0 mod 64 = c mod 64"
    unfolding parts by (rule base64_digits [OF a(3) small c(2) n])+
qed

lemma of_char_less [simp]: "(of_char c :: nat) < 256"
  by (simp add: less_eq_char_def)
lemma b64_octets:
  fixes a b c :: nat
  assumes "a < 256" "b < 256" "c < 256"
  shows "a div 4 * 4 + (a mod 4 * 16 + b div 16) div 16 = a"
    "(a mod 4 * 16 + b div 16) mod 16 * 16 + (b mod 16 * 4 + c div 64) div 4 = b"
    "(b mod 16 * 4 + c div 64) mod 4 * 64 + c mod 64 = c"
proof -
  have "b div 16 < 16" "c div 64 < 4" using assms by auto
  then show "a div 4 * 4 + (a mod 4 * 16 + b div 16) div 16 = a"
    "(a mod 4 * 16 + b div 16) mod 16 * 16 + (b mod 16 * 4 + c div 64) div 4 = b"
    "(b mod 16 * 4 + c div 64) mod 4 * 64 + c mod 64 = c" by simp_all
qed

text \<open>
  The SASL payload survives its encoding: decoding what \<open>append_base64\<close> writes with the
  padded alphabet of RFC 4648 returns the payload, for every octet string.
\<close>

lemma base64_roundtrip: "b64_decode (append_base64 v) = Some v"
proof (induction v rule: append_base64.induct)
  case (1 a b c rest)
  have "of_char b div 16 < (16 :: nat)" "of_char c div 64 < (4 :: nat)"
    by (simp_all add: less_mult_imp_div_less)
  with 1 show ?case
    using b64_octets [of "of_char a" "of_char b" "of_char c"]
      b64_digits_of_group [of "of_char a" "of_char b" "of_char c"]
    by (simp add: Let_def)
next
  case (2 a b)
  have "of_char b div 16 < (16 :: nat)" by (simp add: less_mult_imp_div_less)
  then show ?case
    using b64_octets [of "of_char a" "of_char b" 0] b64_digits_of_group [of "of_char a" "of_char b" 0]
    by (simp add: Let_def)
next
  case (3 a)
  show ?case
    using b64_octets [of "of_char a" 0 0] b64_digits_of_group [of "of_char a" 0 0]
    by (simp add: Let_def)
qed simp

section \<open>What a command puts on the wire\<close>

definition clean :: "octets \<Rightarrow> bool" where
  "clean v \<longleftrightarrow> CR \<notin> set v \<and> LF \<notin> set v"

lemma clean_simps [simp]:
  "clean []" "clean (c # v) \<longleftrightarrow> c \<noteq> CR \<and> c \<noteq> LF \<and> clean v" "clean (u @ v) \<longleftrightarrow> clean u \<and> clean v"
  by (auto simp: clean_def)

lemma clean_escape [simp]: "clean (escape_quoted v) \<longleftrightarrow> clean v"
  by (induction v) (auto simp: is_quoted_special_def)

lemma clean_quote [simp]: "clean (quote v) \<longleftrightarrow> clean v"
  by (simp add: quote_def)

lemma list_all_clean: "list_all p v \<Longrightarrow> \<not> p CR \<Longrightarrow> \<not> p LF \<Longrightarrow> clean v"
  by (auto simp: clean_def list_all_iff)

lemma atom_safe_clean: "atom_safe v \<Longrightarrow> clean v"
  unfolding atom_safe_def by (elim conjE, erule list_all_clean) simp_all

lemma clean_append_arg [simp]: "clean (append_arg v wire) \<longleftrightarrow> clean wire \<and> clean v"
  by (auto simp: append_arg_def dest: atom_safe_clean)

lemma clean_to_chars [simp]: "clean (to_chars n)"
  by (rule list_all_clean [OF to_chars_digits]) simp_all

lemma clean_sp_join: "list_all clean xs \<Longrightarrow> clean (sp_join xs)"
  by (induction xs) auto

lemma clean_emit_names: "list_all (clean \<circ> snd) sel \<Longrightarrow> clean (emit_names sel)"
  unfolding emit_names_def by (rule clean_sp_join) (auto simp: list_all_iff)

lemma clean_flag_name [simp]: "clean (flag_name f)"
  by (cases f) auto

lemma clean_flag_names [simp]: "clean (append_flag_names f)" "clean (append_flags f)" "clean (append_items i)"
  by (simp_all add: append_flag_names_def append_flags_def append_items_def clean_emit_names)

lemma clean_mode_name [simp]: "clean (mode_name m)"
  by (cases m) auto

lemma render_astring_clean: "render_astring v out = Some w \<Longrightarrow> \<exists>r. w = out @ r \<and> clean r"
proof -
  assume a: "render_astring v out = Some w"
  have "clean v"
  proof (cases "classify_astring v = Atom_class")
    case True
    then have "list_all is_astring_char v" by (auto simp: classify_astring_alt split: if_splits)
    then show ?thesis by (rule list_all_clean) (simp_all add: is_astring_char_def is_resp_special_def)
  next
    case False
    then have "list_all is_text_char v"
      using a by (auto simp: render_astring_def render_quoted_def split: if_splits astring_class.splits)
    then show ?thesis by (rule list_all_clean) (simp_all add: is_text_char_def)
  qed
  moreover have "w = out @ v \<or> w = out @ quote v"
    using a by (auto simp: render_astring_def render_quoted_def split: if_splits astring_class.splits)
  ultimately show ?thesis by auto
qed

text \<open>The arguments that have to be free of line ends; the others are sent as literals or encoded.\<close>

fun args_clean :: "command_args \<Rightarrow> bool" where
  "args_clean (Authenticate m r ir) \<longleftrightarrow> clean m"
| "args_clean (Select mb) \<longleftrightarrow> clean mb"
| "args_clean (Examine mb) \<longleftrightarrow> clean mb"
| "args_clean (Create mb) \<longleftrightarrow> clean mb"
| "args_clean (Delete mb) \<longleftrightarrow> clean mb"
| "args_clean (Rename a b) \<longleftrightarrow> clean a \<and> clean b"
| "args_clean (Subscribe mb) \<longleftrightarrow> clean mb"
| "args_clean (Unsubscribe mb) \<longleftrightarrow> clean mb"
| "args_clean (List_mailboxes r p) \<longleftrightarrow> clean r \<and> clean p"
| "args_clean (Status mb i) \<longleftrightarrow> clean mb"
| "args_clean (Append_message mb m f d lp) \<longleftrightarrow> clean mb \<and> clean d"
| "args_clean (Search c) \<longleftrightarrow> clean c"
| "args_clean (Uid_search c) \<longleftrightarrow> clean c"
| "args_clean (Store s f m) \<longleftrightarrow> clean s"
| "args_clean (Uid_store s f m) \<longleftrightarrow> clean s"
| "args_clean (Copy s mb) \<longleftrightarrow> clean s"
| "args_clean (Uid_copy s mb) \<longleftrightarrow> clean s"
| "args_clean (Move s mb) \<longleftrightarrow> clean s"
| "args_clean (Uid_move s mb) \<longleftrightarrow> clean s"
| "args_clean (Raw l) \<longleftrightarrow> clean l"
| "args_clean (Fetch s i) \<longleftrightarrow> clean s \<and> list_all (clean \<circ> specifier) (sections i)"
| "args_clean (Uid_fetch s i) \<longleftrightarrow> clean s \<and> list_all (clean \<circ> specifier) (sections i)"
| "args_clean (Fetch_envelopes s) \<longleftrightarrow> clean s"
| "args_clean (Uid_fetch_envelopes s) \<longleftrightarrow> clean s"
| "args_clean (Fetch_headers s fs) \<longleftrightarrow> clean s"
| "args_clean (Uid_fetch_headers s fs) \<longleftrightarrow> clean s"
| "args_clean (Fetch_message s) \<longleftrightarrow> clean s"
| "args_clean (Uid_fetch_message s) \<longleftrightarrow> clean s"
| "args_clean _ \<longleftrightarrow> True"

fun line_of :: "wire_state \<Rightarrow> octets option" where
  "line_of (Once wire e) = Some wire"
| "line_of (Pending line p) = Some line"
| "line_of (Idle_wire segment ph p d) = Some segment"
| "line_of (Segmented wire segs e u) = None"

text \<open>Exactly one line: CR and LF occur only as the final pair.\<close>

fun one_line :: "octets \<Rightarrow> bool" where
  "one_line [] \<longleftrightarrow> False"
| "one_line (c # w) \<longleftrightarrow> (if c = CR then w = [LF] else c \<noteq> LF \<and> one_line w)"

lemma one_line_append [simp]: "clean l \<Longrightarrow> one_line (l @ w) \<longleftrightarrow> one_line w"
  by (induction l) auto

lemma one_line_iff: "one_line w \<longleftrightarrow> (\<exists>l. clean l \<and> w = l @ CRLF)"
proof
  show "one_line w \<Longrightarrow> \<exists>l. clean l \<and> w = l @ CRLF"
  proof (induction w)
    case (Cons c w)
    show ?case
    proof (cases "c = CR")
      case True
      with Cons.prems show ?thesis by (intro exI [of _ "[]"]) simp
    next
      case False
      with Cons obtain l where "clean l" "w = l @ CRLF" by auto
      with Cons.prems False show ?thesis by (intro exI [of _ "c # l"]) auto
    qed
  qed simp
qed auto

lemmas line_renders = noop_render_def capability_render_def logout_render_def starttls_render_def
  close_render_def expunge_render_def select_render_def examine_render_def create_render_def
  delete_render_def rename_render_def subscribe_render_def unsubscribe_render_def list_render_def
  search_render_def uid_search_render_def raw_render_def status_render_def store_render_def
  uid_store_render_def fetch_envelopes_render_def uid_fetch_envelopes_render_def fetch_message_render_def
  uid_fetch_message_render_def

lemmas astring_renders = copy_render_def uid_copy_render_def move_render_def uid_move_render_def

lemma render_fields_clean: "render_fields first fs line = Some w \<Longrightarrow> \<exists>r. w = line @ r \<and> clean r"
proof (induction fs arbitrary: first line)
  case (Cons f fs)
  then obtain line' where r: "render_astring f (if first then line else line @ '' '') = Some line'"
      "render_fields False fs line' = Some w" by (auto split: option.splits)
  obtain r1 where r1: "line' = (if first then line else line @ '' '') @ r1" "clean r1"
    using render_astring_clean [OF r(1)] by blast
  obtain r2 where r2: "w = line' @ r2" "clean r2" using Cons.IH [OF r(2)] by blast
  show ?case using r1 r2 by (cases first) auto
qed simp

lemma clean_drop_space: "clean l \<Longrightarrow> clean (drop_last_space l)"
  by (auto simp: drop_last_space_def clean_def dest: in_set_butlastD)

lemma clean_fetch_items: "list_all (clean \<circ> specifier) (sections i) \<Longrightarrow> clean (append_fetch_items i)"
proof -
  assume s: "list_all (clean \<circ> specifier) (sections i)"
  have "clean (concat (map (\<lambda>s. (if peek_section s then ''BODY.PEEK['' else ''BODY['') @ specifier s @ ''] '') ss))"
    if "list_all (clean \<circ> specifier) ss" for ss using that by (induction ss) auto
  then show ?thesis using s by (simp add: append_fetch_items_def)
qed

lemma fetch_one_line:
  assumes "clean tag" "clean s" "list_all (clean \<circ> specifier) (sections i)"
  shows "one_line (fetch_render s i tag)" "one_line (uid_fetch_render s i tag)"
  using assms clean_drop_space clean_fetch_items
  by (simp_all add: fetch_render_def uid_fetch_render_def)

lemma fetch_headers_one_line:
  assumes "clean tag" "clean s"
  shows "fetch_headers_render s fs tag = Some w \<Longrightarrow> one_line w"
    "uid_fetch_headers_render s fs tag = Some w \<Longrightarrow> one_line w"
  using assms by (auto simp: fetch_headers_render_def uid_fetch_headers_render_def dest!: render_fields_clean)

text \<open>
  A line command is one line: when the tag and the arguments that are sent as they are contain
  no line ends, a command that is not split into segments renders to a text whose only CR and LF are
  the final CRLF, so that no argument can start a second command.
\<close>

theorem single_line:
  assumes "render_wire a tag (new_wire a) = Some w" "line_of w = Some line"
    and "clean tag" "args_clean a"
  shows "one_line line"
proof (cases a)
  case (Copy s mb)
  then show ?thesis using assms by (auto simp: astring_renders dest!: render_astring_clean)
next
  case (Uid_copy s mb)
  then show ?thesis using assms by (auto simp: astring_renders dest!: render_astring_clean)
next
  case (Move s mb)
  then show ?thesis using assms by (auto simp: astring_renders dest!: render_astring_clean)
next
  case (Uid_move s mb)
  then show ?thesis using assms by (auto simp: astring_renders dest!: render_astring_clean)
next
  case (Login u p lp)
  then show ?thesis using assms by (auto simp: login_render_def Let_def)
next
  case (Authenticate m r ir)
  then show ?thesis using assms by (auto simp: authenticate_render_def Let_def split: if_splits)
next
  case (Append_message mb m f d lp)
  then show ?thesis using assms by (auto simp: append_render_def Let_def)
next
  case (Fetch_headers s fs)
  then show ?thesis using assms fetch_headers_one_line(1) by auto
next
  case (Uid_fetch_headers s fs)
  then show ?thesis using assms fetch_headers_one_line(2) by auto
next
  case (Fetch s i)
  then show ?thesis using assms fetch_one_line(1) by auto
next
  case (Uid_fetch s i)
  then show ?thesis using assms fetch_one_line(2) by auto
qed (use assms in \<open>auto simp: line_renders idle_render_def\<close>)

theorem single_line_witness:
  "one_line (create_render ''my box'' ''a0001'')"
  by (rule single_line [of "Create ''my box''" "''a0001''" "Once (create_render ''my box'' ''a0001'') False"])
    simp_all

text \<open>
  The arguments are not checked for line ends: a mailbox name with a CR or an LF is sent inside
  quotes, where the line ends take effect, so that CREATE renders to more than one line. The same
  holds of the other commands that append their arguments this way.
\<close>

theorem mailbox_line_injection:
  assumes "\<not> clean mailbox"
  shows "\<not> one_line (create_render mailbox tag)"
proof
  assume "one_line (create_render mailbox tag)"
  then obtain l where "clean l" "create_render mailbox tag = l @ CRLF" by (auto simp: one_line_iff)
  then show False using assms by (auto simp: create_render_def)
qed

theorem mailbox_line_injection_witness:
  "\<not> one_line (create_render (''x'' @ CRLF @ ''a0002 DELETE INBOX'') ''a0001'')"
  by (rule mailbox_line_injection) simp

section \<open>Literals on the wire\<close>

lemma clean_no_crlf: "clean l \<Longrightarrow> no_crlf l"
  unfolding no_crlf_def
proof (induction l rule: split_crlf.induct)
  case (1 a b xs)
  then show ?case by auto
qed auto

abbreviation plus_mark :: "bool \<Rightarrow> octets" where
  "plus_mark lp \<equiv> (if lp then ''+'' else [])"

lemma framed_literal_arg:
  assumes "clean x" "length v \<le> u64_max" "framed t"
  shows "framed (x @ '' {'' @ to_chars (length v) @ plus_mark lp @ ''}'' @ CRLF @ v @ t)"
proof -
  let ?l = "x @ '' {'' @ to_chars (length v) @ plus_mark lp @ ''}''"
  have "trailer_shape ?l (x @ '' '') (to_chars (length v)) (plus_mark lp)"
    by (simp add: trailer_shape_def to_chars_digits)
  then have "literal_trailer ?l = Some (length v)"
    using assms(2) literal_trailer_shape by fastforce
  moreover have "no_crlf ?l" using assms(1) by (intro clean_no_crlf) simp
  ultimately have "framed (?l @ CRLF @ v @ t)" using assms(3) by (intro framed.literal) auto
  then show ?thesis by simp
qed

lemma no_trailer:
  assumes "v = quote u \<or> CHR ''{'' \<notin> set v"
  shows "literal_trailer (x @ SP # v) = None"
proof (rule ccontr)
  assume "literal_trailer (x @ SP # v) \<noteq> None"
  then obtain n where "literal_trailer (x @ SP # v) = Some n" by auto
  then obtain pre ds pl where sh: "trailer_shape (x @ SP # v) pre ds pl"
    using literal_trailer_SomeD by metis
  then have eq: "x @ SP # v = pre @ ''{'' @ ds @ pl @ ''}''" and dig: "list_all is_digit ds"
    and pl: "pl = [] \<or> pl = ''+''" by (auto simp: trailer_shape_def)
  have "last (x @ SP # v) = CHR ''}''" unfolding eq by simp
  then have "v \<noteq> quote u" by (auto simp: quote_def)
  then have nb: "CHR ''{'' \<notin> set v" using assms by blast
  have nosp: "SP \<notin> set (''{'' @ ds @ pl @ ''}'')" using dig pl by (auto simp: list_all_iff)
  from eq consider us where "x @ [SP] @ us = pre" | us where "x = pre @ us" "us @ SP # v = ''{'' @ ds @ pl @ ''}''"
    | us where "pre = x @ us" "SP # v = us @ ''{'' @ ds @ pl @ ''}''"
    by (auto simp: append_eq_append_conv2)
  then show False
  proof cases
    case 1
    then have "v = us @ ''{'' @ ds @ pl @ ''}''" using eq by auto
    then show ?thesis using nb by auto
  next
    case 2
    then have "SP \<in> set (''{'' @ ds @ pl @ ''}'')" by (metis in_set_conv_decomp)
    then show ?thesis using nosp by blast
  next
    case 3
    then have "CHR ''{'' \<in> set (SP # v)" by (metis append_Cons in_set_conv_decomp append_Nil)
    then show ?thesis using nb by auto
  qed
qed

lemma atom_safe_no_brace: "atom_safe v \<Longrightarrow> CHR ''{'' \<notin> set v"
  by (auto simp: atom_safe_def list_all_iff)

lemma framed_plain_arg:
  assumes "clean x" "clean v"
  shows "framed (x @ SP # (if atom_safe v then v else quote v))"
proof (rule framed.plain)
  show "no_crlf (x @ SP # (if atom_safe v then v else quote v))"
    using assms by (intro clean_no_crlf) simp
  show "literal_trailer (x @ SP # (if atom_safe v then v else quote v)) = None"
    by (rule no_trailer) (auto dest: atom_safe_no_brace)
qed

lemma framed_Nil: "framed []"
  by (rule framed.plain) (simp_all add: no_crlf_def literal_trailer_def)

fun segments :: "wire_state \<Rightarrow> octets list" where
  "segments (Segmented wire segs e u) = map (\<lambda>(off, stop). take (stop - off) (drop off wire)) segs"
| "segments w = []"

lemma login_arg_cases:
  "login_append_arg lp v b =
     (if clean v then b\<lparr>lb_wire := lb_wire b @ (if atom_safe v then v else quote v)\<rparr>
      else
        (let b2 = close_segment (b\<lparr>lb_wire := lb_wire b @ ''{'' @ to_chars (length v) @ plus_mark lp @ ''}'' @ CRLF\<rparr>)
         in b2\<lparr>lb_walls := lb_walls b2 + 1, lb_wire := lb_wire b2 @ v\<rparr>))"
  using atom_safe_clean [of v] by (auto simp: login_append_arg_def clean_def)

text \<open>The offsets of consecutive segments.\<close>

fun offsets :: "nat \<Rightarrow> octets list \<Rightarrow> (nat \<times> nat) list" where
  "offsets k [] = []"
| "offsets k (s # ss) = (k, k + length s) # offsets (k + length s) ss"

lemma offsets_append: "offsets k (ss @ ts) = offsets k ss @ offsets (k + length (concat ss)) ts"
  by (induction ss arbitrary: k) (simp_all add: add.assoc)

lemma length_offsets [simp]: "length (offsets k ss) = length ss"
  by (induction ss arbitrary: k) simp_all

lemma cut_offsets:
  "map (\<lambda>(off, stop). take (stop - off) (drop off (pre @ concat ss))) (offsets (length pre) ss) = ss"
proof (induction ss arbitrary: pre)
  case (Cons s ss)
  show ?case using Cons.IH [of "pre @ s"] by simp
qed simp

lemma segments_offsets [simp]: "segments (Segmented (concat ss) (offsets 0 ss) e u) = ss"
  using cut_offsets [of "[]" ss] by simp

definition built :: "login_build \<Rightarrow> octets list \<Rightarrow> octets \<Rightarrow> bool" where
  "built b ss cur \<longleftrightarrow> lb_wire b = concat ss @ cur \<and> lb_segs b = offsets 0 ss \<and>
     lb_begin b = length (concat ss) \<and> lb_walls b = length ss"

lemma built_plain:
  "built b ss cur \<Longrightarrow> clean v \<Longrightarrow>
     built (login_append_arg lp v b) ss (cur @ (if atom_safe v then v else quote v))"
  by (simp add: built_def login_arg_cases)

lemma built_literal:
  "built b ss cur \<Longrightarrow> \<not> clean v \<Longrightarrow> length ss < 4 \<Longrightarrow>
     built (login_append_arg lp v b)
       (ss @ [cur @ ''{'' @ to_chars (length v) @ plus_mark lp @ ''}'' @ CRLF]) v"
  by (simp add: built_def login_arg_cases close_segment_def Let_def offsets_append)

lemma built_wire: "built b ss cur \<Longrightarrow> built (b\<lparr>lb_wire := lb_wire b @ x\<rparr>) ss (cur @ x)"
  by (simp add: built_def)

definition login_arg :: "octets \<Rightarrow> octets" where
  "login_arg v = SP # (if atom_safe v then v else quote v)"

definition login_mark :: "bool \<Rightarrow> octets \<Rightarrow> octets" where
  "login_mark lp v = '' {'' @ to_chars (length v) @ plus_mark lp @ ''}'' @ CRLF"

definition login_segments :: "octets \<Rightarrow> octets \<Rightarrow> bool \<Rightarrow> octets \<Rightarrow> octets list" where
  "login_segments u p lp tag =
     (if clean u then
        (if clean p then [tag @ '' LOGIN'' @ login_arg u @ login_arg p @ CRLF]
         else [tag @ '' LOGIN'' @ login_arg u @ login_mark lp p, p @ CRLF])
      else
        (if clean p then [tag @ '' LOGIN'' @ login_mark lp u, u @ login_arg p @ CRLF]
         else [tag @ '' LOGIN'' @ login_mark lp u, u @ login_mark lp p, p @ CRLF]))"

lemma login_finish:
  assumes "built b ss cur" "length ss < 4"
  shows "let b3 = close_segment (b\<lparr>lb_wire := lb_wire b @ CRLF\<rparr>)
     in Segmented (lb_wire b3) (lb_segs b3) 0 (if lb_walls b3 = 0 \<or> lp then length (lb_segs b3) else 1) =
        Segmented (concat (ss @ [cur @ CRLF])) (offsets 0 (ss @ [cur @ CRLF])) 0
          (if ss = [] \<or> lp then length ss + 1 else 1)"
  using assms by (simp add: built_def close_segment_def Let_def offsets_append)

lemma login_render_eq:
  "login_render u p lp tag =
     Segmented (concat (login_segments u p lp tag)) (offsets 0 (login_segments u p lp tag)) 0
       (if length (login_segments u p lp tag) = 1 \<or> lp then length (login_segments u p lp tag) else 1)"
proof -
  let ?b0 = "\<lparr>lb_wire = tag @ '' LOGIN '', lb_segs = [], lb_begin = 0, lb_walls = 0\<rparr>"
  have b0: "built ?b0 [] (tag @ '' LOGIN '')" by (simp add: built_def)
  obtain ss cur where b1: "built (login_append_arg lp u ?b0) ss cur"
    and f1: "length ss \<le> 1" "(ss, cur) = (if clean u then ([], tag @ '' LOGIN'' @ login_arg u)
      else ([tag @ '' LOGIN'' @ login_mark lp u], u))"
    using built_plain [OF b0, of u lp] built_literal [OF b0, of u lp]
    by (cases "clean u") (auto simp: login_arg_def login_mark_def)
  let ?b1 = "login_append_arg lp u ?b0"
  have b1': "built (?b1\<lparr>lb_wire := lb_wire ?b1 @ '' ''\<rparr>) ss (cur @ '' '')" by (rule built_wire [OF b1])
  obtain ss2 cur2 where b2: "built (login_append_arg lp p (?b1\<lparr>lb_wire := lb_wire ?b1 @ '' ''\<rparr>)) ss2 cur2"
    and f2: "length ss2 < 4" "(ss2, cur2) = (if clean p then (ss, cur @ login_arg p)
      else (ss @ [cur @ login_mark lp p], p))"
    using built_plain [OF b1', of p lp] built_literal [OF b1', of p lp] f1(1)
    by (cases "clean p") (auto simp: login_arg_def login_mark_def)
  have "login_render u p lp tag = Segmented (concat (ss2 @ [cur2 @ CRLF])) (offsets 0 (ss2 @ [cur2 @ CRLF])) 0
          (if ss2 = [] \<or> lp then length ss2 + 1 else 1)"
    using login_finish [OF b2 f2(1), of lp] by (simp add: login_render_def Let_def)
  moreover have "login_segments u p lp tag = ss2 @ [cur2 @ CRLF]"
    using f1(2) f2(2) by (auto simp: login_segments_def split: if_splits)
  ultimately show ?thesis by simp
qed

lemma append_render_eq:
  "append_render mb m f d lp tag =
     (let head = append_arg mb (tag @ '' APPEND'' @ '' '') @ (if flag_any f then append_flags f else []) @
            (if d \<noteq> [] then '' '' @ quote d else []) @ login_mark lp m
      in Segmented (concat [head, m @ CRLF]) (offsets 0 [head, m @ CRLF]) 0 (if lp then 2 else 1))"
  by (simp add: append_render_def login_mark_def Let_def)

lemma login_framed:
  assumes "clean tag" "length u \<le> u64_max" "length p \<le> u64_max"
  shows "\<exists>t. concat (login_segments u p lp tag) = t @ CRLF \<and> framed t"
proof -
  have last: "framed (login_arg p)" if "clean p"
    using framed_plain_arg [of "[]" p] that by (simp add: login_arg_def)
  have last2: "framed (login_mark lp p @ p)"
    using framed_literal_arg [of "[]" p "[]" lp] assms(3) framed_Nil by (simp add: login_mark_def)
  consider "clean u" "clean p" | "clean u" "\<not> clean p" | "\<not> clean u" "clean p" | "\<not> clean u" "\<not> clean p"
    by blast
  then show ?thesis
  proof cases
    case 1
    then show ?thesis
      using framed_plain_arg [of "tag @ '' LOGIN'' @ login_arg u" p] assms(1)
      by (intro exI [of _ "tag @ '' LOGIN'' @ login_arg u @ login_arg p"])
        (simp add: login_segments_def login_arg_def)
  next
    case 2
    then show ?thesis
      using framed_literal_arg [of "tag @ '' LOGIN'' @ login_arg u" p "[]" lp] assms framed_Nil
      by (intro exI [of _ "tag @ '' LOGIN'' @ login_arg u @ login_mark lp p @ p"])
        (simp add: login_segments_def login_arg_def login_mark_def)
  next
    case 3
    then show ?thesis
      using framed_literal_arg [of "tag @ '' LOGIN''" u "login_arg p" lp] assms last
      by (intro exI [of _ "tag @ '' LOGIN'' @ login_mark lp u @ u @ login_arg p"])
        (simp add: login_segments_def login_mark_def)
  next
    case 4
    then show ?thesis
      using framed_literal_arg [of "tag @ '' LOGIN''" u "login_mark lp p @ p" lp] assms last2
      by (intro exI [of _ "tag @ '' LOGIN'' @ login_mark lp u @ u @ login_mark lp p @ p"])
        (simp add: login_segments_def login_mark_def)
  qed
qed

lemma append_framed:
  assumes "clean tag" "clean mb" "clean d" "length m \<le> u64_max"
  shows "\<exists>t. append_arg mb (tag @ '' APPEND'' @ '' '') @ (if flag_any f then append_flags f else []) @
            (if d \<noteq> [] then '' '' @ quote d else []) @ login_mark lp m @ m @ CRLF = t @ CRLF \<and> framed t"
proof -
  let ?x = "append_arg mb (tag @ '' APPEND'' @ '' '') @ (if flag_any f then append_flags f else []) @
            (if d \<noteq> [] then '' '' @ quote d else [])"
  have "framed (?x @ '' {'' @ to_chars (length m) @ plus_mark lp @ ''}'' @ CRLF @ m @ [])"
    by (rule framed_literal_arg) (use assms framed_Nil in simp_all)
  then show ?thesis
    by (intro exI [of _ "?x @ login_mark lp m @ m"]) (simp add: login_mark_def)
qed


lemma small_le_u64: "n \<le> 100 \<Longrightarrow> n \<le> u64_max"
  by (simp add: u64_max_def)


end
