(* ===== verification/Fetch_Parse.thy ===== *)
theory Fetch_Parse
  imports Parser Mail
begin

text \<open>
  The deep parsers of FETCH payloads in \<open>imap/detail/fetch_parse.h\<close>: flag lists, address lists,
  envelopes, body structures and the walk over the attribute list with its three sinks.

  A parser is a function from a cursor to an \<open>outcome\<close>: the value and the cursor behind it,
  \<open>Malformed\<close> for a \<open>false\<close> return, and \<open>Dangling\<close> when the code reads a view into the
  scratch buffer after the buffer was rewritten. What a failing parser has filled in so far and
  where it stopped is not kept: every caller drops both.

  The walk takes its sink as a function argument and has no bound of its own, so it is a
  \<open>partial_function\<close>; the locale \<open>attribute_sink\<close> is the contract under which it returns.
\<close>

section \<open>Outcomes\<close>

datatype 'a outcome = Done 'a | Malformed | Dangling

type_synonym 'a parsed = "('a \<times> cursor) outcome"

fun andthen :: "'a outcome \<Rightarrow> ('a \<Rightarrow> 'b outcome) \<Rightarrow> 'b outcome" where
  "andthen (Done x) k = k x"
| "andthen Malformed k = Malformed"
| "andthen Dangling k = Dangling"

lemma andthen_cong [fundef_cong]:
  "p = q \<Longrightarrow> (\<And>x. q = Done x \<Longrightarrow> k x = l x) \<Longrightarrow> andthen p k = andthen q l"
  by (cases q) auto

lemma andthen_Done: "andthen p k = Done y \<longleftrightarrow> (\<exists>x. p = Done x \<and> k x = Done y)"
  by (cases p) auto

section \<open>Small readers\<close>

definition expect :: "char \<Rightarrow> cursor \<Rightarrow> unit parsed" where
  "expect ch c = (case try_consume ch c of (True, c') \<Rightarrow> Done ((), c') | (False, _) \<Rightarrow> Malformed)"

definition consume_nil :: "cursor \<Rightarrow> bool \<times> cursor" where
  "consume_nil c =
     (let rest = remaining c
      in if length rest < 3 \<or> \<not> ascii_iequals (take 3 rest) ''NIL'' then (False, c)
         else if length rest > 3 \<and> is_atom_char (rest ! 3) then (False, c)
         else try_consume_ci ''NIL'' c)"

definition read_nstr :: "octets \<Rightarrow> cursor \<Rightarrow> octets parsed" where
  "read_nstr m c =
     (case read_nstring c of
        (None, _) \<Rightarrow> Malformed
      | (Some None, c') \<Rightarrow> Done (m, c')
      | (Some (Some v), c') \<Rightarrow> Done (view_str v, c'))"

text \<open>A string that is copied as soon as it is read.\<close>

definition astr :: "cursor \<Rightarrow> octets parsed" where
  "astr c = (case read_astring c of (None, _) \<Rightarrow> Malformed | (Some v, c') \<Rightarrow> Done (view_str v, c'))"

definition num_at :: "cursor \<Rightarrow> nat parsed" where
  "num_at c = (case read_number c of (None, _) \<Rightarrow> Malformed | (Some n, c') \<Rightarrow> Done (n, c'))"

section \<open>Progress\<close>

named_theorems forward "parsers do not move backwards"

lemma read_string_progress: "read_string c = (Some v, c') \<Longrightarrow> rem_len c' < rem_len c"
  by (auto simp: read_string_def dest: read_quoted_progress read_literal_progress split: if_splits)

lemma read_nstring_forward: "read_nstring c = (Some v, c') \<Longrightarrow> rem_len c' \<le> rem_len c"
  by (auto simp: read_nstring_def Let_def rem_len_def remaining_def
      dest!: read_string_progress split: if_splits prod.splits option.splits)

lemma expect_forward: "expect ch c = Done q \<Longrightarrow> rem_len (snd q) < rem_len c"
  by (auto simp: expect_def dest: try_consume_True split: prod.splits bool.splits)

lemma nil_forward: "consume_nil c = (True, c') \<Longrightarrow> rem_len c' \<le> rem_len c"
  by (auto simp: consume_nil_def try_consume_ci_def Let_def rem_len_def split: if_splits)

lemma nil_same: "consume_nil c = (False, c') \<Longrightarrow> c' = c"
  by (auto simp: consume_nil_def try_consume_ci_def Let_def split: if_splits)

lemma read_nstr_forward: "read_nstr m c = Done q \<Longrightarrow> rem_len (snd q) \<le> rem_len c"
  by (auto simp: read_nstr_def dest: read_nstring_forward split: prod.splits option.splits)

lemma astr_forward: "astr c = Done q \<Longrightarrow> rem_len (snd q) < rem_len c"
  by (auto simp: astr_def dest: read_astring_progress split: prod.splits option.splits)

lemma num_forward: "num_at c = Done q \<Longrightarrow> rem_len (snd q) \<le> rem_len c"
  by (auto simp: num_at_def read_number_def rem_len_def read_while_eq Let_def
      split: prod.splits option.splits if_splits)

text \<open>\<open>within n p\<close>: a result of \<open>p\<close> leaves at most \<open>n\<close> octets unread.\<close>

definition within :: "nat \<Rightarrow> 'a parsed \<Rightarrow> bool" where
  "within n p \<longleftrightarrow> (\<forall>q. p = Done q \<longrightarrow> rem_len (snd q) \<le> n)"

lemma within_andthen [forward]:
  "within n p \<Longrightarrow> (\<And>x c. p = Done (x, c) \<Longrightarrow> rem_len c \<le> n \<Longrightarrow> within n (k (x, c))) \<Longrightarrow>
     within n (andthen p k)"
  by (cases p) (auto simp: within_def)

lemma within_Done [forward]: "rem_len c \<le> n \<Longrightarrow> within n (Done (x, c))"
  by (simp add: within_def)

lemma within_failed [forward, simp]: "within n Malformed" "within n Dangling"
  by (simp_all add: within_def)

lemma within_consume: "(True, c') = try_consume ch c \<Longrightarrow> rem_len c \<le> n \<Longrightarrow> rem_len c' \<le> n"
  using try_consume_True [of ch c c'] by simp

lemma within_skip [forward]: "rem_len c \<le> n \<Longrightarrow> rem_len (skip_spaces c) \<le> n"
  using skip_spaces_progress le_trans by blast

lemma within_readers [forward]:
  assumes "rem_len c \<le> n"
  shows "within n (expect ch c)" "within n (read_nstr m c)" "within n (astr c)" "within n (num_at c)"
  using assms expect_forward [of ch c] read_nstr_forward [of m c] astr_forward [of c]
    num_forward [of c]
  by (auto simp: within_def intro: le_trans less_imp_le)

lemma withinD: "within n p \<Longrightarrow> p = Done q \<Longrightarrow> rem_len (snd q) \<le> n"
  by (simp add: within_def)

section \<open>Skipping a value\<close>

text \<open>The values without parentheses.\<close>

definition skip_scalar :: "cursor \<Rightarrow> unit parsed" where
  "skip_scalar c =
     (if peek c = DQUOTE then
        (case read_quoted c of (None, _) \<Rightarrow> Malformed | (Some _, c') \<Rightarrow> Done ((), c'))
      else if peek c = CHR ''{'' \<or> peek c = CHR ''~'' then
        (case read_literal c of (None, _) \<Rightarrow> Malformed | (Some _, c') \<Rightarrow> Done ((), c'))
      else if at_end c then Malformed
      else (let (atom, c') = read_atom c in if atom = [] then Malformed else Done ((), c')))"

lemma skip_scalar_forward: "skip_scalar c = Done q \<Longrightarrow> rem_len (snd q) < rem_len c"
  using read_quoted_progress [of c] read_literal_progress [of c] read_atom_progress [of c]
  by (auto simp: skip_scalar_def split: if_splits prod.splits option.splits)

lemma skip_value_step:
  assumes "\<And>p. peek c = CHR ''('' \<Longrightarrow> expect (CHR ''('') c = Done p \<Longrightarrow>
      \<forall>q. g (snd p) = Done q \<longrightarrow> rem_len (snd q) \<le> rem_len (snd p)"
    and "(if peek c = CHR ''('' then andthen (expect (CHR ''('') c) (\<lambda>p. g (snd p)) else skip_scalar c) = Done r"
  shows "rem_len (snd r) < rem_len c"
proof (cases "peek c = CHR ''(''")
  case True
  then obtain q where q: "expect (CHR ''('') c = Done q" "g (snd q) = Done r"
    using assms(2) by (auto simp: andthen_Done)
  then show ?thesis using assms(1) [OF True q(1)] expect_forward [OF q(1)] by fastforce
qed (use assms(2) skip_scalar_forward in simp)

lemma skip_items_step:
  assumes "\<not> fst (try_consume (CHR '')'') (skip_spaces c)) \<Longrightarrow> \<not> at_end (skip_spaces c) \<Longrightarrow>
      \<forall>q. v (skip_spaces c) = Done q \<longrightarrow> rem_len (snd q) < rem_len (skip_spaces c)"
    and "\<And>p. \<not> fst (try_consume (CHR '')'') (skip_spaces c)) \<Longrightarrow> \<not> at_end (skip_spaces c) \<Longrightarrow>
      v (skip_spaces c) = Done p \<Longrightarrow> \<forall>q. g (snd p) = Done q \<longrightarrow> rem_len (snd q) \<le> rem_len (snd p)"
    and "(let c1 = skip_spaces c
      in case try_consume (CHR '')'') c1 of
           (True, c2) \<Rightarrow> Done ((), c2)
         | (False, _) \<Rightarrow> (if at_end c1 then Malformed else andthen (v c1) (\<lambda>p. g (snd p)))) = Done r"
  shows "rem_len (snd r) \<le> rem_len c"
proof -
  obtain b c2 where t: "try_consume (CHR '')'') (skip_spaces c) = (b, c2)" by force
  have s: "rem_len (skip_spaces c) \<le> rem_len c" by (rule skip_spaces_progress)
  show ?thesis
  proof (cases b)
    case True
    then show ?thesis using assms(3) t try_consume_True s by fastforce
  next
    case False
    then obtain q where q: "v (skip_spaces c) = Done q" "g (snd q) = Done r" "\<not> at_end (skip_spaces c)"
      using assms(3) t by (auto simp: andthen_Done Let_def split: if_splits)
    then show ?thesis using assms(1,2) t False s by fastforce
  qed
qed

function skip_value :: "cursor \<Rightarrow> unit parsed" and skip_items :: "cursor \<Rightarrow> unit parsed" where
  "skip_value c =
     (if peek c = CHR ''('' then andthen (expect (CHR ''('') c) (\<lambda>p. skip_items (snd p))
      else skip_scalar c)"
| "skip_items c =
     (let c1 = skip_spaces c
      in case try_consume (CHR '')'') c1 of
           (True, c2) \<Rightarrow> Done ((), c2)
         | (False, _) \<Rightarrow>
             (if at_end c1 then Malformed
              else andthen (skip_value c1) (\<lambda>p. skip_items (snd p))))"
  by pat_completeness auto
termination
proof -
  have forward: "skip_value_skip_items_dom (Inl c) \<Longrightarrow> \<forall>q. skip_value c = Done q \<longrightarrow> rem_len (snd q) < rem_len c"
    "skip_value_skip_items_dom (Inr c) \<Longrightarrow> \<forall>q. skip_items c = Done q \<longrightarrow> rem_len (snd q) \<le> rem_len c" for c
  proof (induction rule: skip_value_skip_items.pinduct)
    case (1 c)
    show ?case
      unfolding skip_value.psimps [OF 1(1)] by (intro allI impI, rule skip_value_step [where g = skip_items]) (use 1(2) in auto)
  next
    case (2 c)
    show ?case
      unfolding skip_items.psimps [OF 2(1)]
      by (intro allI impI, rule skip_items_step [where v = skip_value and g = skip_items])
        (use 2(2,3) [OF refl prod.collapse] in auto)
  qed
  show "All skip_value_skip_items_dom"
  proof (relation "measure (case_sum (\<lambda>c. 2 * rem_len c) (\<lambda>c. 2 * rem_len c + 1))", goal_cases)
    case (2 c x)
    then show ?case using expect_forward [of _ c x] by fastforce
  next
    case (3 c)
    then show ?case using skip_spaces_progress [of c] by simp
  next
    case (4 c)
    then show ?case using forward(1) [of "skip_spaces c"] skip_spaces_progress [of c] by fastforce
  qed simp
qed

declare skip_value.simps [simp del] skip_items.simps [simp del]

lemma skip_forward:
  "\<forall>q. skip_value c = Done q \<longrightarrow> rem_len (snd q) < rem_len c"
  "\<forall>q. skip_items c = Done q \<longrightarrow> rem_len (snd q) \<le> rem_len c"
proof (induction c and c rule: skip_value_skip_items.induct)
  case (1 c)
  show ?case
    unfolding skip_value.simps [of c] by (intro allI impI, rule skip_value_step [where g = skip_items]) (use 1 in auto)
next
  case (2 c)
  show ?case
    unfolding skip_items.simps [of c]
    by (intro allI impI, rule skip_items_step [where v = skip_value and g = skip_items])
      (use 2(1,2) [OF refl prod.collapse] in auto)
qed

lemma skip_value_forward: "skip_value c = Done q \<Longrightarrow> rem_len (snd q) < rem_len c"
  using skip_forward(1) by blast

section \<open>Flags and envelopes\<close>

definition fetch_flag :: "octets \<Rightarrow> flag_set \<Rightarrow> flag_set" where
  "fetch_flag name fs =
     (if ascii_iequals name (BSLASH # ''Seen'') then flag_set_flag fs Seen True
      else if ascii_iequals name (BSLASH # ''Answered'') then flag_set_flag fs Answered True
      else if ascii_iequals name (BSLASH # ''Flagged'') then flag_set_flag fs Flagged True
      else if ascii_iequals name (BSLASH # ''Deleted'') then flag_set_flag fs Deleted True
      else if ascii_iequals name (BSLASH # ''Draft'') then flag_set_flag fs Draft True
      else if ascii_iequals name (BSLASH # ''Recent'') then flag_set_flag fs Recent True
      else fs)"

function fetch_flag_items :: "cursor \<Rightarrow> flag_set \<Rightarrow> flag_set parsed" where
  "fetch_flag_items c fs =
     (let c1 = skip_spaces c
      in case try_consume (CHR '')'') c1 of
           (True, c2) \<Rightarrow> Done (fs, c2)
         | (False, _) \<Rightarrow>
             (if at_end c1 then Malformed
              else
                (let r = read_until_any '' ()'' c1
                 in if fst r = [] then Malformed
                    else fetch_flag_items (snd r) (fetch_flag (fst r) fs))))"
  by pat_completeness auto
termination
proof (relation "measure (\<lambda>(c, fs). rem_len c)", goal_cases)
  case (2 c fs)
  then show ?case
    using read_until_progress [of "'' ()''" "skip_spaces c"] skip_spaces_progress [of c]
    by (cases "read_until_any '' ()'' (skip_spaces c)") auto
qed simp

declare fetch_flag_items.simps [simp del]

definition fetch_flag_list :: "cursor \<Rightarrow> flag_set \<Rightarrow> flag_set parsed" where
  "fetch_flag_list c fs = andthen (expect (CHR ''('') c) (\<lambda>p. fetch_flag_items (snd p) fs)"

text \<open>One address tuple, behind its opening parenthesis.\<close>

definition parse_address :: "cursor \<Rightarrow> address parsed" where
  "parse_address c =
     andthen (read_nstr [] c) (\<lambda>(name, c1).
     andthen (read_nstr [] (skip_spaces c1)) (\<lambda>(adl, c2).
     andthen (read_nstr [] (skip_spaces c2)) (\<lambda>(mailbox, c3).
     andthen (read_nstr [] (skip_spaces c3)) (\<lambda>(host, c4).
     andthen (expect (CHR '')'') c4) (\<lambda>(_, c5).
       Done (\<lparr>ad_display_name = name, ad_adl = adl, ad_mailbox_name = mailbox, ad_host_name = host\<rparr>,
             c5))))))"

lemma parse_address_within [forward]: "rem_len c \<le> n \<Longrightarrow> within n (parse_address c)"
  unfolding parse_address_def split_def by (intro forward) simp_all

function address_items :: "cursor \<Rightarrow> address list \<Rightarrow> address list parsed" where
  "address_items c out =
     (let c1 = skip_spaces c
      in case try_consume (CHR '')'') c1 of
           (True, c2) \<Rightarrow> Done (out, c2)
         | (False, _) \<Rightarrow>
             (if at_end c1 then Malformed
              else andthen (expect (CHR ''('') c1) (\<lambda>p.
                   andthen (parse_address (snd p)) (\<lambda>q. address_items (snd q) (out @ [fst q])))))"
  by pat_completeness auto
termination
proof (relation "measure (\<lambda>(c, out). rem_len c)", goal_cases)
  case (2 c out)
  then show ?case
    using expect_forward [of _ "skip_spaces c"] withinD [OF parse_address_within [OF order_refl]]
      skip_spaces_progress [of c] by fastforce
qed simp

declare address_items.simps [simp del]

definition parse_address_list :: "cursor \<Rightarrow> address list \<Rightarrow> address list parsed" where
  "parse_address_list c out =
     (case consume_nil c of
        (True, c1) \<Rightarrow> Done (out, c1)
      | (False, c1) \<Rightarrow> andthen (expect (CHR ''('') c1) (\<lambda>p. address_items (snd p) out))"

definition parse_envelope :: "cursor \<Rightarrow> envelope \<Rightarrow> envelope parsed" where
  "parse_envelope c out =
     andthen (expect (CHR ''('') c) (\<lambda>(_, c0).
     andthen (read_nstr (env_date out) c0) (\<lambda>(date, c1).
     andthen (read_nstr (env_subject out) (skip_spaces c1)) (\<lambda>(subject, c2).
     andthen (parse_address_list (skip_spaces c2) (env_from out)) (\<lambda>(from, c3).
     andthen (parse_address_list (skip_spaces c3) (env_sender out)) (\<lambda>(sender, c4).
     andthen (parse_address_list (skip_spaces c4) (env_reply_to out)) (\<lambda>(reply_to, c5).
     andthen (parse_address_list (skip_spaces c5) (env_to out)) (\<lambda>(to, c6).
     andthen (parse_address_list (skip_spaces c6) (env_cc out)) (\<lambda>(cc, c7).
     andthen (parse_address_list (skip_spaces c7) (env_bcc out)) (\<lambda>(bcc, c8).
     andthen (read_nstr (env_in_reply_to out) (skip_spaces c8)) (\<lambda>(in_reply_to, c9).
     andthen (read_nstr (env_message_id out) (skip_spaces c9)) (\<lambda>(message_id, c10).
     andthen (expect (CHR '')'') c10) (\<lambda>(_, c11).
       Done (\<lparr>env_date = date, env_subject = subject, env_from = from, env_sender = sender,
              env_reply_to = reply_to, env_to = to, env_cc = cc, env_bcc = bcc,
              env_in_reply_to = in_reply_to, env_message_id = message_id\<rparr>, c11)))))))))))))"

section \<open>Body structures\<close>

lemma astring_pair_progress:
  "(Some u, c2) = read_astring (skip_spaces c) \<Longrightarrow> (Some v, c3) = read_astring (skip_spaces c2) \<Longrightarrow>
     rem_len c3 < rem_len c"
  using read_astring_progress [of "skip_spaces c" u c2] read_astring_progress [of "skip_spaces c2" v c3]
    skip_spaces_progress [of c] skip_spaces_progress [of c2] by simp

text \<open>The name of a parameter is still a view when the value is read.\<close>

function param_items :: "cursor \<Rightarrow> (octets \<times> octets) list \<Rightarrow> (octets \<times> octets) list parsed" where
  "param_items c out =
     (let c1 = skip_spaces c
      in case try_consume (CHR '')'') c1 of
           (True, c2) \<Rightarrow> Done (out, c2)
         | (False, _) \<Rightarrow>
             (if at_end c1 then Malformed
              else
                (case read_astring c1 of
                   (None, _) \<Rightarrow> Malformed
                 | (Some name, c2) \<Rightarrow>
                     (case read_astring (skip_spaces c2) of
                        (None, _) \<Rightarrow> Malformed
                      | (Some v, c3) \<Rightarrow>
                          (if view_alive c3 name
                           then param_items c3 (out @ [(view_str name, view_str v)])
                           else Dangling)))))"
  by pat_completeness auto
termination
  by (relation "measure (\<lambda>(c, out). rem_len c)") (simp_all add: astring_pair_progress)

declare param_items.simps [simp del]

definition parse_body_params :: "cursor \<Rightarrow> (octets \<times> octets) list \<Rightarrow> (octets \<times> octets) list parsed" where
  "parse_body_params c out =
     (case consume_nil c of
        (True, c1) \<Rightarrow> Done (out, c1)
      | (False, c1) \<Rightarrow> andthen (expect (CHR ''('') c1) (\<lambda>p. param_items (snd p) out))"

text \<open>The rest of a node: what is not modelled is skipped up to the closing parenthesis.\<close>

function skip_tail :: "cursor \<Rightarrow> unit parsed" where
  "skip_tail c =
     (if \<not> at_end c \<and> peek c \<noteq> CHR '')'' then
        andthen (skip_value c) (\<lambda>p. skip_tail (skip_spaces (snd p)))
      else expect (CHR '')'') c)"
  by pat_completeness auto
termination
proof (relation "measure rem_len", goal_cases)
  case (2 c p)
  then show ?case using skip_value_forward [of c p] skip_spaces_progress [of "snd p"] by simp
qed simp

declare skip_tail.simps [simp del]

definition kMaxBodyStructureDepth :: nat where
  "kMaxBodyStructureDepth = 32"

definition parse_basic_part :: "cursor \<Rightarrow> body_structure parsed" where
  "parse_basic_part c =
     andthen (astr c) (\<lambda>(typ, c1).
     andthen (astr (skip_spaces c1)) (\<lambda>(subtype, c2).
     andthen (parse_body_params (skip_spaces c2) []) (\<lambda>(params, c3).
     andthen (read_nstr [] (skip_spaces c3)) (\<lambda>(ident, c4).
     andthen (read_nstr [] (skip_spaces c4)) (\<lambda>(description, c5).
     andthen (astr (skip_spaces c5)) (\<lambda>(encoding, c6).
     andthen (num_at (skip_spaces c6)) (\<lambda>(octs, c7).
     andthen (skip_tail (skip_spaces c7)) (\<lambda>(_, c8).
       Done (Body_structure typ subtype params ident description encoding octs [], c8)))))))))"

definition parse_multipart_end :: "body_structure list \<Rightarrow> cursor \<Rightarrow> body_structure parsed" where
  "parse_multipart_end parts c =
     andthen (astr c) (\<lambda>(subtype, c1).
     andthen (skip_tail (skip_spaces c1)) (\<lambda>(_, c2).
       Done (Body_structure ''multipart'' subtype [] [] [] [] 0 parts, c2)))"

lemma skip_value_within [forward]: "rem_len c \<le> n \<Longrightarrow> within n (skip_value c)"
  using skip_value_forward [of c] by (auto simp: within_def)

lemma skip_tail_within [forward]: "rem_len c \<le> n \<Longrightarrow> within n (skip_tail c)"
proof (induction c rule: skip_tail.induct)
  case (1 c)
  then show ?case by (subst skip_tail.simps) (auto intro!: forward simp: within_skip)
qed

lemma param_items_within [forward]: "rem_len c \<le> n \<Longrightarrow> within n (param_items c out)"
proof (induction c out rule: param_items.induct)
  case (1 c out)
  have r: "rem_len c3 \<le> n" if "read_astring (skip_spaces c) = (Some u, c2)"
      "read_astring (skip_spaces c2) = (Some v, c3)" for u v c2 c3
    using astring_pair_progress [of u c2 c v c3] that 1(2) by simp
  show ?case
    using 1 r try_consume_True [of "CHR '')''" "skip_spaces c"] within_skip [OF 1(2)]
    by (subst param_items.simps) (auto simp: Let_def intro!: within_Done split: prod.split bool.split option.split)
qed

lemma address_items_within [forward]: "rem_len c \<le> n \<Longrightarrow> within n (address_items c out)"
proof (induction c out rule: address_items.induct)
  case (1 c out)
  show ?case
    using 1 try_consume_True [of "CHR '')''" "skip_spaces c"] within_skip [OF 1(2)]
    by (subst address_items.simps)
      (auto simp: Let_def intro!: forward split: prod.split bool.split)
qed

lemma flag_items_within [forward]: "rem_len c \<le> n \<Longrightarrow> within n (fetch_flag_items c fs)"
proof (induction c fs rule: fetch_flag_items.induct)
  case (1 c fs)
  have "rem_len (snd (read_until_any '' ()'' (skip_spaces c))) \<le> n"
    using within_skip [OF 1(2)] by (simp add: read_until_any_def read_while_eq rem_len_def)
  then show ?case
    using 1 try_consume_True [of "CHR '')''" "skip_spaces c"] within_skip [OF 1(2)]
    by (subst fetch_flag_items.simps)
      (auto simp: Let_def intro!: forward split: prod.split bool.split)
qed

lemma lists_within [forward]:
  assumes "rem_len c \<le> n"
  shows "within n (parse_body_params c ps)" "within n (parse_address_list c as)"
    "within n (fetch_flag_list c fs)"
proof -
  have "consume_nil c = (b, c') \<Longrightarrow> rem_len c' \<le> n" for b c'
    using nil_forward [of c c'] nil_same [of c c'] assms by (cases b) auto
  then show "within n (parse_body_params c ps)" "within n (parse_address_list c as)"
    by (auto simp: parse_body_params_def parse_address_list_def intro!: forward
        split: prod.split bool.split)
  show "within n (fetch_flag_list c fs)"
    unfolding fetch_flag_list_def using assms by (auto intro!: forward)
qed

lemma nodes_within [forward]:
  assumes "rem_len c \<le> n"
  shows "within n (parse_envelope c env)" "within n (parse_basic_part c)"
    "within n (parse_multipart_end parts c)"
  unfolding parse_envelope_def parse_basic_part_def parse_multipart_end_def split_def
  using assms by (intro forward; simp)+

text \<open>One level of a structure, whatever reads its parts.\<close>

lemma body_step:
  assumes "\<And>p. \<not> kMaxBodyStructureDepth < d \<Longrightarrow> expect (CHR ''('') c = Done p \<Longrightarrow>
      peek (skip_spaces (snd p)) = CHR ''('' \<Longrightarrow>
      \<forall>q. g (skip_spaces (snd p)) = Done q \<longrightarrow> rem_len (snd q) \<le> rem_len (skip_spaces (snd p))"
    and "(if d > kMaxBodyStructureDepth then Malformed
      else andthen (expect (CHR ''('') c) (\<lambda>p.
        (let c1 = skip_spaces (snd p)
         in if peek c1 = CHR ''('' then andthen (g c1) (\<lambda>q. parse_multipart_end (fst q) (snd q))
            else parse_basic_part c1))) = Done r"
  shows "rem_len (snd r) < rem_len c"
proof -
  obtain p where p: "\<not> kMaxBodyStructureDepth < d" "expect (CHR ''('') c = Done p"
    using assms(2) by (auto simp: andthen_Done split: if_splits)
  let ?c = "skip_spaces (snd p)"
  have lt: "rem_len ?c < rem_len c" using expect_forward [OF p(2)] skip_spaces_progress [of "snd p"] by simp
  show ?thesis
  proof (cases "peek ?c = CHR ''(''")
    case True
    then obtain q where q: "g ?c = Done q" "parse_multipart_end (fst q) (snd q) = Done r"
      using assms(2) p by (auto simp: andthen_Done Let_def)
    then have "rem_len (snd q) \<le> rem_len ?c" using assms(1) [OF p True] by simp
    then show ?thesis using withinD [OF nodes_within(3) [OF order_refl] q(2)] lt by simp
  next
    case False
    then have "parse_basic_part ?c = Done r" using assms(2) p by (auto simp: andthen_Done Let_def)
    then show ?thesis using withinD [OF nodes_within(2) [OF order_refl]] lt by fastforce
  qed
qed

lemma parts_step:
  assumes "peek c = CHR ''('' \<Longrightarrow> \<forall>q. b c = Done q \<longrightarrow> rem_len (snd q) < rem_len c"
    and "\<And>p. peek c = CHR ''('' \<Longrightarrow> b c = Done p \<Longrightarrow>
      \<forall>q. g (skip_spaces (snd p)) (ps @ [fst p]) = Done q \<longrightarrow> rem_len (snd q) \<le> rem_len (skip_spaces (snd p))"
    and "(if peek c = CHR ''('' then andthen (b c) (\<lambda>p. g (skip_spaces (snd p)) (ps @ [fst p]))
      else Done (ps, c)) = Done r"
  shows "rem_len (snd r) \<le> rem_len c"
proof (cases "peek c = CHR ''(''")
  case True
  then obtain p where p: "b c = Done p" "g (skip_spaces (snd p)) (ps @ [fst p]) = Done r"
    using assms(3) by (auto simp: andthen_Done)
  then show ?thesis using assms(1) [OF True] assms(2) [OF True p(1)] skip_spaces_progress [of "snd p"] by fastforce
qed (use assms(3) in auto)

text \<open>The depth bound limits the nesting; at one depth, every child moves the cursor forward.\<close>

function parse_body_structure :: "nat \<Rightarrow> cursor \<Rightarrow> body_structure parsed"
  and body_parts :: "nat \<Rightarrow> cursor \<Rightarrow> body_structure list \<Rightarrow> body_structure list parsed" where
  "parse_body_structure depth c =
     (if depth > kMaxBodyStructureDepth then Malformed
      else andthen (expect (CHR ''('') c) (\<lambda>p.
        (let c1 = skip_spaces (snd p)
         in if peek c1 = CHR ''('' then
              andthen (body_parts (depth + 1) c1 []) (\<lambda>q. parse_multipart_end (fst q) (snd q))
            else parse_basic_part c1)))"
| "body_parts depth c parts =
     (if peek c = CHR ''('' then
        andthen (parse_body_structure depth c) (\<lambda>p.
          body_parts depth (skip_spaces (snd p)) (parts @ [fst p]))
      else Done (parts, c))"
  by pat_completeness auto
termination
proof -
  have forward: "parse_body_structure_body_parts_dom (Inl (d, c)) \<Longrightarrow>
       \<forall>q. parse_body_structure d c = Done q \<longrightarrow> rem_len (snd q) < rem_len c"
    "parse_body_structure_body_parts_dom (Inr (d, c, ps)) \<Longrightarrow>
       \<forall>q. body_parts d c ps = Done q \<longrightarrow> rem_len (snd q) \<le> rem_len c" for d c ps
  proof (induction rule: parse_body_structure_body_parts.pinduct)
    case (1 d c)
    show ?case
      unfolding parse_body_structure.psimps [OF 1(1)]
      by (intro allI impI, rule body_step [where g = "\<lambda>c1. body_parts (d + 1) c1 []"]) (use 1(2) in auto)
  next
    case (2 d c ps)
    show ?case
      unfolding body_parts.psimps [OF 2(1)]
      by (intro allI impI, rule parts_step [where b = "parse_body_structure d" and g = "body_parts d"])
        (use 2(2,3) in auto)
  qed
  show "All parse_body_structure_body_parts_dom"
  proof (relation "measures [case_sum (\<lambda>(d, c). 34 - d) (\<lambda>(d, c, ps). 34 - d),
                     case_sum (\<lambda>(d, c). 0) (\<lambda>(d, c, ps). 1 + rem_len c)]", goal_cases)
    case (4 d c ps p)
    then have "rem_len (snd p) < rem_len c" using forward(1) by blast
    then show ?case using skip_spaces_progress [of "snd p"] by simp
  qed (auto simp: kMaxBodyStructureDepth_def)
qed

declare parse_body_structure.simps [simp del] body_parts.simps [simp del]

lemma body_forward:
  "\<forall>q. parse_body_structure d c = Done q \<longrightarrow> rem_len (snd q) < rem_len c"
  "\<forall>q. body_parts d c ps = Done q \<longrightarrow> rem_len (snd q) \<le> rem_len c"
proof (induction d c and d c ps rule: parse_body_structure_body_parts.induct)
  case (1 d c)
  show ?case
    unfolding parse_body_structure.simps [of d c]
    by (intro allI impI, rule body_step [where g = "\<lambda>c1. body_parts (d + 1) c1 []"]) (use 1 in auto)
next
  case (2 d c ps)
  show ?case
    unfolding body_parts.simps [of d c ps]
    by (intro allI impI, rule parts_step [where b = "parse_body_structure d" and g = "body_parts d"]) (use 2 in auto)
qed

lemma body_within [forward]: "rem_len c \<le> n \<Longrightarrow> within n (parse_body_structure d c)"
  using body_forward(1) [of d c] by (force simp: within_def)

section \<open>The attribute list\<close>

text \<open>
  The key goes up to a space or a closing parenthesis outside brackets. The bracket counter is a
  natural number; \<open>unsigned\<close> would wrap only after 2^32 brackets in one key.
\<close>

fun key_length :: "nat \<Rightarrow> octets \<Rightarrow> nat" where
  "key_length brackets [] = 0"
| "key_length brackets (c # cs) =
     (let b1 = (if c = CHR ''['' then brackets + 1 else brackets);
          b2 = (if c = CHR '']'' \<and> b1 > 0 then b1 - 1 else b1)
      in if (c = SP \<or> c = CHR '')'') \<and> b2 = 0 then 0 else Suc (key_length b2 cs))"

lemma key_length_le: "key_length b src \<le> length src"
  by (induction src arbitrary: b) (auto simp: Let_def)

type_synonym 's sink = "octets \<Rightarrow> cursor \<Rightarrow> 's \<Rightarrow> 's parsed"

partial_function (option) walk_items :: "'s sink \<Rightarrow> octets \<Rightarrow> 's \<Rightarrow> 's outcome option" where
  "walk_items sink rest out =
     (let r1 = dropWhile (\<lambda>x. x = SP) rest
      in if r1 \<noteq> [] \<and> hd r1 = CHR '')'' then Some (Done out)
         else if r1 = [] then Some Malformed
         else
           (let stop = key_length 0 r1
            in if stop = 0 then Some Malformed
               else
                 (let key = take stop r1;
                      r2 = dropWhile (\<lambda>x. x = SP) (drop stop r1)
                  in case sink key (mk_cursor r2) out of
                       Done p \<Rightarrow> walk_items sink (remaining (snd p)) (fst p)
                     | Malformed \<Rightarrow> Some Malformed
                     | Dangling \<Rightarrow> Some Dangling)))"

definition walk_fetch_attributes :: "'s sink \<Rightarrow> octets \<Rightarrow> 's \<Rightarrow> 's outcome option" where
  "walk_fetch_attributes sink attr_list out =
     (if attr_list = [] \<or> hd attr_list \<noteq> CHR ''('' then Some Malformed
      else walk_items sink (tl attr_list) out)"

locale attribute_sink =
  fixes sink :: "'s sink"
  assumes consumes: "within (length (remaining c)) (sink key c out)"
begin

lemma walk_items_returns: "\<exists>r. walk_items sink rest out = Some r"
proof (induction "length rest" arbitrary: rest out rule: less_induct)
  case less
  let ?r1 = "dropWhile (\<lambda>x. x = SP) rest"
  let ?r2 = "dropWhile (\<lambda>x. x = SP) (drop (key_length 0 ?r1) ?r1)"
  have "length (remaining (snd p)) < length rest"
    if s: "sink key (mk_cursor ?r2) out = Done p" and k: "key_length 0 ?r1 \<noteq> 0" for key p
  proof -
    have "length (remaining (snd p)) \<le> length ?r2"
      using withinD [OF consumes s] by (simp add: rem_len_def remaining_def mk_cursor_def)
    also have "\<dots> \<le> length (drop (key_length 0 ?r1) ?r1)" by (rule length_dropWhile_le)
    also have "\<dots> < length rest"
      using k key_length_le [of 0 ?r1] length_dropWhile_le [of "\<lambda>x. x = SP" rest]
      by (cases "?r1") auto
    finally show ?thesis .
  qed
  then show ?case
    using less by (subst walk_items.simps) (auto simp: Let_def split: outcome.split)
qed

lemma walk_returns: "\<exists>r. walk_fetch_attributes sink attrs out = Some r"
  using walk_items_returns by (simp add: walk_fetch_attributes_def)

end

section \<open>The three sinks\<close>

definition envelope_sink :: "(bool \<times> envelope) sink" where
  "envelope_sink key c st =
     (if ascii_iequals key ''ENVELOPE'' then
        andthen (parse_envelope c (snd st)) (\<lambda>(env, c'). Done ((True, env), c'))
      else andthen (skip_value c) (\<lambda>(_, c'). Done (st, c')))"

definition parse_envelope_attribute :: "octets \<Rightarrow> envelope \<Rightarrow> envelope outcome option" where
  "parse_envelope_attribute attr_list out =
     map_option (\<lambda>r. andthen r (\<lambda>(found, env). if found then Done env else Malformed))
       (walk_fetch_attributes envelope_sink attr_list (False, out))"

definition section_sink :: "octets \<Rightarrow> (bool \<times> octets option) sink" where
  "section_sink section_prefix key c st =
     (if length key \<ge> length section_prefix \<and>
         ascii_iequals (take (length section_prefix) key) section_prefix then
        (case read_nstring c of
           (None, _) \<Rightarrow> Malformed
         | (Some None, c') \<Rightarrow> Done ((True, snd st), c')
         | (Some (Some v), c') \<Rightarrow> Done ((True, Some (view_str v)), c'))
      else andthen (skip_value c) (\<lambda>(_, c'). Done (st, c')))"

definition parse_body_section_attribute ::
  "octets \<Rightarrow> octets \<Rightarrow> octets option \<Rightarrow> octets option outcome option" where
  "parse_body_section_attribute attr_list section_prefix out =
     map_option (\<lambda>r. andthen r (\<lambda>(found, v). if found then Done v else Malformed))
       (walk_fetch_attributes (section_sink section_prefix) attr_list (False, out))"

text \<open>A NIL payload leaves the data of its section empty.\<close>

definition body_section_value :: "octets \<Rightarrow> cursor \<Rightarrow> message_attributes \<Rightarrow> message_attributes parsed" where
  "body_section_value key c out =
     andthen (read_nstr [] c) (\<lambda>(v, c').
       Done (out\<lparr>ma_sections := ma_sections out @
         [\<lparr>sec_specifier = take (length key - 6) (drop 5 key), sec_data = v\<rparr>]\<rparr>, c'))"

definition attribute_value :: "message_attributes sink" where
  "attribute_value key c out =
     (if length key > 6 \<and> ascii_iequals (take 5 key) ''BODY['' \<and> last key = CHR '']'' then
        body_section_value key c out
      else if ascii_iequals key ''FLAGS'' then
        andthen (fetch_flag_list c (ma_flags out)) (\<lambda>(fs, c'). Done (out\<lparr>ma_flags := fs\<rparr>, c'))
      else if ascii_iequals key ''UID'' then
        andthen (num_at c) (\<lambda>(n, c'). Done (out\<lparr>ma_uid := wrap32 n\<rparr>, c'))
      else if ascii_iequals key ''INTERNALDATE'' then
        andthen (astr c) (\<lambda>(v, c'). Done (out\<lparr>ma_internal_date := v\<rparr>, c'))
      else if ascii_iequals key ''RFC822.SIZE'' then
        andthen (num_at c) (\<lambda>(n, c'). Done (out\<lparr>ma_rfc822_size := n\<rparr>, c'))
      else if ascii_iequals key ''ENVELOPE'' then
        andthen (parse_envelope c empty_envelope) (\<lambda>(e, c'). Done (out\<lparr>ma_envelope := Some e\<rparr>, c'))
      else if ascii_iequals key ''BODYSTRUCTURE'' then
        andthen (parse_body_structure 0 c) (\<lambda>(b, c'). Done (out\<lparr>ma_body_structure := Some b\<rparr>, c'))
      else andthen (skip_value c) (\<lambda>(_, c'). Done (out, c')))"

definition parse_fetch_attributes ::
  "octets \<Rightarrow> message_attributes \<Rightarrow> message_attributes outcome option" where
  "parse_fetch_attributes attr_list out = walk_fetch_attributes attribute_value attr_list out"

lemma rem_len_remaining: "rem_len c = length (remaining c)"
  by (simp add: rem_len_def remaining_def)

lemma nstring_within: "read_nstring c = (Some v, c') \<Longrightarrow> rem_len c \<le> n \<Longrightarrow> rem_len c' \<le> n"
  using read_nstring_forward [of c v c'] by simp

interpretation envelope_attr: attribute_sink envelope_sink
  by unfold_locales (auto simp: envelope_sink_def rem_len_remaining intro!: forward)

interpretation section_attr: attribute_sink "section_sink section_prefix"
  by unfold_locales
    (auto simp: section_sink_def rem_len_remaining [symmetric] intro!: forward
      elim: nstring_within split: prod.split option.split)

interpretation message_attr: attribute_sink attribute_value
  by unfold_locales
    (auto simp: attribute_value_def body_section_value_def rem_len_remaining [symmetric] intro!: forward)

section \<open>Who can read a dead view\<close>

text \<open>Only the parameter loop of a body structure yields \<open>Dangling\<close>; the walks for envelopes and for
  one section never do.\<close>

definition sound_view :: "'a outcome \<Rightarrow> bool" where
  "sound_view p \<longleftrightarrow> p \<noteq> Dangling"

named_theorems no_dangling "parsers that never read a dead view"

lemma sound_view_simps [simp]: "sound_view (Done x)" "sound_view Malformed" "\<not> sound_view Dangling"
  by (simp_all add: sound_view_def)

lemma sound_andthen [no_dangling]:
  "sound_view p \<Longrightarrow> (\<And>x. p = Done x \<Longrightarrow> sound_view (k x)) \<Longrightarrow> sound_view (andthen p k)"
  by (cases p) auto

lemma sound_readers [no_dangling]:
  "sound_view (expect ch c)" "sound_view (read_nstr m c)" "sound_view (skip_scalar c)"
  by (auto simp: expect_def read_nstr_def skip_scalar_def split: prod.split bool.split option.split)

lemma sound_skip: "sound_view (skip_value c)" "sound_view (skip_items c')"
proof (induction c and c' rule: skip_value_skip_items.induct)
  case (1 c)
  then show ?case by (auto simp: skip_value.simps [of c] intro!: no_dangling)
next
  case (2 c)
  then show ?case
    by (auto simp: skip_items.simps [of c] Let_def intro!: no_dangling split: prod.split bool.split)
qed

lemma sound_address [no_dangling]: "sound_view (parse_address c)"
  unfolding parse_address_def by (auto intro!: no_dangling)

lemma sound_address_items [no_dangling]: "sound_view (address_items c out)"
proof (induction c out rule: address_items.induct)
  case (1 c out)
  then show ?case
    by (subst address_items.simps) (auto simp: Let_def intro!: no_dangling split: prod.split bool.split)
qed

lemma sound_address_list [no_dangling]: "sound_view (parse_address_list c out)"
  unfolding parse_address_list_def by (auto intro!: no_dangling split: prod.split bool.split)

lemma sound_envelope [no_dangling]: "sound_view (parse_envelope c out)"
  unfolding parse_envelope_def by (auto intro!: no_dangling)

lemma sound_sinks:
  "sound_view (envelope_sink key c st)" "sound_view (section_sink pre key c st')"
  by (auto simp: envelope_sink_def section_sink_def intro!: no_dangling sound_skip split: prod.split option.split)

lemma walk_sound:
  "walk_items sink rest out = Some r \<Longrightarrow> (\<forall>key c out. sound_view (sink key c out)) \<longrightarrow> sound_view r"
proof (erule walk_items.raw_induct [rotated], intro impI, goal_cases)
  case (1 walk sink rest out r)
  let ?r1 = "dropWhile (\<lambda>x. x = SP) rest"
  let ?k = "key_length 0 ?r1"
  have s: "sound_view (sink (take ?k ?r1) (mk_cursor (dropWhile (\<lambda>x. x = SP) (drop ?k ?r1))) out)" using 1(3) by blast
  show ?case
    using 1(1) [of sink _ _ r] 1(2,3) s
    by (auto simp: Let_def sound_view_def split: if_splits outcome.splits)
qed

lemma walks_defined:
  "\<exists>r. parse_fetch_attributes attrs m = Some r" "\<exists>r. parse_envelope_attribute attrs env = Some r"
  "\<exists>r. parse_body_section_attribute attrs section_prefix v = Some r"
  using message_attr.walk_returns [of attrs m] envelope_attr.walk_returns [of attrs "(False, env)"]
    section_attr.walk_returns [of section_prefix attrs "(False, v)"]
  by (auto simp: parse_fetch_attributes_def parse_envelope_attribute_def parse_body_section_attribute_def)

lemma found_sound: "sound_view q \<Longrightarrow> andthen q (\<lambda>(found, x). if found then Done x else Malformed) \<noteq> Dangling"
  by (cases q) (auto split: if_splits)

lemma no_dangling_walks:
  "parse_envelope_attribute attrs env \<noteq> Some Dangling"
  "parse_body_section_attribute attrs pre v \<noteq> Some Dangling"
proof -
  have e: "sound_view r" if "walk_fetch_attributes envelope_sink attrs st = Some r" for st r
    using that walk_sound [of envelope_sink] sound_sinks(1)
    by (auto simp: walk_fetch_attributes_def split: if_splits)
  have s: "sound_view r" if "walk_fetch_attributes (section_sink pre) attrs st = Some r" for st r
    using that walk_sound [of "section_sink pre"] sound_sinks(2)
    by (auto simp: walk_fetch_attributes_def split: if_splits)
  show "parse_envelope_attribute attrs env \<noteq> Some Dangling"
    unfolding parse_envelope_attribute_def using found_sound [OF e [of "(False, env)"]] by force
  show "parse_body_section_attribute attrs pre v \<noteq> Some Dangling"
    unfolding parse_body_section_attribute_def using found_sound [OF s [of "(False, v)"]] by force
qed

end
