(* ===== verification/Mail_Header.thy ===== *)
theory Mail_Header
  imports Mail
begin

unbundle bit_operations_syntax

text \<open>
  Header texts: the address-list and header-block parsers at the end of
  \<open>imap/detail/fetch_parse.h\<close> and the RFC 2047 decoder of \<open>common/mail_header.h\<close>. A position
  in a text is the suffix that begins there.
\<close>

section \<open>Address lists\<close>

abbreviation TAB :: char where
  "TAB \<equiv> CHR 0x09"

definition is_lws :: "char \<Rightarrow> bool" where
  "is_lws c \<longleftrightarrow> c = SP \<or> c = TAB \<or> c = CR \<or> c = LF"

definition trim_end :: "(char \<Rightarrow> bool) \<Rightarrow> octets \<Rightarrow> octets" where
  "trim_end p v = rev (dropWhile p (rev v))"

definition trim :: "octets \<Rightarrow> octets" where
  "trim v = trim_end is_lws (dropWhile is_lws v)"

definition rfind_char :: "char \<Rightarrow> octets \<Rightarrow> nat option" where
  "rfind_char c v = map_option (\<lambda>i. length v - 1 - i) (find_char c (rev v))"

text \<open>The octets up to the next comma outside quotes and angle brackets.\<close>

fun item_length :: "bool \<Rightarrow> nat \<Rightarrow> octets \<Rightarrow> nat" where
  "item_length in_quote angles [] = 0"
| "item_length in_quote angles (c # cs) =
     (let q = (if c = DQUOTE then \<not> in_quote else in_quote);
          a1 = (if \<not> q \<and> c = CHR ''<'' then angles + 1 else angles);
          a2 = (if \<not> q \<and> c = CHR ''>'' \<and> a1 > 0 then a1 - 1 else a1)
      in if \<not> q \<and> a2 = 0 \<and> c = CHR '','' then 0 else Suc (item_length q a2 cs))"

definition strip_quotes :: "octets \<Rightarrow> octets" where
  "strip_quotes v =
     (if length v \<ge> 2 \<and> hd v = DQUOTE \<and> last v = DQUOTE then take (length v - 2) (drop 1 v) else v)"

text \<open>The angle-bracket form of an item: the display name and the address proper.\<close>

definition split_angle :: "octets \<Rightarrow> octets \<times> octets" where
  "split_angle item =
     (case (find_char (CHR ''<'') item, rfind_char (CHR ''>'') item) of
        (Some opn, Some cls) \<Rightarrow>
          (if cls > opn
           then (strip_quotes (trim (take opn item)), take (cls - opn - 1) (drop (opn + 1) item))
           else ([], item))
      | _ \<Rightarrow> ([], item))"

definition address_of_item :: "octets \<Rightarrow> address" where
  "address_of_item item =
     (let (display, angle) = split_angle item;
          spec = trim angle
      in case rfind_char (CHR ''@'') spec of
           Some at \<Rightarrow> \<lparr>ad_display_name = display, ad_adl = [], ad_mailbox_name = take at spec,
                        ad_host_name = drop (at + 1) spec\<rparr>
         | None \<Rightarrow> \<lparr>ad_display_name = display, ad_adl = [], ad_mailbox_name = spec, ad_host_name = []\<rparr>)"

function parse_rfc5322_addresses :: "octets \<Rightarrow> address list \<Rightarrow> address list" where
  "parse_rfc5322_addresses rest out =
     (let stop = item_length False 0 rest;
          item = trim (take stop rest);
          out' = (if item = [] then out else out @ [address_of_item item])
      in if stop \<ge> length rest then out' else parse_rfc5322_addresses (drop (stop + 1) rest) out')"
  by pat_completeness auto
termination by (relation "measure (\<lambda>(rest, out). length rest)") auto

declare parse_rfc5322_addresses.simps [simp del]

section \<open>Header blocks\<close>

definition is_blank :: "char \<Rightarrow> bool" where
  "is_blank c \<longleftrightarrow> c = SP \<or> c = TAB"

definition assign_field :: "octets \<Rightarrow> octets \<Rightarrow> mail_header \<Rightarrow> mail_header" where
  "assign_field name raw out =
     (let v = trim_end is_blank raw
      in if ascii_iequals name ''Subject'' then out\<lparr>mh_subject := v\<rparr>
         else if ascii_iequals name ''Date'' then out\<lparr>mh_date := v\<rparr>
         else if ascii_iequals name ''Message-ID'' then out\<lparr>mh_message_id := v\<rparr>
         else if ascii_iequals name ''In-Reply-To'' then out\<lparr>mh_in_reply_to := v\<rparr>
         else if ascii_iequals name ''From'' then out\<lparr>mh_from := parse_rfc5322_addresses v (mh_from out)\<rparr>
         else if ascii_iequals name ''To'' then out\<lparr>mh_to := parse_rfc5322_addresses v (mh_to out)\<rparr>
         else if ascii_iequals name ''Cc'' then out\<lparr>mh_cc := parse_rfc5322_addresses v (mh_cc out)\<rparr>
         else if ascii_iequals name ''Bcc'' then out\<lparr>mh_bcc := parse_rfc5322_addresses v (mh_bcc out)\<rparr>
         else out)"

record header_state =
  hs_name :: octets
  hs_value :: octets
  hs_out :: mail_header

definition flush_field :: "header_state \<Rightarrow> header_state" where
  "flush_field s =
     \<lparr>hs_name = [], hs_value = [],
      hs_out = (if hs_name s \<noteq> [] then assign_field (hs_name s) (hs_value s) (hs_out s) else hs_out s)\<rparr>"

text \<open>Leading blanks are removed unless nothing else is there.\<close>

definition drop_blanks :: "octets \<Rightarrow> octets" where
  "drop_blanks v = (if list_all is_blank v then v else dropWhile is_blank v)"

definition header_line :: "octets \<Rightarrow> header_state \<Rightarrow> header_state" where
  "header_line raw s =
     (let line = (if raw \<noteq> [] \<and> last raw = CR then butlast raw else raw)
      in if line = [] then flush_field s
         else if is_blank (hd line) then s\<lparr>hs_value := hs_value s @ SP # dropWhile is_blank line\<rparr>
         else
           (case find_char (CHR '':'') line of
              None \<Rightarrow> flush_field s
            | Some colon \<Rightarrow>
                (flush_field s)\<lparr>hs_name := take colon line,
                               hs_value := drop_blanks (drop (colon + 1) line)\<rparr>))"

function header_lines :: "octets \<Rightarrow> header_state \<Rightarrow> header_state" where
  "header_lines block s =
     (if block = [] then flush_field s
      else
        (case find_char LF block of
           None \<Rightarrow> header_lines [] (header_line block s)
         | Some eol \<Rightarrow> header_lines (drop (eol + 1) block) (header_line (take eol block) s)))"
  by pat_completeness auto
termination by (relation "measure (\<lambda>(block, s). length block)") auto

declare header_lines.simps [simp del]

definition parse_mail_header_block :: "octets \<Rightarrow> mail_header \<Rightarrow> mail_header" where
  "parse_mail_header_block block out =
     hs_out (header_lines block \<lparr>hs_name = [], hs_value = [], hs_out = out\<rparr>)"

section \<open>Encoded words\<close>

definition mime_base64_value :: "char \<Rightarrow> int" where
  "mime_base64_value c =
     (if CHR ''A'' \<le> c \<and> c \<le> CHR ''Z'' then of_char c - of_char (CHR ''A'')
      else if CHR ''a'' \<le> c \<and> c \<le> CHR ''z'' then of_char c - of_char (CHR ''a'') + 26
      else if CHR ''0'' \<le> c \<and> c \<le> CHR ''9'' then of_char c - of_char (CHR ''0'') + 52
      else if c = CHR ''+'' then 62
      else if c = CHR ''/'' then 63
      else if c = CHR ''='' then - 2
      else - 1)"

definition mime_hex_value :: "char \<Rightarrow> int" where
  "mime_hex_value c =
     (if CHR ''0'' \<le> c \<and> c \<le> CHR ''9'' then of_char c - of_char (CHR ''0'')
      else if CHR ''a'' \<le> c \<and> c \<le> CHR ''f'' then of_char c - of_char (CHR ''a'') + 10
      else if CHR ''A'' \<le> c \<and> c \<le> CHR ''F'' then of_char c - of_char (CHR ''A'') + 10
      else - 1)"

text \<open>The base64 data, group by group; padding (\<open>-2\<close>) only in the last group.\<close>

definition base64_group :: "bool \<Rightarrow> int \<Rightarrow> int \<Rightarrow> int \<Rightarrow> int \<Rightarrow> octets option" where
  "base64_group last_group v0 v1 v2 v3 =
     (if v0 = - 1 \<or> v1 = - 1 \<or> v2 = - 1 \<or> v3 = - 1 then None
      else if v0 < 0 \<or> v1 < 0 then None
      else if \<not> last_group \<and> (v2 < 0 \<or> v3 < 0) then None
      else if v2 = - 2 \<and> v3 \<noteq> - 2 then None
      else Some (char_of (push_bit 2 v0 OR drop_bit 4 v1) #
             (if v2 \<ge> 0 then [char_of (push_bit 4 (v1 AND 0xF) OR drop_bit 2 v2)] else []) @
             (if v3 \<ge> 0 then [char_of (push_bit 6 (v2 AND 0x3) OR v3)] else [])))"

fun decode_b :: "octets \<Rightarrow> octets option" where
  "decode_b [] = Some []"
| "decode_b (a # b # c # d # rest) =
     (case base64_group (rest = []) (mime_base64_value a) (mime_base64_value b) (mime_base64_value c)
             (mime_base64_value d) of
        None \<Rightarrow> None
      | Some bytes \<Rightarrow> map_option (\<lambda>r. bytes @ r) (decode_b rest))"
| "decode_b _ = None"

fun decode_q :: "octets \<Rightarrow> octets option" where
  "decode_q [] = Some []"
| "decode_q (c # cs) =
     (if c = CHR ''_'' then map_option (\<lambda>r. SP # r) (decode_q cs)
      else if c = CHR ''='' then
        (case cs of
           h # l # rest \<Rightarrow>
             (let hi = mime_hex_value h; lo = mime_hex_value l
              in if hi < 0 \<or> lo < 0 then None
                 else map_option (\<lambda>r. char_of (push_bit 4 hi OR lo) # r) (decode_q rest))
         | _ \<Rightarrow> None)
      else map_option (\<lambda>r. c # r) (decode_q cs))"

text \<open>Where \<open>?=\<close> begins.\<close>

fun find_close :: "octets \<Rightarrow> nat option" where
  "find_close (a # b # cs) =
     (if a = CHR ''?'' \<and> b = CHR ''='' then Some 0 else map_option Suc (find_close (b # cs)))"
| "find_close _ = None"

text \<open>
  One encoded word at the beginning of the text: the decoded octets and the text behind the word,
  \<open>None\<close> when no well-formed word begins here.
\<close>

definition decode_one_encoded_word :: "octets \<Rightarrow> (octets \<times> octets) option" where
  "decode_one_encoded_word src =
     (if length src < 2 \<or> src ! 0 \<noteq> CHR ''='' \<or> src ! 1 \<noteq> CHR ''?'' then None
      else
        (case find_char (CHR ''?'') (drop 2 src) of
           None \<Rightarrow> None
         | Some n \<Rightarrow>
             (let v = drop (n + 3) src
              in if n = 0 \<or> list_ex is_blank (take n (drop 2 src)) then None
                 else if length v < 2 \<or> v ! 1 \<noteq> CHR ''?'' then None
                 else if ascii_to_upper (v ! 0) \<noteq> CHR ''B'' \<and> ascii_to_upper (v ! 0) \<noteq> CHR ''Q'' then None
                 else
                   (case find_close (drop 2 v) of
                      None \<Rightarrow> None
                    | Some k \<Rightarrow>
                        map_option (\<lambda>out. (out, drop (k + 4) v))
                          ((if ascii_to_upper (v ! 0) = CHR ''B'' then decode_b else decode_q)
                            (take k (drop 2 v)))))))"

lemma decode_one_shorter: "decode_one_encoded_word src = Some (out, rest) \<Longrightarrow> length rest < length src"
  by (auto simp: decode_one_encoded_word_def Let_def split: if_splits option.splits)

text \<open>The words that follow, with only white space between, and the rest of the text.\<close>

function adjacent_words :: "octets \<Rightarrow> octets \<Rightarrow> octets \<times> octets" where
  "adjacent_words rest out =
     (let r = dropWhile is_lws rest
      in if length r = length rest \<or> length r < 2 \<or> r ! 0 \<noteq> CHR ''='' \<or> r ! 1 \<noteq> CHR ''?'' then (out, rest)
         else
           (case decode_one_encoded_word r of
              None \<Rightarrow> (out, rest)
            | Some w \<Rightarrow> adjacent_words (snd w) (out @ fst w)))"
  by pat_completeness auto
termination
proof (relation "measure (\<lambda>(rest, out). length rest)", goal_cases)
  case (2 rest out r w)
  then have "length (snd w) < length r" using decode_one_shorter [of r "fst w" "snd w"] by simp
  then show ?case using 2(1) length_dropWhile_le [of is_lws rest] by simp
qed simp

declare adjacent_words.simps [simp del]

lemma adjacent_words_shorter: "length (snd (adjacent_words rest out)) \<le> length rest"
proof (induction rest out rule: adjacent_words.induct)
  case (1 rest out)
  let ?r = "dropWhile is_lws rest"
  have "length (snd (adjacent_words (snd w) (out @ fst w))) \<le> length rest"
    if "decode_one_encoded_word ?r = Some w" "\<not> (length ?r = length rest \<or> length ?r < 2 \<or> ?r ! 0 \<noteq> CHR ''='' \<or> ?r ! 1 \<noteq> CHR ''?'')" for w
    using 1 [OF refl that(2,1)] decode_one_shorter [of ?r "fst w" "snd w"] that(1) length_dropWhile_le [of is_lws rest]
    by simp
  then show ?case by (subst adjacent_words.simps) (auto simp: Let_def split: option.split)
qed

function decode_encoded_words :: "octets \<Rightarrow> octets \<Rightarrow> octets" where
  "decode_encoded_words src out =
     (if src = [] then out
      else
        (case decode_one_encoded_word src of
           None \<Rightarrow> decode_encoded_words (tl src) (out @ [hd src])
         | Some w \<Rightarrow>
             decode_encoded_words (snd (adjacent_words (snd w) (out @ fst w)))
               (fst (adjacent_words (snd w) (out @ fst w)))))"
  by pat_completeness auto
termination
proof (relation "measure (\<lambda>(src, out). length src)", goal_cases)
  case (3 src out w)
  then show ?case
    using decode_one_shorter [of src "fst w" "snd w"] adjacent_words_shorter [of "snd w" "out @ fst w"] by simp
qed auto

declare decode_encoded_words.simps [simp del]

section \<open>Reading headers\<close>

text \<open>A field as a server sends it: a name, the text of its first line, and folded lines that begin
  with a blank.\<close>

record field =
  fl_name :: octets
  fl_text :: octets
  fl_folds :: "(char \<times> octets) list"

definition print_field :: "field \<Rightarrow> octets" where
  "print_field f =
     fl_name f @ '': '' @ fl_text f @ CRLF @ concat (map (\<lambda>(b, v). b # v @ CRLF) (fl_folds f))"

definition unfolded :: "field \<Rightarrow> octets" where
  "unfolded f = fl_text f @ concat (map (\<lambda>(b, v). SP # dropWhile is_blank v) (fl_folds f))"

definition field_ok :: "field \<Rightarrow> bool" where
  "field_ok f \<longleftrightarrow>
     fl_name f \<noteq> [] \<and> \<not> is_blank (hd (fl_name f)) \<and> CHR '':'' \<notin> set (fl_name f) \<and> LF \<notin> set (fl_name f) \<and>
     fl_text f \<noteq> [] \<and> \<not> is_blank (hd (fl_text f)) \<and> LF \<notin> set (fl_text f) \<and>
     list_all (\<lambda>(b, v). is_blank b \<and> LF \<notin> set v) (fl_folds f)"

definition field_lines :: "field \<Rightarrow> octets list" where
  "field_lines f = (fl_name f @ '': '' @ fl_text f) # map (\<lambda>(b, v). b # v) (fl_folds f)"

lemma print_field_lines: "print_field f = concat (map (\<lambda>l. l @ CRLF) (field_lines f))"
  by (simp add: print_field_def field_lines_def comp_def case_prod_beta')

lemma blank_not_LF: "is_blank b \<Longrightarrow> b \<noteq> LF"
  by (auto simp: is_blank_def)

lemma field_lines_LF: "field_ok f \<Longrightarrow> \<forall>l \<in> set (field_lines f). LF \<notin> set l"
  by (auto simp: field_ok_def field_lines_def list_all_iff dest: blank_not_LF)

lemma header_lines_printed:
  "\<forall>l \<in> set ls. LF \<notin> set l \<Longrightarrow>
     header_lines (concat (map (\<lambda>l. l @ CRLF) ls) @ rest) s = header_lines rest (fold (\<lambda>l. header_line (l @ [CR])) ls s)"
proof (induction ls arbitrary: s)
  case (Cons l ls)
  let ?t = "concat (map (\<lambda>l. l @ CRLF) ls) @ rest"
  have "find_char LF ((l @ [CR]) @ LF # ?t) = Some (length (l @ [CR]))"
    using Cons.prems by (subst find_char_append) auto
  then have "header_lines ((l @ [CR]) @ LF # ?t) s = header_lines ?t (header_line (l @ [CR]) s)"
    by (subst header_lines.simps) simp
  then show ?case using Cons by simp
qed simp

definition opened :: "octets \<Rightarrow> octets \<Rightarrow> mail_header \<Rightarrow> header_state" where
  "opened n v out = \<lparr>hs_name = n, hs_value = v, hs_out = out\<rparr>"

lemma header_line_CR:
  "header_line (l @ [CR]) s =
     (if l = [] then flush_field s
      else if is_blank (hd l) then s\<lparr>hs_value := hs_value s @ SP # dropWhile is_blank l\<rparr>
      else
        (case find_char (CHR '':'') l of
           None \<Rightarrow> flush_field s
         | Some colon \<Rightarrow>
             (flush_field s)\<lparr>hs_name := take colon l, hs_value := drop_blanks (drop (colon + 1) l)\<rparr>))"
  by (simp add: header_line_def)

lemma header_line_fold:
  "is_blank b \<Longrightarrow> header_line ((b # v) @ [CR]) (opened n u out) = opened n (u @ SP # dropWhile is_blank v) out"
  unfolding header_line_CR by (simp add: opened_def)

lemma header_line_first:
  assumes "field_ok f"
  shows "header_line ((fl_name f @ '': '' @ fl_text f) @ [CR]) s =
    opened (fl_name f) (fl_text f) (hs_out (flush_field s))"
proof -
  let ?l = "fl_name f @ '': '' @ fl_text f"
  have c: "find_char (CHR '':'') ?l = Some (length (fl_name f))"
    using assms by (simp add: field_ok_def)
  have h: "?l \<noteq> []" "\<not> is_blank (hd ?l)" using assms by (cases "fl_name f"; auto simp: field_ok_def)+
  have "drop_blanks (SP # fl_text f) = fl_text f"
    using assms by (cases "fl_text f") (auto simp: field_ok_def drop_blanks_def is_blank_def)
  then have "header_line (?l @ [CR]) s =
      (flush_field s)\<lparr>hs_name := fl_name f, hs_value := fl_text f\<rparr>"
    unfolding header_line_CR c using h by simp
  then show ?thesis by (simp add: opened_def flush_field_def)
qed

lemma field_read:
  assumes "field_ok f"
  shows "fold (\<lambda>l. header_line (l @ [CR])) (field_lines f) s =
    opened (fl_name f) (unfolded f) (hs_out (flush_field s))"
proof -
  have "fold (\<lambda>l. header_line (l @ [CR])) (map (\<lambda>(b, v). b # v) cs) (opened n u out) =
      opened n (u @ concat (map (\<lambda>(b, v). SP # dropWhile is_blank v) cs)) out"
    if "list_all (\<lambda>(b, v). is_blank b \<and> LF \<notin> set v) cs" for cs n u out
    using that
  proof (induction cs arbitrary: u)
    case (Cons c cs)
    then show ?case using header_line_fold [of "fst c" "snd c" n u out] by (cases c) simp
  qed simp
  then show ?thesis
    using assms header_line_first [OF assms, of s] by (simp add: field_lines_def unfolded_def field_ok_def)
qed

lemma fields_read:
  "list_all field_ok fs \<Longrightarrow> fs \<noteq> [] \<or> s = flush_field s \<Longrightarrow>
   hs_out (flush_field (fold (\<lambda>l. header_line (l @ [CR])) (concat (map field_lines fs)) s)) =
     fold (\<lambda>f. assign_field (fl_name f) (unfolded f)) fs (hs_out (flush_field s))"
proof (induction fs arbitrary: s)
  case (Cons f fs)
  let ?o = "opened (fl_name f) (unfolded f) (hs_out (flush_field s))"
  have f: "fold (\<lambda>l. header_line (l @ [CR])) (field_lines f) s = ?o" using field_read [of f s] Cons.prems by simp
  have o: "hs_out (flush_field ?o) = assign_field (fl_name f) (unfolded f) (hs_out (flush_field s))"
    using Cons.prems by (simp add: flush_field_def opened_def field_ok_def)
  show ?case
  proof (cases fs)
    case Nil
    then show ?thesis using f o by simp
  next
    case (Cons g gs)
    then show ?thesis using Cons.IH [of ?o] Cons.prems f o by simp
  qed
qed simp

text \<open>
  Header blocks are read with their folding undone: every field of a block becomes the
  assignment of its name and its unfolded text, in order, whatever the names are; nothing else in
  the header changes.
\<close>

theorem header_block_fields:
  assumes "list_all field_ok fs"
  shows "parse_mail_header_block (concat (map print_field fs) @ CRLF) out =
    fold (\<lambda>f. assign_field (fl_name f) (unfolded f)) fs out"
proof -
  let ?ls = "concat (map field_lines fs)" and ?s = "\<lparr>hs_name = [], hs_value = [], hs_out = out\<rparr>"
  have p: "concat (map print_field fs) @ CRLF = concat (map (\<lambda>l. l @ CRLF) ?ls) @ CRLF"
    by (induction fs) (simp_all add: print_field_lines)
  have l: "\<forall>l \<in> set ?ls. LF \<notin> set l" using assms field_lines_LF by (fastforce simp: list_all_iff)
  have e: "header_lines CRLF s = flush_field (flush_field s)" for s
    by (simp add: header_lines.simps header_line_def)
  have s: "?s = flush_field ?s" by (simp add: flush_field_def)
  have "hs_out (flush_field (flush_field s)) = hs_out (flush_field s)" for s by (simp add: flush_field_def)
  then show ?thesis
    using fields_read [OF assms, of ?s] header_lines_printed [OF l, of CRLF ?s] e s p
    by (simp add: parse_mail_header_block_def)
qed

definition sample_field :: field where
  "sample_field = \<lparr>fl_name = ''subject'', fl_text = ''Hello'', fl_folds = [(TAB, ''world'')]\<rparr>"

theorem header_block_fields_witness:
  "list_all field_ok [sample_field] \<and>
   parse_mail_header_block (concat (map print_field [sample_field]) @ CRLF) empty_header =
     fold (\<lambda>f. assign_field (fl_name f) (unfolded f)) [sample_field] empty_header \<and>
   mh_subject (fold (\<lambda>f. assign_field (fl_name f) (unfolded f)) [sample_field] empty_header) = ''Hello world''"
proof -
  have f: "list_all field_ok [sample_field]" by code_simp
  have v: "mh_subject (fold (\<lambda>f. assign_field (fl_name f) (unfolded f)) [sample_field] empty_header) = ''Hello world''"
    by code_simp
  show ?thesis using f v header_block_fields [OF f] by blast
qed

section \<open>Reading addresses\<close>

definition print_mailbox :: "address \<Rightarrow> octets" where
  "print_mailbox a = DQUOTE # ad_display_name a @ [DQUOTE] @ '' <'' @ ad_mailbox_name a @ ''@'' @ ad_host_name a @ ''>''"

definition mailbox_ok :: "address \<Rightarrow> bool" where
  "mailbox_ok a \<longleftrightarrow>
     ad_adl a = [] \<and> DQUOTE \<notin> set (ad_display_name a) \<and> CHR ''<'' \<notin> set (ad_display_name a) \<and>
     list_all (\<lambda>c. c \<noteq> DQUOTE \<and> c \<noteq> CHR ''<'' \<and> c \<noteq> CHR ''>'' \<and> \<not> is_lws c) (ad_mailbox_name a @ ad_host_name a) \<and>
     CHR ''@'' \<notin> set (ad_host_name a)"

fun comma_join :: "octets list \<Rightarrow> octets" where
  "comma_join [] = []"
| "comma_join (x # xs) = x @ (if xs = [] then [] else '', '' @ comma_join xs)"

lemma item_length_quoted:
  "DQUOTE \<notin> set v \<Longrightarrow> item_length True n (v @ rest) = length v + item_length True n rest"
  by (induction v) auto

lemma item_length_angle:
  "list_all (\<lambda>c. c \<noteq> DQUOTE \<and> c \<noteq> CHR ''<'' \<and> c \<noteq> CHR ''>'' \<and> \<not> is_lws c) v \<Longrightarrow>
     item_length False (Suc n) (v @ rest) = length v + item_length False (Suc n) rest"
  by (induction v) auto

lemma item_length_mailbox:
  assumes "mailbox_ok a"
  shows "item_length False 0 (print_mailbox a @ rest) = length (print_mailbox a) + item_length False 0 rest"
  using assms unfolding print_mailbox_def mailbox_ok_def
  by (simp add: item_length_quoted item_length_angle)

lemma rfind_char_last: "c \<notin> set ys \<Longrightarrow> rfind_char c (xs @ c # ys) = Some (length xs)"
  unfolding rfind_char_def by (simp add: find_char_append)

lemma trim_id:
  "v \<noteq> [] \<Longrightarrow> \<not> is_lws (hd v) \<Longrightarrow> \<not> is_lws (last v) \<Longrightarrow> trim v = v"
proof -
  assume v: "v \<noteq> []" "\<not> is_lws (hd v)" "\<not> is_lws (last v)"
  have "dropWhile is_lws v = v" using v by (cases v) auto
  moreover have "dropWhile is_lws (rev v) = rev v" using v by (cases "rev v") (auto simp: hd_rev [symmetric])
  ultimately show ?thesis by (simp add: trim_def trim_end_def)
qed

lemma not_lws: "\<not> is_lws (CHR ''>'')" "\<not> is_lws DQUOTE" "is_lws SP" "\<not> is_lws (CHR ''@'')"
  by (simp_all add: is_lws_def)

lemma trim_mailbox: "trim (print_mailbox a) = print_mailbox a" "trim (SP # print_mailbox a) = print_mailbox a"
proof -
  show t: "trim (print_mailbox a) = print_mailbox a"
    by (rule trim_id) (simp_all add: print_mailbox_def not_lws)
  show "trim (SP # print_mailbox a) = print_mailbox a" using t by (simp add: trim_def not_lws)
qed

lemma address_of_mailbox:
  assumes "mailbox_ok a" shows "address_of_item (print_mailbox a) = a"
proof -
  let ?d = "ad_display_name a" and ?s = "ad_mailbox_name a @ CHR ''@'' # ad_host_name a"
  let ?pre = "DQUOTE # ?d @ [DQUOTE, SP]"
  have p: "print_mailbox a = ?pre @ CHR ''<'' # ?s @ ''>''" by (simp add: print_mailbox_def)
  have o: "find_char (CHR ''<'') (print_mailbox a) = Some (length ?pre)"
    unfolding p using assms by (intro find_char_append) (auto simp: mailbox_ok_def)
  have c: "rfind_char (CHR ''>'') (print_mailbox a) = Some (length ?pre + 1 + length ?s)"
    using rfind_char_last [of "CHR ''>''" "[]" "?pre @ CHR ''<'' # ?s"] p by simp
  have "trim ?pre = DQUOTE # ?d @ [DQUOTE]"
    by (simp add: trim_def trim_end_def not_lws)
  then have sp: "split_angle (print_mailbox a) = (?d, ?s)"
    unfolding split_angle_def o c by (simp add: p strip_quotes_def)
  have l: "\<forall>x \<in> set ?s. \<not> is_lws x" using assms by (auto simp: mailbox_ok_def list_all_iff not_lws)
  then have t: "trim ?s = ?s" by (intro trim_id) (cases "ad_mailbox_name a"; auto simp: last_append)+
  have at: "rfind_char (CHR ''@'') ?s = Some (length (ad_mailbox_name a))"
    using assms by (intro rfind_char_last) (simp add: mailbox_ok_def)
  show ?thesis using assms unfolding address_of_item_def sp prod.case t at Let_def
    by (cases a) (simp add: mailbox_ok_def)
qed

text \<open>A printer of addresses whose items the splitter and the item reader take as they are.\<close>

definition reads_back :: "(address \<Rightarrow> octets) \<Rightarrow> address \<Rightarrow> bool" where
  "reads_back pr a \<longleftrightarrow>
     pr a \<noteq> [] \<and> trim (pr a) = pr a \<and> trim (SP # pr a) = pr a \<and> address_of_item (pr a) = a \<and>
     (\<forall>rest. item_length False 0 (pr a @ rest) = length (pr a) + item_length False 0 rest)"

lemma addresses_printed:
  "list_all (reads_back pr) as \<Longrightarrow> pre = [] \<or> pre = [SP] \<Longrightarrow>
     parse_rfc5322_addresses (pre @ comma_join (map pr as)) out = out @ as"
proof (induction as arbitrary: pre out)
  case Nil
  then have "item_length False 0 pre = length pre" "trim pre = []"
    by (auto simp: trim_def trim_end_def not_lws)
  then show ?case by (subst parse_rfc5322_addresses.simps) simp
next
  case (Cons a as)
  let ?t = "if as = [] then [] else '','' @ SP # comma_join (map pr as)"
  have a: "pr a \<noteq> []" "trim (pr a) = pr a" "trim (SP # pr a) = pr a" "address_of_item (pr a) = a"
    "item_length False 0 (pr a @ ?t) = length (pr a) + item_length False 0 ?t"
    using Cons.prems(1) by (simp_all add: reads_back_def)
  have len: "item_length False 0 (pre @ pr a @ ?t) = length (pre @ pr a)" using Cons.prems(2) a(5) by auto
  have it: "trim (take (length (pre @ pr a)) (pre @ pr a @ ?t)) = pr a" using Cons.prems(2) a by auto
  show ?case
  proof (cases as)
    case Nil
    then show ?thesis
      using Cons.prems len it a by (subst parse_rfc5322_addresses.simps) (simp add: Let_def)
  next
    case (Cons b bs)
    then have e: "pre @ comma_join (map pr (a # as)) = pre @ pr a @ ?t" by simp
    have "parse_rfc5322_addresses (pre @ pr a @ ?t) out =
        parse_rfc5322_addresses (SP # comma_join (map pr as)) (out @ [a])"
      using Cons.prems len it a Cons by (subst parse_rfc5322_addresses.simps) (simp add: Let_def)
    then show ?thesis using e Cons.IH [of "[SP]" "out @ [a]"] Cons.prems by simp
  qed
qed

lemma mailbox_reads_back: "mailbox_ok a \<Longrightarrow> reads_back print_mailbox a"
  by (simp add: reads_back_def trim_mailbox address_of_mailbox item_length_mailbox) (simp add: print_mailbox_def)

text \<open>
  Address lists of a header round-trip: a list of mailboxes in the form
  \<open>"name" <local@host>\<close>, separated by commas, is read as exactly these addresses, with commas in
  the names and in the local parts, after the addresses that were there before.
\<close>

theorem address_list_roundtrip:
  assumes "list_all mailbox_ok as"
  shows "parse_rfc5322_addresses (comma_join (map print_mailbox as)) out = out @ as"
proof -
  have "list_all (reads_back print_mailbox) as" using assms mailbox_reads_back by (simp add: list_all_iff)
  then show ?thesis using addresses_printed [of print_mailbox as "[]" out] by simp
qed

theorem address_list_roundtrip_witness:
  "list_all mailbox_ok [\<lparr>ad_display_name = ''Doe, J'', ad_adl = [], ad_mailbox_name = ''j'', ad_host_name = ''x.org''\<rparr>] \<and>
   parse_rfc5322_addresses (comma_join (map print_mailbox
     [\<lparr>ad_display_name = ''Doe, J'', ad_adl = [], ad_mailbox_name = ''j'', ad_host_name = ''x.org''\<rparr>])) [] =
   [\<lparr>ad_display_name = ''Doe, J'', ad_adl = [], ad_mailbox_name = ''j'', ad_host_name = ''x.org''\<rparr>]"
proof -
  have m: "list_all mailbox_ok [\<lparr>ad_display_name = ''Doe, J'', ad_adl = [], ad_mailbox_name = ''j'', ad_host_name = ''x.org''\<rparr>]"
    by code_simp
  show ?thesis using m address_list_roundtrip [OF m, of "[]"] by simp
qed

section \<open>Encoded words\<close>

lemma decode_plain:
  "decode_one_encoded_word (c # cs) = None \<Longrightarrow>
     decode_encoded_words (c # cs) out = decode_encoded_words cs (out @ [c])"
  by (subst decode_encoded_words.simps) simp

definition word_of :: "octets \<Rightarrow> char \<Rightarrow> octets \<Rightarrow> octets" where
  "word_of charset e data = ''=?'' @ charset @ ''?'' @ e # ''?'' @ data @ ''?=''"

definition charset_ok :: "octets \<Rightarrow> bool" where
  "charset_ok cs \<longleftrightarrow> cs \<noteq> [] \<and> CHR ''?'' \<notin> set cs \<and> \<not> list_ex is_blank cs"

lemma find_close_append: "CHR ''?'' \<notin> set data \<Longrightarrow> find_close (data @ CHR ''?'' # CHR ''='' # rest) = Some (length data)"
proof (induction data)
  case (Cons d ds)
  then show ?case by (cases ds) auto
qed simp

lemma decode_one_word:
  assumes "charset_ok cs" "CHR ''?'' \<notin> set data" "e = CHR ''B'' \<or> e = CHR ''Q''"
  shows "decode_one_encoded_word (word_of cs e data @ rest) =
    map_option (\<lambda>out. (out, rest)) ((if e = CHR ''B'' then decode_b else decode_q) data)"
proof -
  have f: "find_char (CHR ''?'') (cs @ CHR ''?'' # e # CHR ''?'' # data @ CHR ''?'' # CHR ''='' # rest) = Some (length cs)"
    using assms(1) by (intro find_char_append) (simp add: charset_ok_def)
  let ?src = "word_of cs e data @ rest" and ?v = "e # CHR ''?'' # data @ CHR ''?'' # CHR ''='' # rest"
  have d: "drop 2 ?src = cs @ CHR ''?'' # ?v" "drop (length cs + 3) ?src = ?v"
    by (simp_all add: word_of_def numeral_2_eq_2 numeral_3_eq_3)
  have h: "\<not> length ?src < 2" "?src ! 0 = CHR ''=''" "?src ! 1 = CHR ''?''" by (simp_all add: word_of_def)
  have u: "ascii_to_upper e = e" using assms(3) by (auto simp: ascii_to_upper_def)
  have c: "find_close (drop 2 ?v) = Some (length data)" "take (length data) (drop 2 ?v) = data"
      "drop (length data + 4) ?v = rest" "?v ! 1 = CHR ''?''" "?v ! 0 = e" "\<not> length ?v < 2"
    using find_close_append [OF assms(2), of rest] by (simp_all add: eval_nat_numeral)
  have t: "take (length cs) (cs @ CHR ''?'' # ?v) = cs" by simp
  have "\<not> (length cs = 0 \<or> list_ex is_blank cs)" using assms(1) by (simp add: charset_ok_def)
  then show ?thesis
    using assms(3) h unfolding decode_one_encoded_word_def d(1) f option.case Let_def d(2) c t u
    by (elim disjE) simp_all
qed

end
