(* ===== verification/Replies.thy ===== *)
theory Replies
  imports Commands Fetch_Parse Mail_Header
begin

text \<open>
  How the commands absorb untagged responses and map their tagged reply (\<open>on_untagged\<close>,
  \<open>on_tagged\<close> of \<open>imap/command/\<close>, \<open>map_status_to_ec\<close> of
  \<open>imap/operation_base.h\<close>): CAPABILITY, SELECT and EXAMINE, LIST, STATUS, SEARCH, UID SEARCH and
  the FETCH family collect data, the others none.

  \<open>on_untagged\<close> yields \<open>None\<close> when the code goes wrong: the number loop of SEARCH is a
  \<open>partial_function\<close>, so that a loop that runs forever is the value \<open>None\<close>, and FETCH
  may read a dead view.
\<close>

section \<open>Tagged status\<close>

fun map_status_to_ec :: "response_status \<Rightarrow> error_code" where
  "map_status_to_ec St_ok = No_error"
| "map_status_to_ec St_no = Errc Command_rejected"
| "map_status_to_ec St_bad = Errc Bad_command"
| "map_status_to_ec _ = Errc Unexpected_response"

definition status_ec :: "response_status \<Rightarrow> error_code" where
  "status_ec st =
     (case st of St_ok \<Rightarrow> No_error | St_no \<Rightarrow> Errc Command_rejected | St_bad \<Rightarrow> Errc Bad_command
      | _ \<Rightarrow> Errc Unexpected_response)"

section \<open>CAPABILITY\<close>

function add_atoms :: "octets \<Rightarrow> capability_set \<Rightarrow> capability_set" where
  "add_atoms atoms caps =
     (if atoms = [] then caps
      else
        (case find_char SP atoms of
           None \<Rightarrow> cap_insert caps atoms
         | Some sp \<Rightarrow>
             add_atoms (drop (sp + 1) atoms)
               (if take sp atoms \<noteq> [] then cap_insert caps (take sp atoms) else caps)))"
  by pat_completeness auto
termination by (relation "measure (\<lambda>(atoms, caps). length atoms)") auto

declare add_atoms.simps [simp del]

definition add_code_atoms :: "response_code option \<Rightarrow> capability_set \<Rightarrow> capability_set" where
  "add_code_atoms code caps =
     (case code of Some (Capability_code cs) \<Rightarrow> foldl cap_insert caps cs | _ \<Rightarrow> caps)"

definition capability_on_untagged :: "untagged_response \<Rightarrow> capability_set \<Rightarrow> capability_set" where
  "capability_on_untagged r caps =
     (if ur_kind r = K_capability then add_atoms (ur_payload r) caps
      else if ur_kind r = K_ok then add_code_atoms (ur_code r) caps
      else caps)"

section \<open>SELECT and EXAMINE\<close>

definition add_flag :: "octets \<Rightarrow> flag_set \<Rightarrow> flag_set" where
  "add_flag atom fs =
     (if atom = [] \<or> hd atom \<noteq> BSLASH then fs
      else
        (let name = tl atom
         in if ascii_iequals name ''Seen'' then flag_set_flag fs Seen True
            else if ascii_iequals name ''Answered'' then flag_set_flag fs Answered True
            else if ascii_iequals name ''Flagged'' then flag_set_flag fs Flagged True
            else if ascii_iequals name ''Deleted'' then flag_set_flag fs Deleted True
            else if ascii_iequals name ''Draft'' then flag_set_flag fs Draft True
            else if ascii_iequals name ''Recent'' then flag_set_flag fs Recent True
            else fs))"

function flag_list_loop :: "octets \<Rightarrow> flag_set \<Rightarrow> flag_set" where
  "flag_list_loop body fs =
     (if body = [] then fs
      else
        (case find_char SP body of
           None \<Rightarrow> add_flag body fs
         | Some sp \<Rightarrow> flag_list_loop (drop (sp + 1) body) (add_flag (take sp body) fs)))"
  by pat_completeness auto
termination by (relation "measure (\<lambda>(body, fs). length body)") auto

declare flag_list_loop.simps [simp del]

definition parse_flag_list :: "octets \<Rightarrow> flag_set \<Rightarrow> flag_set" where
  "parse_flag_list src fs =
     (case find_char (CHR ''('') src of
        None \<Rightarrow> fs
      | Some opn \<Rightarrow>
          (case find_char (CHR '')'') (drop (opn + 1) src) of
             None \<Rightarrow> fs
           | Some len \<Rightarrow> flag_list_loop (take len (drop (opn + 1) src)) fs))"

definition apply_ok_code :: "response_code option \<Rightarrow> snapshot \<Rightarrow> snapshot" where
  "apply_ok_code code s =
     (case code of
        Some (Uidvalidity_code v) \<Rightarrow> s\<lparr>sn_uid_validity := v\<rparr>
      | Some (Uidnext_code v) \<Rightarrow> s\<lparr>sn_uid_next := v\<rparr>
      | Some (Unseen_code v) \<Rightarrow> s\<lparr>sn_unseen := Some v\<rparr>
      | Some (Permanentflags_code f) \<Rightarrow> s\<lparr>sn_permanent_flags := f\<rparr>
      | _ \<Rightarrow> s)"

definition select_on_untagged :: "untagged_response \<Rightarrow> snapshot \<Rightarrow> snapshot" where
  "select_on_untagged r s =
     (case ur_kind r of
        K_exists \<Rightarrow> s\<lparr>sn_exists := wrap32 (ur_number r)\<rparr>
      | K_recent \<Rightarrow> s\<lparr>sn_recent := wrap32 (ur_number r)\<rparr>
      | K_flags \<Rightarrow> s\<lparr>sn_flags := parse_flag_list (ur_payload r) (sn_flags s)\<rparr>
      | K_ok \<Rightarrow> apply_ok_code (ur_code r) s
      | _ \<Rightarrow> s)"

definition snapshot_result :: "octets \<Rightarrow> bool \<Rightarrow> snapshot \<Rightarrow> mailbox_info" where
  "snapshot_result mailbox read_only s =
     \<lparr>mb_name = mailbox, mb_exists = sn_exists s, mb_recent = sn_recent s, mb_unseen = sn_unseen s,
      mb_uid_validity = sn_uid_validity s, mb_uid_next = sn_uid_next s, mb_flags = sn_flags s,
      mb_permanent_flags = sn_permanent_flags s, mb_read_only = read_only\<rparr>"

definition select_on_tagged :: "octets \<Rightarrow> tagged_response \<Rightarrow> snapshot \<Rightarrow> error_code \<times> mailbox_info" where
  "select_on_tagged mailbox r s =
     (if status_ec (tr_status r) \<noteq> No_error then (status_ec (tr_status r), default_mailbox_info)
      else (No_error, snapshot_result mailbox (tr_code r = Some Read_only_code) s))"

definition examine_on_tagged :: "octets \<Rightarrow> tagged_response \<Rightarrow> snapshot \<Rightarrow> error_code \<times> mailbox_info" where
  "examine_on_tagged mailbox r s =
     (if status_ec (tr_status r) \<noteq> No_error then (status_ec (tr_status r), default_mailbox_info)
      else (No_error, snapshot_result mailbox (\<not> tr_code r = Some Read_write_code) s))"

section \<open>LIST\<close>

text \<open>The string readers of LIST and STATUS work on an offset; they return the value and the new
  offset. \<open>from_chars_prefix\<close> is \<open>std::from_chars\<close> on a text that may go on after its digits.\<close>

definition from_chars_prefix :: "nat \<Rightarrow> octets \<Rightarrow> nat option" where
  "from_chars_prefix m src =
     (let ds = takeWhile is_digit src in if ds = [] then None else from_chars m ds)"

definition find_from :: "char \<Rightarrow> octets \<Rightarrow> nat \<Rightarrow> nat option" where
  "find_from c src pos = map_option (\<lambda>i. pos + i) (find_char c (drop pos src))"

definition skip_sp :: "octets \<Rightarrow> nat \<Rightarrow> nat" where
  "skip_sp src pos = advance_while (\<lambda>x. x = SP) src pos"

function parse_quoted_loop :: "octets \<Rightarrow> nat \<Rightarrow> octets \<Rightarrow> octets \<times> nat" where
  "parse_quoted_loop src pos out =
     (if pos < length src then
        (if src ! pos = DQUOTE then (out, pos + 1)
         else if src ! pos = BSLASH \<and> pos + 1 < length src
         then parse_quoted_loop src (pos + 2) (out @ [src ! (pos + 1)])
         else parse_quoted_loop src (pos + 1) (out @ [src ! pos]))
      else (out, pos))"
  by pat_completeness auto
termination by (relation "measure (\<lambda>(src, pos, out). length src - pos)") auto

declare parse_quoted_loop.simps [simp del]

definition parse_quoted :: "octets \<Rightarrow> nat \<Rightarrow> octets \<times> nat" where
  "parse_quoted src pos = parse_quoted_loop src (pos + 1) []"

definition parse_literal :: "octets \<Rightarrow> nat \<Rightarrow> octets \<times> nat" where
  "parse_literal src pos =
     (case find_from (CHR ''}'') src pos of
        None \<Rightarrow> ([], length src)
      | Some cl \<Rightarrow>
          (case from_chars_prefix u64_max (take (cl - (pos + 1)) (drop (pos + 1) src)) of
             None \<Rightarrow> ([], length src)
           | Some n \<Rightarrow>
               (let p = (if take 2 (drop (cl + 1) src) = CRLF then cl + 3 else cl + 1);
                    avail = length src - p;
                    tk = (if n < avail then n else avail)
                in (take tk (drop p src), p + tk))))"

definition parse_atom :: "octets \<Rightarrow> nat \<Rightarrow> octets \<times> nat" where
  "parse_atom src pos =
     (let stop = advance_while (\<lambda>c. c \<noteq> SP \<and> c \<noteq> CHR ''('' \<and> c \<noteq> CHR '')'') src pos
      in (take (stop - pos) (drop pos src), stop))"

definition parse_string :: "octets \<Rightarrow> nat \<Rightarrow> octets \<times> nat" where
  "parse_string src pos =
     (if pos \<ge> length src then ([], pos)
      else if src ! pos = DQUOTE then parse_quoted src pos
      else if src ! pos = CHR ''{'' then parse_literal src pos
      else parse_atom src pos)"

definition apply_row_attr :: "octets \<Rightarrow> mailbox_entry \<Rightarrow> mailbox_entry" where
  "apply_row_attr attr e =
     (if attr = [] \<or> hd attr \<noteq> BSLASH then e
      else if ascii_iequals (tl attr) ''Noselect'' then e\<lparr>me_no_select := True\<rparr>
      else if ascii_iequals (tl attr) ''HasChildren'' then e\<lparr>me_has_children := True\<rparr>
      else if ascii_iequals (tl attr) ''HasNoChildren'' then e\<lparr>me_has_no_children := True\<rparr>
      else e)"

function apply_row_flags :: "octets \<Rightarrow> mailbox_entry \<Rightarrow> mailbox_entry" where
  "apply_row_flags body e =
     (if body = [] then e
      else
        (case find_char SP body of
           None \<Rightarrow> apply_row_attr body e
         | Some sp \<Rightarrow> apply_row_flags (drop (sp + 1) body) (apply_row_attr (take sp body) e)))"
  by pat_completeness auto
termination by (relation "measure (\<lambda>(body, e). length body)") auto

declare apply_row_flags.simps [simp del]

definition list_parse_row :: "octets \<Rightarrow> mailbox_entry list \<Rightarrow> mailbox_entry list" where
  "list_parse_row src entries =
     (if src = [] \<or> hd src \<noteq> CHR ''('' then entries
      else
        (case find_from (CHR '')'') src 0 of
           None \<Rightarrow> entries
         | Some cl \<Rightarrow>
             (let e1 = apply_row_flags (take (cl - 1) (drop 1 src)) default_mailbox_entry;
                  pos = skip_sp src (cl + 1);
                  (e2, pos2) =
                    (if pos + 3 \<le> length src \<and> ascii_iequals (take 3 (drop pos src)) ''NIL''
                     then (e1, pos + 3)
                     else (let (d, p) = parse_string src pos in (e1\<lparr>me_delimiter := d\<rparr>, p)));
                  (name, pos3) = parse_string src (skip_sp src pos2)
              in entries @ [e2\<lparr>me_name := name\<rparr>])))"

definition list_on_untagged :: "untagged_response \<Rightarrow> mailbox_entry list \<Rightarrow> mailbox_entry list" where
  "list_on_untagged r entries =
     (if ur_kind r \<noteq> K_list then entries else list_parse_row (ur_payload r) entries)"

section \<open>STATUS\<close>

function skip_quoted_loop :: "octets \<Rightarrow> nat \<Rightarrow> nat" where
  "skip_quoted_loop src pos =
     (if pos < length src then
        (if src ! pos = DQUOTE then pos + 1
         else skip_quoted_loop src (pos + (if src ! pos = BSLASH \<and> pos + 1 < length src then 2 else 1)))
      else pos)"
  by pat_completeness auto
termination by (relation "measure (\<lambda>(src, pos). length src - pos)") auto

declare skip_quoted_loop.simps [simp del]

definition skip_quoted :: "octets \<Rightarrow> nat \<Rightarrow> nat" where
  "skip_quoted src pos = skip_quoted_loop src (pos + 1)"

definition skip_literal :: "octets \<Rightarrow> nat \<Rightarrow> nat" where
  "skip_literal src pos =
     (case find_from (CHR ''}'') src pos of
        None \<Rightarrow> length src
      | Some cl \<Rightarrow>
          (case from_chars_prefix u64_max (take (cl - (pos + 1)) (drop (pos + 1) src)) of
             None \<Rightarrow> length src
           | Some n \<Rightarrow>
               (let p = (if take 2 (drop (cl + 1) src) = CRLF then cl + 3 else cl + 1);
                    avail = length src - p
                in p + (if n < avail then n else avail))))"

definition skip_string :: "octets \<Rightarrow> nat \<Rightarrow> nat" where
  "skip_string src pos =
     (if pos \<ge> length src then pos
      else if src ! pos = DQUOTE then skip_quoted src pos
      else if src ! pos = CHR ''{'' then skip_literal src pos
      else advance_while (\<lambda>c. c \<noteq> SP \<and> c \<noteq> CHR ''('') src pos)"

definition apply_pair :: "octets \<Rightarrow> octets \<Rightarrow> mailbox_status \<Rightarrow> mailbox_status" where
  "apply_pair name number s =
     (case from_chars_prefix u32_max number of
        None \<Rightarrow> s
      | Some v \<Rightarrow>
          (if ascii_iequals name ''MESSAGES'' then s\<lparr>ms_messages := Some v\<rparr>
           else if ascii_iequals name ''RECENT'' then s\<lparr>ms_recent := Some v\<rparr>
           else if ascii_iequals name ''UIDNEXT'' then s\<lparr>ms_uid_next := Some v\<rparr>
           else if ascii_iequals name ''UIDVALIDITY'' then s\<lparr>ms_uid_validity := Some v\<rparr>
           else if ascii_iequals name ''UNSEEN'' then s\<lparr>ms_unseen := Some v\<rparr>
           else s))"

function status_pairs :: "octets \<Rightarrow> mailbox_status \<Rightarrow> mailbox_status" where
  "status_pairs body s =
     (if body = [] then s
      else
        (case find_char SP body of
           None \<Rightarrow> s
         | Some sp \<Rightarrow>
             (let name = take sp body; rest = drop (sp + 1) body
              in case find_char SP rest of
                   None \<Rightarrow> apply_pair name rest s
                 | Some sp2 \<Rightarrow> status_pairs (drop (sp2 + 1) rest) (apply_pair name (take sp2 rest) s))))"
  by pat_completeness auto
termination by (relation "measure (\<lambda>(body, s). length body)") auto

declare status_pairs.simps [simp del]

definition status_parse_row :: "octets \<Rightarrow> mailbox_status \<Rightarrow> mailbox_status" where
  "status_parse_row src s =
     (let pos = skip_sp src (skip_string src 0)
      in if pos \<ge> length src \<or> src ! pos \<noteq> CHR ''('' then s
         else
           (case find_from (CHR '')'') src pos of
              None \<Rightarrow> s
            | Some cl \<Rightarrow>
                status_pairs (take (cl - pos - 1) (drop (pos + 1) src)) default_mailbox_status))"

definition status_on_untagged :: "untagged_response \<Rightarrow> mailbox_status \<Rightarrow> mailbox_status" where
  "status_on_untagged r s = (if ur_kind r \<noteq> K_status then s else status_parse_row (ur_payload r) s)"

section \<open>SEARCH\<close>

text \<open>The inner digit loop: the 32-bit number it accumulates and where it stops.\<close>

definition search_number :: "octets \<Rightarrow> nat" where
  "search_number ds = foldl (\<lambda>n c. wrap32 (n * 10 + digit_val c)) 0 ds"

definition is_search_space :: "char \<Rightarrow> bool" where
  "is_search_space c \<longleftrightarrow> c = SP \<or> c = CR \<or> c = LF"

partial_function (option) search_loop :: "octets \<Rightarrow> nat \<Rightarrow> nat list \<Rightarrow> nat list option" where
  "search_loop src pos matches =
     (if pos < length src then
        (let p1 = advance_while is_search_space src pos;
             p2 = advance_while is_digit src p1
         in search_loop src p2
              (if p2 \<noteq> p1 then matches @ [search_number (take (p2 - p1) (drop p1 src))] else matches))
      else Some matches)"

definition search_on_untagged :: "untagged_response \<Rightarrow> nat list \<Rightarrow> nat list option" where
  "search_on_untagged r matches =
     (if ur_kind r \<noteq> K_search then Some matches else search_loop (ur_payload r) 0 matches)"

section \<open>FETCH\<close>

text \<open>What the walk of a response adds to the data collected so far.\<close>

fun absorb :: "'a outcome option \<Rightarrow> ('a \<Rightarrow> 'b list) \<Rightarrow> 'b list \<Rightarrow> 'b list option" where
  "absorb (Some (Done x)) f acc = Some (acc @ f x)"
| "absorb (Some Malformed) f acc = Some acc"
| "absorb _ f acc = None"

definition fetch_on_untagged ::
  "untagged_response \<Rightarrow> message_attributes list \<Rightarrow> message_attributes list option" where
  "fetch_on_untagged r data =
     (if ur_kind r \<noteq> K_fetch then Some data
      else absorb (parse_fetch_attributes (ur_payload r) empty_attributes) (\<lambda>m. [m]) data)"

definition fetch_envelopes_on_untagged :: "untagged_response \<Rightarrow> envelope list \<Rightarrow> envelope list option" where
  "fetch_envelopes_on_untagged r envelopes =
     (if ur_kind r \<noteq> K_fetch then Some envelopes
      else absorb (parse_envelope_attribute (ur_payload r) empty_envelope) (\<lambda>e. [e]) envelopes)"

definition fetch_headers_on_untagged :: "untagged_response \<Rightarrow> mail_header list \<Rightarrow> mail_header list option" where
  "fetch_headers_on_untagged r headers =
     (if ur_kind r \<noteq> K_fetch then Some headers
      else absorb (parse_body_section_attribute (ur_payload r) ''BODY[HEADER.FIELDS'' None)
        (\<lambda>block. case block of None \<Rightarrow> [] | Some b \<Rightarrow> [parse_mail_header_block b empty_header]) headers)"

text \<open>\<open>find_text\<close> is \<open>string_view::find\<close> of a string.\<close>

fun find_text :: "octets \<Rightarrow> octets \<Rightarrow> nat option" where
  "find_text pat [] = (if pat = [] then Some 0 else None)"
| "find_text pat (x # xs) =
     (if take (length pat) (x # xs) = pat then Some 0 else map_option Suc (find_text pat xs))"

definition split_message :: "octets \<Rightarrow> octets \<times> octets" where
  "split_message msg =
     (case find_text (CRLF @ CRLF) msg of
        Some n \<Rightarrow> (take n msg, drop (n + 4) msg)
      | None \<Rightarrow>
          (case find_text [LF, LF] msg of
             Some n \<Rightarrow> (take n msg, drop (n + 2) msg)
           | None \<Rightarrow> (msg, [])))"

definition message_of :: "octets \<Rightarrow> mail" where
  "message_of msg =
     (let (header_block, body_block) = split_message msg
      in \<lparr>ml_header = parse_mail_header_block header_block empty_header,
          ml_body = \<lparr>mbody_content_type = [], mbody_data = body_block\<rparr>, ml_envelope = None\<rparr>)"

definition fetch_message_on_untagged :: "untagged_response \<Rightarrow> mail list \<Rightarrow> mail list option" where
  "fetch_message_on_untagged r messages =
     (if ur_kind r \<noteq> K_fetch then Some messages
      else absorb (parse_body_section_attribute (ur_payload r) ''BODY[]'' None)
        (\<lambda>v. case v of None \<Rightarrow> [] | Some msg \<Rightarrow> [message_of msg]) messages)"

section \<open>All commands\<close>

definition on_untagged :: "untagged_response \<Rightarrow> command \<Rightarrow> command option" where
  "on_untagged r c =
     (case cmd_accum c of
        Caps_accum caps \<Rightarrow> Some (c\<lparr>cmd_accum := Caps_accum (capability_on_untagged r caps)\<rparr>)
      | Snapshot_accum s \<Rightarrow> Some (c\<lparr>cmd_accum := Snapshot_accum (select_on_untagged r s)\<rparr>)
      | Rows_accum es \<Rightarrow> Some (c\<lparr>cmd_accum := Rows_accum (list_on_untagged r es)\<rparr>)
      | Status_accum s \<Rightarrow> Some (c\<lparr>cmd_accum := Status_accum (status_on_untagged r s)\<rparr>)
      | Matches_accum ms \<Rightarrow>
          map_option (\<lambda>ms'. c\<lparr>cmd_accum := Matches_accum ms'\<rparr>) (search_on_untagged r ms)
      | Fetch_accum ds \<Rightarrow> map_option (\<lambda>ds'. c\<lparr>cmd_accum := Fetch_accum ds'\<rparr>) (fetch_on_untagged r ds)
      | Envelopes_accum es \<Rightarrow>
          map_option (\<lambda>es'. c\<lparr>cmd_accum := Envelopes_accum es'\<rparr>) (fetch_envelopes_on_untagged r es)
      | Headers_accum hs \<Rightarrow>
          map_option (\<lambda>hs'. c\<lparr>cmd_accum := Headers_accum hs'\<rparr>) (fetch_headers_on_untagged r hs)
      | Messages_accum ms \<Rightarrow>
          map_option (\<lambda>ms'. c\<lparr>cmd_accum := Messages_accum ms'\<rparr>) (fetch_message_on_untagged r ms)
      | _ \<Rightarrow> Some c)"

record raw_response =
  raw_tag :: octets
  raw_ok :: bool
  raw_text :: octets

definition default_raw_response :: raw_response where
  "default_raw_response = \<lparr>raw_tag = [], raw_ok = False, raw_text = []\<rparr>"

datatype command_result = No_result | Caps_result capability_set | Mailbox_result mailbox_info
  | Rows_result "mailbox_entry list" | Status_result mailbox_status | Matches_result "nat list"
  | Raw_result raw_response
  | Fetch_result "message_attributes list" | Envelopes_result "envelope list"
  | Headers_result "mail_header list" | Messages_result "mail list"

text \<open>\<open>result_type{}\<close> of a command: what rides along with an error.\<close>

fun default_result :: "command_args \<Rightarrow> command_result" where
  "default_result Capability = Caps_result []"
| "default_result (Select _) = Mailbox_result default_mailbox_info"
| "default_result (Examine _) = Mailbox_result default_mailbox_info"
| "default_result (List_mailboxes _ _) = Rows_result []"
| "default_result (Status _ _) = Status_result default_mailbox_status"
| "default_result (Search _) = Matches_result []"
| "default_result (Uid_search _) = Matches_result []"
| "default_result (Raw _) = Raw_result default_raw_response"
| "default_result (Fetch _ _) = Fetch_result []"
| "default_result (Uid_fetch _ _) = Fetch_result []"
| "default_result (Fetch_envelopes _) = Envelopes_result []"
| "default_result (Uid_fetch_envelopes _) = Envelopes_result []"
| "default_result (Fetch_headers _ _) = Headers_result []"
| "default_result (Uid_fetch_headers _ _) = Headers_result []"
| "default_result (Fetch_message _) = Messages_result []"
| "default_result (Uid_fetch_message _) = Messages_result []"
| "default_result _ = No_result"

text \<open>The FETCH family hands out what it collected when the reply is OK.\<close>

definition fetch_on_tagged :: "tagged_response \<Rightarrow> command_result \<Rightarrow> command_args \<Rightarrow> error_code \<times> command_result" where
  "fetch_on_tagged r data args =
     (let ec = map_status_to_ec (tr_status r) in (ec, if ec = No_error then data else default_result args))"

definition plain_on_tagged :: "tagged_response \<Rightarrow> command \<Rightarrow> error_code \<times> command_result" where
  "plain_on_tagged r c =
     (let ec = status_ec (tr_status r); dflt = default_result (cmd_args c)
      in case (cmd_args c, cmd_accum c) of
           (Capability, Caps_accum caps) \<Rightarrow>
             (if ec \<noteq> No_error then (ec, dflt) else (No_error, Caps_result (add_code_atoms (tr_code r) caps)))
         | (Select mb, Snapshot_accum s) \<Rightarrow> map_prod id Mailbox_result (select_on_tagged mb r s)
         | (Examine mb, Snapshot_accum s) \<Rightarrow> map_prod id Mailbox_result (examine_on_tagged mb r s)
         | (List_mailboxes _ _, Rows_accum es) \<Rightarrow>
             (if ec \<noteq> No_error then (ec, dflt) else (No_error, Rows_result es))
         | (Status _ _, Status_accum s) \<Rightarrow>
             (if ec \<noteq> No_error then (ec, dflt) else (No_error, Status_result s))
         | (Search _, Matches_accum ms) \<Rightarrow>
             (let e = map_status_to_ec (tr_status r) in (e, if e = No_error then Matches_result ms else dflt))
         | (Uid_search _, Matches_accum ms) \<Rightarrow>
             (let e = map_status_to_ec (tr_status r) in (e, if e = No_error then Matches_result ms else dflt))
         | (Raw _, Raw_accum tag) \<Rightarrow> (No_error, Raw_result \<lparr>raw_tag = tag, raw_ok = (tr_status r = St_ok), raw_text = tr_text r\<rparr>)
         | (Idle, _) \<Rightarrow> (map_status_to_ec (tr_status r), No_result)
         | (Close_mailbox, _) \<Rightarrow> (map_status_to_ec (tr_status r), No_result)
         | (Expunge, _) \<Rightarrow> (map_status_to_ec (tr_status r), No_result)
         | (Store _ _ _, _) \<Rightarrow> (map_status_to_ec (tr_status r), No_result)
         | (Uid_store _ _ _, _) \<Rightarrow> (map_status_to_ec (tr_status r), No_result)
         | (Copy _ _, _) \<Rightarrow> (map_status_to_ec (tr_status r), No_result)
         | (Uid_copy _ _, _) \<Rightarrow> (map_status_to_ec (tr_status r), No_result)
         | (Move _ _, _) \<Rightarrow> (map_status_to_ec (tr_status r), No_result)
         | (Uid_move _ _, _) \<Rightarrow> (map_status_to_ec (tr_status r), No_result)
         | _ \<Rightarrow> (ec, dflt))"

definition on_tagged :: "tagged_response \<Rightarrow> command \<Rightarrow> error_code \<times> command_result" where
  "on_tagged r c =
     (case cmd_accum c of
        Fetch_accum ds \<Rightarrow> fetch_on_tagged r (Fetch_result ds) (cmd_args c)
      | Envelopes_accum es \<Rightarrow> fetch_on_tagged r (Envelopes_result es) (cmd_args c)
      | Headers_accum hs \<Rightarrow> fetch_on_tagged r (Headers_result hs) (cmd_args c)
      | Messages_accum ms \<Rightarrow> fetch_on_tagged r (Messages_result ms) (cmd_args c)
      | _ \<Rightarrow> plain_on_tagged r c)"

section \<open>Properties\<close>

lemma status_ec_eq: "status_ec st = map_status_to_ec st"
  by (cases st) (simp_all add: status_ec_def)

subsection \<open>SEARCH\<close>

lemma advance_while_between: "pos \<le> i \<Longrightarrow> i < advance_while p src pos \<Longrightarrow> p (src ! i)"
proof -
  assume "pos \<le> i" "i < advance_while p src pos"
  then have k: "i - pos < length (takeWhile p (drop pos src))" by (simp add: advance_while_eq)
  then have "p (takeWhile p (drop pos src) ! (i - pos))" using nth_mem set_takeWhileD by metis
  moreover have "takeWhile p (drop pos src) ! (i - pos) = src ! i"
    using k \<open>pos \<le> i\<close> takeWhile_nth [OF k] length_takeWhile_le [of p "drop pos src"] by simp
  ultimately show ?thesis by simp
qed

lemma advance_while_stops: "p2 = advance_while p src pos \<Longrightarrow> p2 < length src \<Longrightarrow> pos \<le> p2 \<Longrightarrow> \<not> p (src ! p2)"
proof (induction p src pos rule: advance_while.induct)
  case (1 p src pos)
  show ?case
  proof (cases "pos < length src \<and> p (src ! pos)")
    case True
    then have "p2 = advance_while p src (Suc pos)" using 1(2) by (subst (asm) advance_while.simps) simp
    then show ?thesis using 1 True advance_while_ge by blast
  next
    case False
    then have "p2 = pos" using 1(2) by (subst (asm) advance_while.simps) auto
    then show ?thesis using False 1(3) by simp
  qed
qed

lemma advance_while_first: "pos < length src \<Longrightarrow> p (src ! pos) \<Longrightarrow> pos < advance_while p src pos"
  using advance_while_ge [of "Suc pos" p src] by (subst advance_while.simps) simp

abbreviation search_char :: "char \<Rightarrow> bool" where
  "search_char c \<equiv> is_digit c \<or> is_search_space c"

lemma search_loop_SomeD:
  "search_loop src pos ms = Some r \<Longrightarrow> \<forall>i < length src. pos \<le> i \<longrightarrow> search_char (src ! i)"
proof (erule search_loop.raw_induct [rotated], intro allI impI, goal_cases)
  case (1 f src pos ms r i)
  let ?p1 = "advance_while is_search_space src pos"
  let ?p2 = "advance_while is_digit src ?p1"
  from 1 have ih: "\<forall>i < length src. ?p2 \<le> i \<longrightarrow> search_char (src ! i)"
    by (auto simp: Let_def split: if_splits)
  consider "i < ?p1" | "?p1 \<le> i" "i < ?p2" | "?p2 \<le> i" by linarith
  then show ?case
    using 1 ih advance_while_between [of pos i is_search_space src]
      advance_while_between [of ?p1 i is_digit src] by cases auto
qed

lemma search_loop_returns:
  "\<forall>i < length src. pos \<le> i \<longrightarrow> search_char (src ! i) \<Longrightarrow> \<exists>r. search_loop src pos ms = Some r"
proof (induction "length src - pos" arbitrary: pos ms rule: less_induct)
  case less
  show ?case
  proof (cases "pos < length src")
    case True
    let ?p1 = "advance_while is_search_space src pos"
    let ?p2 = "advance_while is_digit src ?p1"
    have mono: "pos \<le> ?p1" "?p1 \<le> ?p2" by (rule advance_while_ge)+
    have "pos < ?p2"
      using less.prems True advance_while_first [of pos src is_search_space]
        advance_while_first [of pos src is_digit] mono
      by (cases "is_search_space (src ! pos)") (auto simp: less_le)
    then have "\<exists>r. search_loop src ?p2 ms' = Some r" for ms'
      using less.hyps [of ?p2 ms'] less.prems True by auto
    then show ?thesis using True by (subst search_loop.simps) (simp add: Let_def)
  qed (simp add: search_loop.simps)
qed

text \<open>
  C35. The number loop of SEARCH returns exactly on payloads of digits, spaces and line ends: on any
  other character, such as the parenthesis of an extended search result, it never ends.
\<close>

theorem search_returns_iff:
  "(\<exists>ms'. search_on_untagged (r\<lparr>ur_kind := K_search\<rparr>) ms = Some ms') \<longleftrightarrow>
     list_all search_char (ur_payload r)"
proof
  assume "\<exists>ms'. search_on_untagged (r\<lparr>ur_kind := K_search\<rparr>) ms = Some ms'"
  then show "list_all search_char (ur_payload r)"
    by (auto simp: search_on_untagged_def list_all_length dest: search_loop_SomeD)
next
  assume "list_all search_char (ur_payload r)"
  then show "\<exists>ms'. search_on_untagged (r\<lparr>ur_kind := K_search\<rparr>) ms = Some ms'"
    using search_loop_returns [of "ur_payload r" 0 ms]
    by (auto simp: search_on_untagged_def list_all_length)
qed

lemma search_number_exact:
  "list_all is_digit ds \<Longrightarrow> dec_value ds \<le> u32_max \<Longrightarrow> search_number ds = dec_value ds"
proof -
  have "list_all is_digit ds \<Longrightarrow> dec_value_from v ds \<le> u32_max \<Longrightarrow>
      foldl (\<lambda>n c. wrap32 (n * 10 + digit_val c)) v ds = dec_value_from v ds" for v
  proof (induction ds arbitrary: v)
    case (Cons d ds)
    have "v * 10 + digit_val d \<le> u32_max"
      using Cons.prems(2) dec_value_from_ge [of "v * 10 + digit_val d" ds] by simp
    then show ?case using Cons by simp
  qed simp
  then show "list_all is_digit ds \<Longrightarrow> dec_value ds \<le> u32_max \<Longrightarrow> search_number ds = dec_value ds"
    by (simp add: search_number_def)
qed

lemma digit_not_search_space: "is_digit d \<Longrightarrow> \<not> is_search_space d"
proof
  assume d: "is_digit d" and "is_search_space d"
  have "\<not> is_digit SP" "\<not> is_digit CR" "\<not> is_digit LF" by (simp_all add: is_digit_def)
  then show False using d \<open>is_search_space d\<close> unfolding is_search_space_def by metis
qed

lemma search_loop_numbers:
  "drop pos src = pre @ sp_join (map to_chars ns) \<Longrightarrow> pre = [] \<or> (pre = [SP] \<and> ns \<noteq> []) \<Longrightarrow>
     pos \<le> length src \<Longrightarrow> list_all (\<lambda>n. n \<le> u32_max) ns \<Longrightarrow> search_loop src pos ms = Some (ms @ ns)"
proof (induction ns arbitrary: pos ms pre)
  case Nil
  then have "pos = length src" by simp
  then show ?case by (simp add: search_loop.simps)
next
  case (Cons n ns)
  define pre' tail where "pre' = (if ns = [] then [] else [SP])"
    and "tail = pre' @ sp_join (map to_chars ns)"
  obtain d ds where d: "to_chars n = d # ds" "is_digit d"
    using to_chars_digits [of n] by (cases "to_chars n") auto
  have nsp: "\<not> is_search_space d" using d(2) digit_not_search_space by blast
  have here: "drop pos src = pre @ to_chars n @ tail"
    using Cons.prems(1) by (simp add: tail_def pre'_def)
  let ?p1 = "pos + length pre"
  have p1: "advance_while is_search_space src pos = ?p1"
    using here d nsp Cons.prems(2) by (auto simp: advance_while_eq) (simp add: is_search_space_def)
  have rest: "drop ?p1 src = to_chars n @ tail"
    using arg_cong [OF here, of "drop (length pre)"] by (simp add: add.commute)
  have ends: "tail = [] \<or> \<not> is_digit (hd tail)" by (auto simp: tail_def pre'_def)
  have p2: "advance_while is_digit src ?p1 = ?p1 + length (to_chars n)"
    using run_split(1) [OF to_chars_digits ends] rest by (simp add: advance_while_eq)
  let ?p2 = "?p1 + length (to_chars n)"
  have "pos < length src" using here d by (cases "pos < length src") auto
  then have "search_loop src pos ms = search_loop src ?p2 (ms @ [search_number (to_chars n)])"
    using p1 p2 rest by (subst search_loop.simps) (simp add: Let_def)
  moreover have "search_number (to_chars n) = n"
    using search_number_exact [OF to_chars_digits, of n] Cons.prems(4) by simp
  moreover have "drop ?p2 src = tail"
    using arg_cong [OF rest, of "drop (length (to_chars n))"] by (simp add: add.commute)
  moreover have "?p2 \<le> length src"
    using arg_cong [OF here, of length] Cons.prems(3) by simp
  ultimately show ?case
    using Cons.IH [of ?p2 pre' "ms @ [n]"] Cons.prems(4) by (simp add: tail_def pre'_def)
qed

text \<open>
  SEARCH collects every number: a payload that lists 32-bit numbers separated by spaces is
  absorbed completely, in order, after the numbers of earlier responses.
\<close>

theorem search_collects:
  assumes "list_all (\<lambda>n. n \<le> u32_max) ns"
    and "ur_kind r = K_search" "ur_payload r = sp_join (map to_chars ns)"
  shows "search_on_untagged r ms = Some (ms @ ns)"
  using search_loop_numbers [of 0 "ur_payload r" "[]" ns ms] assms
  by (simp add: search_on_untagged_def)

theorem search_collects_witness:
  "search_on_untagged (default_untagged\<lparr>ur_kind := K_search, ur_payload := ''2 84''\<rparr>) [7] = Some ([7] @ [2, 84])"
proof (rule search_collects)
  show "list_all (\<lambda>n. n \<le> u32_max) [2, 84 :: nat]" by (simp add: u32_max_def)
  have "to_chars 2 = ''2''" "to_chars 84 = ''84''" by code_simp+
  then show "ur_payload (default_untagged\<lparr>ur_kind := K_search, ur_payload := ''2 84''\<rparr>) =
      sp_join (map to_chars [2, 84])" by simp
qed simp

subsection \<open>LIST and STATUS rows\<close>

lemma find_from_append:
  "c \<notin> set x \<Longrightarrow> find_from c (pre @ x @ c # rest) (length pre) = Some (length pre + length x)"
  by (simp add: find_from_def)

lemma skip_sp_at: "rest = [] \<or> hd rest \<noteq> SP \<Longrightarrow> skip_sp (pre @ SP # rest) (length pre) = length pre + 1"
  by (cases rest) (auto simp: skip_sp_def advance_while_eq)

lemma parse_quoted_loop_escape:
  "parse_quoted_loop (pre @ escape_quoted v @ DQUOTE # rest) (length pre) out =
     (out @ v, length pre + length (escape_quoted v) + 1)"
proof (induction v arbitrary: pre out)
  case Nil
  show ?case by (subst parse_quoted_loop.simps) (simp add: nth_append)
next
  case (Cons c v)
  show ?case
  proof (cases "is_quoted_special c")
    case True
    have "pre @ escape_quoted (c # v) @ DQUOTE # rest = (pre @ [BSLASH, c]) @ escape_quoted v @ DQUOTE # rest"
      using True by simp
    then show ?thesis
      using Cons.IH [of "pre @ [BSLASH, c]" "out @ [c]"] True
      by (subst parse_quoted_loop.simps) (simp add: nth_append)
  next
    case False
    then have "c \<noteq> DQUOTE" "c \<noteq> BSLASH" by (auto simp: is_quoted_special_def)
    then show ?thesis
      using Cons.IH [of "pre @ [c]" "out @ [c]"] False
      by (subst parse_quoted_loop.simps) (simp add: nth_append)
  qed
qed

lemma skip_quoted_loop_escape:
  "skip_quoted_loop (pre @ escape_quoted v @ DQUOTE # rest) (length pre) =
     length pre + length (escape_quoted v) + 1"
proof (induction v arbitrary: pre)
  case Nil
  show ?case by (subst skip_quoted_loop.simps) (simp add: nth_append)
next
  case (Cons c v)
  show ?case
  proof (cases "is_quoted_special c")
    case True
    have "pre @ escape_quoted (c # v) @ DQUOTE # rest = (pre @ [BSLASH, c]) @ escape_quoted v @ DQUOTE # rest"
      using True by simp
    then show ?thesis
      using Cons.IH [of "pre @ [BSLASH, c]"] True
      by (subst skip_quoted_loop.simps) (simp add: nth_append)
  next
    case False
    then have "c \<noteq> DQUOTE" "c \<noteq> BSLASH" by (auto simp: is_quoted_special_def)
    then show ?thesis
      using Cons.IH [of "pre @ [c]"] False
      by (subst skip_quoted_loop.simps) (simp add: nth_append)
  qed
qed

lemma parse_string_quote:
  "parse_string (pre @ quote v @ rest) (length pre) = (v, length pre + length (quote v))"
  using parse_quoted_loop_escape [of "pre @ [DQUOTE]" v rest "[]"]
  by (simp add: parse_string_def parse_quoted_def quote_def nth_append)

lemma skip_string_quote: "skip_string (quote v @ rest) 0 = length (quote v)"
  using skip_quoted_loop_escape [of "[DQUOTE]" v rest]
  by (simp add: skip_string_def skip_quoted_def quote_def)

lemma find_char_absent: "c \<notin> set xs \<Longrightarrow> find_char c xs = None"
  by simp

lemma apply_row_flags_join:
  "list_all (\<lambda>x. x \<noteq> [] \<and> SP \<notin> set x) xs \<Longrightarrow>
     apply_row_flags (sp_join xs) e = foldl (\<lambda>e a. apply_row_attr a e) e xs"
proof (induction xs arbitrary: e)
  case Nil
  show ?case by (simp add: apply_row_flags.simps)
next
  case (Cons x xs)
  then show ?case
    by (cases "xs = []"; subst apply_row_flags.simps) (auto simp: find_char_absent)
qed

definition row_attrs :: "mailbox_entry \<Rightarrow> octets list" where
  "row_attrs e =
     (if me_no_select e then [BSLASH # ''Noselect''] else []) @
     (if me_has_children e then [BSLASH # ''HasChildren''] else []) @
     (if me_has_no_children e then [BSLASH # ''HasNoChildren''] else [])"

definition print_row :: "mailbox_entry \<Rightarrow> octets" where
  "print_row e =
     ''('' @ sp_join (row_attrs e) @ '') '' @
     (if me_delimiter e = [] then ''NIL'' else quote (me_delimiter e)) @ '' '' @ quote (me_name e)"

lemma row_attrs_ok:
  "list_all (\<lambda>x. x \<noteq> [] \<and> SP \<notin> set x) (row_attrs e)" "CHR '')'' \<notin> set (sp_join (row_attrs e))"
  by (auto simp: row_attrs_def)

lemma row_attr_names:
  "apply_row_attr (BSLASH # ''Noselect'') e = e\<lparr>me_no_select := True\<rparr>"
  "apply_row_attr (BSLASH # ''HasChildren'') e = e\<lparr>me_has_children := True\<rparr>"
  "apply_row_attr (BSLASH # ''HasNoChildren'') e = e\<lparr>me_has_no_children := True\<rparr>"
proof -
  have "\<not> ascii_iequals ''HasChildren'' ''Noselect''" "\<not> ascii_iequals ''HasNoChildren'' ''Noselect''"
    "\<not> ascii_iequals ''HasNoChildren'' ''HasChildren''" by (simp_all add: ascii_iequals_def)
  then show "apply_row_attr (BSLASH # ''Noselect'') e = e\<lparr>me_no_select := True\<rparr>"
    "apply_row_attr (BSLASH # ''HasChildren'') e = e\<lparr>me_has_children := True\<rparr>"
    "apply_row_attr (BSLASH # ''HasNoChildren'') e = e\<lparr>me_has_no_children := True\<rparr>"
    by (simp_all add: apply_row_attr_def)
qed

lemma row_attrs_applied:
  "foldl (\<lambda>e a. apply_row_attr a e) default_mailbox_entry (row_attrs e) =
     e\<lparr>me_name := [], me_delimiter := []\<rparr>"
  by (cases e) (auto simp: row_attrs_def row_attr_names default_mailbox_entry_def)

text \<open>
  LIST rows round-trip: the row of any entry, with its attributes, its quoted delimiter or NIL
  and its quoted name, whatever octets they hold, is absorbed as exactly this entry after the rows
  received before.
\<close>

theorem list_row_roundtrip:
  assumes "ur_kind r = K_list" "ur_payload r = print_row e"
  shows "list_on_untagged r es = es @ [e]"
proof -
  let ?at = "sp_join (row_attrs e)"
  let ?dl = "if me_delimiter e = [] then ''NIL'' else quote (me_delimiter e)"
  let ?src = "print_row e"
  have src: "?src = ''('' @ ?at @ CHR '')'' # SP # ?dl @ SP # quote (me_name e)"
    by (simp add: print_row_def)
  have cl: "find_from (CHR '')'') ?src 0 = Some (1 + length ?at)"
    using find_from_append [of "CHR '')''" "''('' @ ?at" "[]"] row_attrs_ok(2) [of e]
    unfolding src by simp
  define p1 where "p1 = ''('' @ ?at @ '')''"
  have s1: "?src = p1 @ SP # ?dl @ SP # quote (me_name e)" unfolding src p1_def by simp
  have pos: "skip_sp ?src (1 + length ?at + 1) = length (p1 @ '' '')"
    using skip_sp_at [of "?dl @ SP # quote (me_name e)" p1] unfolding s1
    by (auto simp: p1_def quote_def)
  have dl: "drop (length (p1 @ '' '')) ?src = ?dl @ SP # quote (me_name e)" unfolding s1 by simp
  have len3: "length (p1 @ '' '') + 3 \<le> length ?src" unfolding s1 by (simp add: quote_def)
  have nil: "ascii_iequals (take 3 (drop (length (p1 @ '' '')) ?src)) ''NIL'' \<longleftrightarrow> me_delimiter e = []"
    unfolding dl by (auto simp: quote_def ascii_iequals_def ascii_to_upper_def)
  define p2 where "p2 = p1 @ '' '' @ ?dl"
  have delim: "me_delimiter e \<noteq> [] \<Longrightarrow> parse_string ?src (length (p1 @ '' '')) = (me_delimiter e, length p2)"
    using parse_string_quote [of "p1 @ '' ''" "me_delimiter e" "SP # quote (me_name e)"]
    unfolding s1 p2_def by simp
  have p2nil: "me_delimiter e = [] \<Longrightarrow> length p2 = length (p1 @ '' '') + 3" unfolding p2_def by simp
  have s2: "?src = p2 @ SP # quote (me_name e)" unfolding s1 p2_def by simp
  have pos3: "skip_sp ?src (length p2) = length (p2 @ '' '')"
    using skip_sp_at [of "quote (me_name e)" p2] unfolding s2 by (auto simp: quote_def)
  have name: "parse_string ?src (length (p2 @ '' '')) = (me_name e, length ?src)"
    using parse_string_quote [of "p2 @ '' ''" "me_name e" "[]"] unfolding s2 by simp
  have flags: "apply_row_flags (take (1 + length ?at - 1) (drop 1 ?src)) default_mailbox_entry =
      e\<lparr>me_name := [], me_delimiter := []\<rparr>"
    unfolding src using apply_row_flags_join [OF row_attrs_ok(1), of e] row_attrs_applied by simp
  have hd: "?src \<noteq> []" "hd ?src = CHR ''(''" unfolding src by simp_all
  show ?thesis
  proof (cases "me_delimiter e = []")
    case True
    then show ?thesis
      using assms hd cl flags pos nil len3 p2nil pos3 name
      by (cases e) (simp add: list_on_untagged_def list_parse_row_def Let_def)
  next
    case False
    then show ?thesis
      using assms hd cl flags pos nil len3 delim pos3 name
      by (cases e) (simp add: list_on_untagged_def list_parse_row_def Let_def)
  qed
qed

theorem list_row_roundtrip_witness:
  "list_on_untagged (default_untagged\<lparr>ur_kind := K_list,
       ur_payload := print_row (default_mailbox_entry\<lparr>me_name := ''INBOX'', me_delimiter := ''/''\<rparr>)\<rparr>) [] =
     [] @ [default_mailbox_entry\<lparr>me_name := ''INBOX'', me_delimiter := ''/''\<rparr>]"
  by (rule list_row_roundtrip) simp_all

definition status_fields :: "mailbox_status \<Rightarrow> (octets \<times> nat) list" where
  "status_fields s =
     (case ms_messages s of None \<Rightarrow> [] | Some n \<Rightarrow> [(''MESSAGES'', n)]) @
     (case ms_recent s of None \<Rightarrow> [] | Some n \<Rightarrow> [(''RECENT'', n)]) @
     (case ms_uid_next s of None \<Rightarrow> [] | Some n \<Rightarrow> [(''UIDNEXT'', n)]) @
     (case ms_uid_validity s of None \<Rightarrow> [] | Some n \<Rightarrow> [(''UIDVALIDITY'', n)]) @
     (case ms_unseen s of None \<Rightarrow> [] | Some n \<Rightarrow> [(''UNSEEN'', n)])"

definition print_pairs :: "(octets \<times> nat) list \<Rightarrow> octets" where
  "print_pairs kvs = sp_join (map (\<lambda>(k, n). k @ SP # to_chars n) kvs)"

definition print_status :: "octets \<Rightarrow> mailbox_status \<Rightarrow> octets" where
  "print_status mailbox s = quote mailbox @ '' ('' @ print_pairs (status_fields s) @ '')''"

definition status_ok :: "mailbox_status \<Rightarrow> bool" where
  "status_ok s \<longleftrightarrow> list_all (\<lambda>(k, n). n \<le> u32_max) (status_fields s)"

lemma to_chars_no_SP: "SP \<notin> set (to_chars n)" "CHR '')'' \<notin> set (to_chars n)"
proof -
  have "\<not> is_digit SP" "\<not> is_digit (CHR '')'')" by (simp_all add: is_digit_def)
  then show "SP \<notin> set (to_chars n)" "CHR '')'' \<notin> set (to_chars n)"
    using to_chars_all_digit by blast+
qed

lemma status_pairs_printed:
  "list_all (\<lambda>(k, n). k \<noteq> [] \<and> SP \<notin> set k) kvs \<Longrightarrow>
     status_pairs (print_pairs kvs) s = foldl (\<lambda>s (k, n). apply_pair k (to_chars n) s) s kvs"
proof (induction kvs arbitrary: s)
  case Nil
  show ?case by (simp add: status_pairs.simps print_pairs_def)
next
  case (Cons kv kvs)
  obtain k n where kv: "kv = (k, n)" by (cases kv)
  have k: "k \<noteq> []" "SP \<notin> set k" using Cons.prems kv by auto
  have split1: "find_char SP (k @ SP # x) = Some (length k)" for x using k by simp
  show ?case
  proof (cases "kvs = []")
    case True
    then have "status_pairs (k @ SP # to_chars n) s = apply_pair k (to_chars n) s"
      using k split1 by (subst status_pairs.simps) (simp add: find_char_absent to_chars_no_SP)
    then show ?thesis using True kv by (simp add: print_pairs_def)
  next
    case False
    have split2: "find_char SP (to_chars n @ SP # x) = Some (length (to_chars n))" for x
      by (simp add: to_chars_no_SP)
    have "status_pairs (k @ SP # to_chars n @ SP # print_pairs kvs) s =
        status_pairs (print_pairs kvs) (apply_pair k (to_chars n) s)"
      using k split1 split2 by (subst status_pairs.simps) simp
    then show ?thesis using Cons False kv by (simp add: print_pairs_def)
  qed
qed

lemma from_chars_prefix_to_chars:
  "n \<le> m \<Longrightarrow> from_chars_prefix m (to_chars n) = Some n"
proof -
  have tw: "takeWhile is_digit (to_chars n) = to_chars n"
    using run_split(1) [OF to_chars_digits, of "[]" n] by simp
  show "n \<le> m \<Longrightarrow> from_chars_prefix m (to_chars n) = Some n"
    unfolding from_chars_prefix_def Let_def tw by simp
qed

lemma apply_pair_named:
  assumes "n \<le> u32_max"
  shows "apply_pair ''MESSAGES'' (to_chars n) s = s\<lparr>ms_messages := Some n\<rparr>"
    "apply_pair ''RECENT'' (to_chars n) s = s\<lparr>ms_recent := Some n\<rparr>"
    "apply_pair ''UIDNEXT'' (to_chars n) s = s\<lparr>ms_uid_next := Some n\<rparr>"
    "apply_pair ''UIDVALIDITY'' (to_chars n) s = s\<lparr>ms_uid_validity := Some n\<rparr>"
    "apply_pair ''UNSEEN'' (to_chars n) s = s\<lparr>ms_unseen := Some n\<rparr>"
proof -
  have ne: "\<not> ascii_iequals ''UNSEEN'' ''RECENT''" by code_simp
  have "\<not> ascii_iequals a b" if "length a \<noteq> length b" for a b using that by (simp add: ascii_iequals_def)
  then show "apply_pair ''MESSAGES'' (to_chars n) s = s\<lparr>ms_messages := Some n\<rparr>"
    "apply_pair ''RECENT'' (to_chars n) s = s\<lparr>ms_recent := Some n\<rparr>"
    "apply_pair ''UIDNEXT'' (to_chars n) s = s\<lparr>ms_uid_next := Some n\<rparr>"
    "apply_pair ''UIDVALIDITY'' (to_chars n) s = s\<lparr>ms_uid_validity := Some n\<rparr>"
    "apply_pair ''UNSEEN'' (to_chars n) s = s\<lparr>ms_unseen := Some n\<rparr>"
    using assms ne by (simp_all add: apply_pair_def from_chars_prefix_to_chars)
qed

lemma status_fields_applied:
  assumes "status_ok s"
  shows "foldl (\<lambda>s (k, n). apply_pair k (to_chars n) s) default_mailbox_status (status_fields s) = s"
  using assms
  by (cases s) (auto simp: status_ok_def status_fields_def default_mailbox_status_def apply_pair_named
      split: option.splits)

lemma print_pairs_no_paren:
  "list_all (\<lambda>(k, n). CHR '')'' \<notin> set k) kvs \<Longrightarrow> CHR '')'' \<notin> set (print_pairs kvs)"
  by (induction kvs) (auto simp: print_pairs_def to_chars_no_SP)

lemma status_fields_ok:
  "list_all (\<lambda>(k, n). k \<noteq> [] \<and> SP \<notin> set k) (status_fields s)"
  "list_all (\<lambda>(k, n). CHR '')'' \<notin> set k) (status_fields s)"
  by (auto simp: status_fields_def split: option.splits)

text \<open>
  STATUS rows round-trip: the row of any mailbox name and any status whose values fit 32 bits
  is absorbed as exactly this status, and what an earlier row held is replaced.
\<close>

theorem status_row_roundtrip:
  assumes "status_ok s" "ur_kind r = K_status" "ur_payload r = print_status mailbox s"
  shows "status_on_untagged r old = s"
proof -
  let ?pr = "print_pairs (status_fields s)"
  let ?q = "quote mailbox"
  have src: "print_status mailbox s = ?q @ SP # CHR ''('' # ?pr @ CHR '')'' # []"
    by (simp add: print_status_def)
  have skip: "skip_sp (print_status mailbox s) (skip_string (print_status mailbox s) 0) = length ?q + 1"
    using skip_sp_at [of "CHR ''('' # ?pr @ CHR '')'' # []" ?q] unfolding src by (simp add: skip_string_quote)
  have cl: "find_from (CHR '')'') (print_status mailbox s) (length ?q + 1) = Some (length ?q + 1 + (1 + length ?pr))"
    using find_from_append [of "CHR '')''" "CHR ''('' # ?pr" "?q @ [SP]" "[]"]
      print_pairs_no_paren [OF status_fields_ok(2) [of s]] unfolding src by simp
  have at: "length ?q + 1 < length (print_status mailbox s)"
    "print_status mailbox s ! (length ?q + 1) = CHR ''(''"
    unfolding src by (simp_all add: nth_append)
  have body: "take (length ?pr) (drop (length ?q + 2) (print_status mailbox s)) = ?pr"
    unfolding src by simp
  show ?thesis
    using assms(2,3) skip cl at body status_pairs_printed [OF status_fields_ok(1), of s default_mailbox_status]
      status_fields_applied [OF assms(1)]
    by (simp add: status_on_untagged_def status_parse_row_def Let_def)
qed

theorem status_row_roundtrip_witness:
  "status_on_untagged (default_untagged\<lparr>ur_kind := K_status,
      ur_payload := print_status ''in box'' (default_mailbox_status\<lparr>ms_messages := Some 3, ms_unseen := Some 1\<rparr>)\<rparr>)
      (default_mailbox_status\<lparr>ms_recent := Some 9\<rparr>) =
     default_mailbox_status\<lparr>ms_messages := Some 3, ms_unseen := Some 1\<rparr>"
  by (rule status_row_roundtrip)
    (simp_all add: status_ok_def status_fields_def default_mailbox_status_def u32_max_def)

end
