(* ===== verification/Unsolicited.thy ===== *)
theory Unsolicited
  imports Replies
begin

text \<open>
  Unsolicited events: the event variant of \<open>imap/unsolicited_event.h\<close>, the mapping of an untagged
  response to an event (\<open>read_pump::make_unsolicited_event\<close>) and the handler table of
  \<open>imap/detail/unsolicited_table.h\<close> with its mark-and-sweep removal.

  A handler is known by the id of its entry. The locale \<open>handler_registry\<close> is the contract a
  client relies on: which handlers an event reaches after registrations and token resets, in which
  order. The table is its interpretation.
\<close>

section \<open>Events\<close>

datatype unsolicited_event = Exists_event nat | Recent_event nat | Expunge_event nat
  | Flags_update_event nat flag_set | Capability_event capability_set
  | Bye_event octets "response_code option"
  | Greeting_event response_status octets "response_code option"

definition make_unsolicited_event :: "untagged_response \<Rightarrow> unsolicited_event option" where
  "make_unsolicited_event r =
     (case ur_kind r of
        K_exists \<Rightarrow> Some (Exists_event (wrap32 (ur_number r)))
      | K_recent \<Rightarrow> Some (Recent_event (wrap32 (ur_number r)))
      | K_expunge \<Rightarrow> Some (Expunge_event (wrap32 (ur_number r)))
      | K_fetch \<Rightarrow> Some (Flags_update_event (wrap32 (ur_number r)) 0)
      | K_capability \<Rightarrow> Some (Capability_event (add_atoms (ur_payload r) []))
      | K_bye \<Rightarrow> Some (Bye_event (ur_text r) (ur_code r))
      | K_ok \<Rightarrow> Some (Greeting_event (ur_status r) (ur_text r) (ur_code r))
      | K_preauth \<Rightarrow> Some (Greeting_event (ur_status r) (ur_text r) (ur_code r))
      | _ \<Rightarrow> None)"

section \<open>The handler table\<close>

record table_entry =
  en_id :: nat
  en_active :: bool

record unsolicited_table =
  ut_entries :: "table_entry list"
  ut_next_id :: nat

definition empty_table :: unsolicited_table where
  "empty_table = \<lparr>ut_entries = [], ut_next_id = 1\<rparr>"

definition compact_locked :: "unsolicited_table \<Rightarrow> unsolicited_table" where
  "compact_locked t = t\<lparr>ut_entries := filter en_active (ut_entries t)\<rparr>"

definition table_add :: "unsolicited_table \<Rightarrow> nat \<times> unsolicited_table" where
  "table_add t =
     (let t1 = compact_locked t; i = ut_next_id t1
      in (i, t1\<lparr>ut_entries := ut_entries t1 @ [\<lparr>en_id = i, en_active = True\<rparr>],
              ut_next_id := wrap64 (i + 1)\<rparr>))"

fun deactivate_first :: "nat \<Rightarrow> table_entry list \<Rightarrow> table_entry list" where
  "deactivate_first i [] = []"
| "deactivate_first i (e # es) =
     (if en_id e = i then e\<lparr>en_active := False\<rparr> # es else e # deactivate_first i es)"

definition deactivate :: "nat \<Rightarrow> unsolicited_table \<Rightarrow> unsolicited_table" where
  "deactivate i t = t\<lparr>ut_entries := deactivate_first i (ut_entries t)\<rparr>"

text \<open>\<open>notify\<close> calls the handlers of its snapshot in order.\<close>

definition notify_snapshot :: "unsolicited_table \<Rightarrow> nat list" where
  "notify_snapshot t = map en_id (filter en_active (ut_entries t))"

definition table_size :: "unsolicited_table \<Rightarrow> nat" where
  "table_size t = foldl (\<lambda>n e. if en_active e then n + 1 else n) 0 (ut_entries t)"

section \<open>The contract of a handler registry\<close>

locale handler_registry =
  fixes reg_add :: "'t \<Rightarrow> nat \<times> 't" and reg_drop :: "nat \<Rightarrow> 't \<Rightarrow> 't"
    and reached :: "'t \<Rightarrow> nat list" and inv :: "'t \<Rightarrow> bool"
    and room :: "'t \<Rightarrow> bool" and init :: 't
  assumes inv_init: "inv init" and reached_init: "reached init = []"
    and add_inv: "inv t \<Longrightarrow> room t \<Longrightarrow> reg_add t = (i, t') \<Longrightarrow> inv t'"
    and add_reached: "inv t \<Longrightarrow> room t \<Longrightarrow> reg_add t = (i, t') \<Longrightarrow>
      i \<notin> set (reached t) \<and> reached t' = reached t @ [i]"
    and drop_inv: "inv t \<Longrightarrow> inv (reg_drop i t)"
    and drop_reached: "inv t \<Longrightarrow> reached (reg_drop i t) = filter (\<lambda>j. j \<noteq> i) (reached t)"
begin

lemma distinct_add: "inv t \<Longrightarrow> room t \<Longrightarrow> distinct (reached t) \<Longrightarrow> reg_add t = (i, t') \<Longrightarrow> distinct (reached t')"
  using add_reached by fastforce

lemma drop_twice: "inv t \<Longrightarrow> reached (reg_drop i (reg_drop i t)) = reached (reg_drop i t)"
  by (simp add: drop_reached drop_inv)

lemma drop_commute: "inv t \<Longrightarrow> reached (reg_drop i (reg_drop j t)) = reached (reg_drop j (reg_drop i t))"
  by (simp add: drop_reached drop_inv conj_commute)

lemma add_then_drop: "inv t \<Longrightarrow> room t \<Longrightarrow> reg_add t = (i, t') \<Longrightarrow> reached (reg_drop i t') = reached t"
proof -
  assume t: "inv t" "room t" and a: "reg_add t = (i, t')"
  have "filter (\<lambda>j. j \<noteq> i) (reached t) = reached t"
    using add_reached [OF t a] by (auto simp: filter_id_conv)
  then show ?thesis using add_reached [OF t a] add_inv [OF t a] by (simp add: drop_reached)
qed

end

text \<open>Ids are fresh as long as fewer than two to the 64 handlers were ever registered.\<close>

definition table_ok :: "unsolicited_table \<Rightarrow> bool" where
  "table_ok t \<longleftrightarrow> distinct (map en_id (ut_entries t)) \<and>
     list_all (\<lambda>e. en_id e < ut_next_id t) (ut_entries t) \<and> ut_next_id t \<le> u64_max"

definition table_room :: "unsolicited_table \<Rightarrow> bool" where
  "table_room t \<longleftrightarrow> ut_next_id t < u64_max"

lemma deactivate_first_ids [simp]: "map en_id (deactivate_first i es) = map en_id es"
  by (induction es) auto

lemma deactivate_first_reached:
  "distinct (map en_id es) \<Longrightarrow>
     map en_id (filter en_active (deactivate_first i es)) =
       filter (\<lambda>j. j \<noteq> i) (map en_id (filter en_active es))"
proof (induction es)
  case (Cons e es)
  have "i \<notin> en_id ` set es \<Longrightarrow> filter (\<lambda>j. j \<noteq> i) (map en_id (filter en_active es)) = map en_id (filter en_active es)"
    by (auto simp: filter_id_conv)
  then show ?case using Cons by auto
qed simp

lemma filter_ids_ok:
  "distinct (map en_id es) \<Longrightarrow> distinct (map en_id (filter p es))"
  by (induction es) auto

interpretation table: handler_registry table_add deactivate notify_snapshot table_ok table_room empty_table
proof
  fix t i t'
  assume t: "table_ok t" and room: "table_room t" and a: "table_add t = (i, t')"
  then have i: "i = ut_next_id t"
    and t': "t' = t\<lparr>ut_entries := filter en_active (ut_entries t) @ [\<lparr>en_id = i, en_active = True\<rparr>],
                   ut_next_id := i + 1\<rparr>"
    by (auto simp: table_add_def compact_locked_def Let_def table_room_def)
  have fresh: "\<forall>e \<in> set (ut_entries t). en_id e < i" using t i by (auto simp: table_ok_def list_all_iff)
  show "table_ok t'"
    using t room fresh i by (auto simp: t' table_ok_def table_room_def list_all_iff filter_ids_ok less_Suc_eq)
  show "i \<notin> set (notify_snapshot t) \<and> notify_snapshot t' = notify_snapshot t @ [i]"
    using fresh by (auto simp: t' notify_snapshot_def)
next
  fix t i
  assume t: "table_ok t"
  have "list_all (\<lambda>e. en_id e < n) (deactivate_first i es) \<longleftrightarrow> list_all (\<lambda>e. en_id e < n) es" for n es
    by (induction es) auto
  with t show "table_ok (deactivate i t)" by (simp add: table_ok_def deactivate_def)
  show "notify_snapshot (deactivate i t) = filter (\<lambda>j. j \<noteq> i) (notify_snapshot t)"
    using t by (simp add: notify_snapshot_def deactivate_def table_ok_def deactivate_first_reached)
qed (simp_all add: table_ok_def empty_table_def notify_snapshot_def u64_max_def)

datatype table_op = Add_handler | Reset_token nat

fun run_table :: "table_op list \<Rightarrow> unsolicited_table \<Rightarrow> unsolicited_table" where
  "run_table [] t = t"
| "run_table (Add_handler # ops) t = run_table ops (snd (table_add t))"
| "run_table (Reset_token i # ops) t = run_table ops (deactivate i t)"

text \<open>The abstract registry: the ids handed out are 1, 2, and so on; an event reaches the list.\<close>

fun run_abstract :: "table_op list \<Rightarrow> nat \<Rightarrow> nat list \<Rightarrow> nat list" where
  "run_abstract [] n ids = ids"
| "run_abstract (Add_handler # ops) n ids = run_abstract ops (n + 1) (ids @ [n])"
| "run_abstract (Reset_token i # ops) n ids = run_abstract ops n (filter (\<lambda>j. j \<noteq> i) ids)"

lemma run_table_refines:
  "table_ok t \<Longrightarrow> ut_next_id t + length ops \<le> u64_max \<Longrightarrow>
     notify_snapshot (run_table ops t) = run_abstract ops (ut_next_id t) (notify_snapshot t) \<and>
     table_ok (run_table ops t)"
proof (induction ops arbitrary: t)
  case (Cons op ops)
  show ?case
  proof (cases op)
    case Add_handler
    obtain i t' where a: "table_add t = (i, t')" by (cases "table_add t")
    have room: "table_room t" using Cons.prems by (simp add: table_room_def)
    have n: "i = ut_next_id t" "ut_next_id t' = i + 1"
      using a room by (auto simp: table_add_def compact_locked_def Let_def table_room_def)
    show ?thesis
      using Cons.IH [of t'] Cons.prems a n Add_handler table.add_inv [OF _ room a] table.add_reached [OF _ room a]
      by simp
  next
    case (Reset_token i)
    have "ut_next_id (deactivate i t) = ut_next_id t" by (simp add: deactivate_def)
    then show ?thesis
      using Cons.IH [of "deactivate i t"] Cons.prems Reset_token table.drop_inv [of t i]
        table.drop_reached [of t i] by simp
  qed
qed simp

lemma table_size_eq: "table_size t = length (notify_snapshot t)"
proof -
  have "foldl (\<lambda>n e. if en_active e then n + 1 else n) k es = k + length (filter en_active es)" for k and es :: "table_entry list"
    by (induction es arbitrary: k) auto
  then show ?thesis by (simp add: table_size_def notify_snapshot_def)
qed

text \<open>
  The handler table behaves as a list of handlers: after any sequence of registrations and token
  resets, lazily compacted or not, an event reaches exactly the handlers that were registered and
  not reset, once each and in the order of registration, and \<open>size\<close> counts them.
\<close>

theorem handler_table_refines:
  assumes "length ops < u64_max"
  shows "notify_snapshot (run_table ops empty_table) = run_abstract ops 1 [] \<and>
     table_size (run_table ops empty_table) = length (run_abstract ops 1 [])"
  using run_table_refines [of empty_table ops] assms table.inv_init table.reached_init
  by (simp add: table_size_eq empty_table_def)

theorem handler_table_refines_witness:
  "notify_snapshot (run_table [Add_handler, Add_handler, Reset_token 1, Add_handler] empty_table) =
     run_abstract [Add_handler, Add_handler, Reset_token 1, Add_handler] 1 [] \<and>
   table_size (run_table [Add_handler, Add_handler, Reset_token 1, Add_handler] empty_table) =
     length (run_abstract [Add_handler, Add_handler, Reset_token 1, Add_handler] 1 [])"
  by (rule handler_table_refines) (simp add: u64_max_def)

end
