(* ===== verification/Operation.thy ===== *)
theory Operation
  imports Unsolicited
begin

text \<open>
  Operation cells (\<open>imap/operation_base.h\<close>): \<open>operation_model\<close>, the concrete cell that owns a
  command and its completion target, with the write side, the read side and the one-shot delivery.

  A cell is known by its address, a natural number. Events record what the environment observes:
  deliveries, withdrawn and dropped handlers, handler notifications and the two calls on the
  descriptor. The locale \<open>segment_source\<close> is the contract the write pump relies on, the locale
  \<open>one_shot\<close> the contract of the terminal calls.
\<close>

section \<open>Events and cells\<close>

text \<open>\<open>Withdrawn\<close> is the destruction of a cancelled callback-path handler that is never invoked,
  \<open>Dropped\<close> the silent destruction of a cell.\<close>

datatype event = Value_delivered nat error_code command_result | Stop_delivered nat
  | Withdrawn nat | Dropped nat | Shutdown_read | Close_descriptor
  | Notified nat unsolicited_event

fun terminal_id :: "event \<Rightarrow> nat option" where
  "terminal_id (Value_delivered i ec r) = Some i"
| "terminal_id (Stop_delivered i) = Some i"
| "terminal_id (Withdrawn i) = Some i"
| "terminal_id (Dropped i) = Some i"
| "terminal_id _ = None"

definition terminals :: "event list \<Rightarrow> nat list" where
  "terminals log = List.map_filter terminal_id log"

record cell =
  op_id :: nat
  op_command :: command
  op_callback :: bool
  op_tag :: octets
  op_staged :: bool
  op_has_written :: bool
  op_detached :: bool
  op_stopped :: bool
  op_stop_seen :: bool
  op_finished :: bool

definition new_cell :: "nat \<Rightarrow> command \<Rightarrow> bool \<Rightarrow> cell" where
  "new_cell i cmd callback =
     \<lparr>op_id = i, op_command = cmd, op_callback = callback, op_tag = [], op_staged = False,
      op_has_written = False, op_detached = False, op_stopped = False, op_stop_seen = False,
      op_finished = False\<rparr>"

section \<open>The write side\<close>

definition op_next_segment :: "cell \<Rightarrow> octets" where
  "op_next_segment c = (if op_staged c then [] else next_segment (op_command c))"

definition op_awaits_continuation :: "cell \<Rightarrow> bool" where
  "op_awaits_continuation c = awaits_continuation (op_command c)"

definition op_blocks_pipeline :: "cell \<Rightarrow> bool" where
  "op_blocks_pipeline c = blocks_pipeline (op_command c)"

definition op_on_segment_staged :: "cell \<Rightarrow> cell" where
  "op_on_segment_staged c = c\<lparr>op_staged := True\<rparr>"

definition op_on_segment_flushed :: "cell \<Rightarrow> cell" where
  "op_on_segment_flushed c =
     c\<lparr>op_staged := False, op_has_written := True, op_command := on_segment_flushed (op_command c)\<rparr>"

definition op_is_written :: "cell \<Rightarrow> bool" where
  "op_is_written c \<longleftrightarrow>
     \<not> op_staged c \<and> \<not> awaits_continuation (op_command c) \<and> next_segment (op_command c) = []"

section \<open>The read side\<close>

definition op_on_continuation :: "octets \<Rightarrow> cell \<Rightarrow> cell" where
  "op_on_continuation msg c = c\<lparr>op_command := on_continuation msg (op_command c)\<rparr>"

definition op_on_untagged :: "untagged_response \<Rightarrow> cell \<Rightarrow> cell option" where
  "op_on_untagged r c = map_option (\<lambda>cmd. c\<lparr>op_command := cmd\<rparr>) (on_untagged r (op_command c))"

definition op_wants_untagged :: "untagged_kind \<Rightarrow> cell \<Rightarrow> bool" where
  "op_wants_untagged k c = wants_untagged k (op_command c)"

text \<open>The one-shot guard: \<open>begin_delivery\<close> lets exactly one terminal call through.\<close>

definition deliver_value :: "error_code \<Rightarrow> command_result \<Rightarrow> cell \<Rightarrow> cell \<times> event list" where
  "deliver_value ec res c =
     (if op_finished c then (c, []) else (c\<lparr>op_finished := True\<rparr>, [Value_delivered (op_id c) ec res]))"

definition deliver_stopped :: "cell \<Rightarrow> cell \<times> event list" where
  "deliver_stopped c =
     (if op_finished c then (c, [])
      else (c\<lparr>op_finished := True\<rparr>,
            [if op_callback c then Withdrawn (op_id c) else Stop_delivered (op_id c)]))"

definition op_on_tagged :: "tagged_response \<Rightarrow> cell \<Rightarrow> cell \<times> event list" where
  "op_on_tagged r c =
     (if op_stopped c then deliver_stopped c
      else (let (ec, res) = on_tagged r (op_command c) in deliver_value ec res c))"

section \<open>Control\<close>

definition op_fail :: "error_code \<Rightarrow> cell \<Rightarrow> cell \<times> event list" where
  "op_fail ec c = deliver_value ec (default_result (cmd_args (op_command c))) c"

definition op_complete_stopped :: "cell \<Rightarrow> cell \<times> event list" where
  "op_complete_stopped c = deliver_stopped c"

definition op_take_stop_request :: "cell \<Rightarrow> bool \<times> cell" where
  "op_take_stop_request c = (op_stop_seen c, c\<lparr>op_stop_seen := False\<rparr>)"

definition op_cancel_written :: "cell \<Rightarrow> bool \<times> cell" where
  "op_cancel_written c =
     (case idle_done (cmd_wire (op_command c)) of
        None \<Rightarrow> (False, c)
      | Some w \<Rightarrow> (True, c\<lparr>op_command := (op_command c)\<lparr>cmd_wire := w\<rparr>, op_stopped := True\<rparr>))"

definition op_mark_detached :: "cell \<Rightarrow> cell" where
  "op_mark_detached c = c\<lparr>op_detached := True\<rparr>"

text \<open>
  \<open>attach\<close> stamps the tag and renders the command; None is an assertion that fails while
  rendering. Registering the stop callback records a stop that was requested before.
\<close>

definition op_attach :: "octets \<Rightarrow> bool \<Rightarrow> cell \<Rightarrow> cell option" where
  "op_attach tag stop_requested c =
     map_option (\<lambda>cmd. c\<lparr>op_tag := tag, op_command := cmd,
                        op_stop_seen := (op_stop_seen c \<or> (stop_requested \<and> \<not> op_callback c))\<rparr>)
       (render tag (op_command c))"

section \<open>Contracts\<close>

locale segment_source =
  fixes nxt :: "'c \<Rightarrow> octets" and awaits :: "'c \<Rightarrow> bool" and stage :: "'c \<Rightarrow> 'c" and flush :: "'c \<Rightarrow> 'c"
    and staged :: "'c \<Rightarrow> bool" and written :: "'c \<Rightarrow> bool"
  assumes stage_staged: "staged (stage c)"
    and staged_empty: "staged c \<Longrightarrow> nxt c = []"
    and flush_unstaged: "\<not> staged (flush c)"
    and stage_awaits: "awaits (stage c) = awaits c"
    and flush_awaits: "awaits (flush c) = awaits c"
    and written_iff: "written c \<longleftrightarrow> \<not> staged c \<and> \<not> awaits c \<and> nxt c = []"
begin

lemma stage_not_written: "\<not> written (stage c)"
  by (simp add: written_iff stage_staged)

lemma stage_pauses: "nxt (stage c) = []"
  by (simp add: staged_empty stage_staged)

lemma offering_not_written: "nxt c \<noteq> [] \<Longrightarrow> \<not> written c \<and> \<not> staged c"
  using staged_empty by (auto simp: written_iff)

lemma awaiting_not_written: "awaits c \<Longrightarrow> \<not> written c \<and> \<not> written (flush c)"
  by (simp add: written_iff flush_awaits)

end

lemma wire_awaits_flushed [simp]: "wire_awaits (wire_flushed w) = wire_awaits w"
  by (cases w) auto

interpretation op: segment_source op_next_segment op_awaits_continuation op_on_segment_staged
  op_on_segment_flushed op_staged op_is_written
  by unfold_locales
    (auto simp: op_next_segment_def op_awaits_continuation_def op_on_segment_staged_def
      op_on_segment_flushed_def op_is_written_def awaits_continuation_def on_segment_flushed_def)

locale one_shot =
  fixes deliver :: "cell \<Rightarrow> cell \<times> event list"
  assumes first: "\<not> op_finished c \<Longrightarrow> \<exists>e. deliver c = (c\<lparr>op_finished := True\<rparr>, [e]) \<and> terminal_id e = Some (op_id c)"
    and later: "op_finished c \<Longrightarrow> deliver c = (c, [])"
begin

lemma finishes: "op_finished (fst (deliver c))"
  using first [of c] later [of c] by (cases "op_finished c") auto

lemma keeps_id: "op_id (fst (deliver c)) = op_id c"
  using first [of c] later [of c] by (cases "op_finished c") auto

lemma terminals_first: "\<not> op_finished c \<Longrightarrow> terminals (snd (deliver c)) = [op_id c]"
  using first [of c] by (auto simp: terminals_def List.map_filter_def)

end

interpretation value_shot: one_shot "deliver_value ec res"
  by unfold_locales (auto simp: deliver_value_def)

interpretation stop_shot: one_shot deliver_stopped
  by unfold_locales (auto simp: deliver_stopped_def)

interpretation fail_shot: one_shot "op_fail ec"
  by unfold_locales (auto simp: op_fail_def deliver_value_def)

interpretation complete_shot: one_shot op_complete_stopped
  by unfold_locales (auto simp: op_complete_stopped_def deliver_stopped_def)

interpretation tagged_shot: one_shot "op_on_tagged r"
  by unfold_locales (auto simp: op_on_tagged_def deliver_value_def deliver_stopped_def split: prod.split)

datatype terminal_call = Call_tagged tagged_response | Call_fail error_code | Call_stopped

fun run_call :: "terminal_call \<Rightarrow> cell \<Rightarrow> cell \<times> event list" where
  "run_call (Call_tagged r) c = op_on_tagged r c"
| "run_call (Call_fail ec) c = op_fail ec c"
| "run_call Call_stopped c = op_complete_stopped c"

interpretation call_shot: one_shot "run_call t"
proof
  fix c
  show "\<not> op_finished c \<Longrightarrow> \<exists>e. run_call t c = (c\<lparr>op_finished := True\<rparr>, [e]) \<and> terminal_id e = Some (op_id c)"
    using tagged_shot.first fail_shot.first complete_shot.first by (cases t) auto
  show "op_finished c \<Longrightarrow> run_call t c = (c, [])"
    using tagged_shot.later fail_shot.later complete_shot.later by (cases t) auto
qed

fun run_calls :: "terminal_call list \<Rightarrow> cell \<Rightarrow> cell \<times> event list" where
  "run_calls [] c = (c, [])"
| "run_calls (t # ts) c =
     (let (c1, e1) = run_call t c; (c2, e2) = run_calls ts c1 in (c2, e1 @ e2))"

lemma run_calls_finished: "op_finished c \<Longrightarrow> run_calls ts c = (c, [])"
  by (induction ts) (simp_all add: call_shot.later)

text \<open>
  Exactly one terminal delivery wins: however tagged replies, failures and stop completions race
  for a fresh operation, the first call decides the single event that is delivered, it is the
  operation's own, and every later call has no effect.
\<close>

theorem one_delivery:
  assumes "\<not> op_finished c"
  shows "run_calls (t # ts) c = run_call t c \<and>
     (\<exists>e. snd (run_calls (t # ts) c) = [e] \<and> terminal_id e = Some (op_id c))"
proof -
  obtain e where e: "run_call t c = (c\<lparr>op_finished := True\<rparr>, [e])" "terminal_id e = Some (op_id c)"
    using call_shot.first [OF assms] by blast
  then show ?thesis by (simp add: run_calls_finished)
qed

theorem one_delivery_witness:
  "run_calls (Call_stopped # [Call_fail Operation_canceled]) (new_cell 5 (new_command Noop) False) =
     run_call Call_stopped (new_cell 5 (new_command Noop) False) \<and>
   (\<exists>e. snd (run_calls (Call_stopped # [Call_fail Operation_canceled]) (new_cell 5 (new_command Noop) False)) = [e] \<and>
      terminal_id e = Some (op_id (new_cell 5 (new_command Noop) False)))"
  by (rule one_delivery) (simp add: new_cell_def)

end
