(* ===== verification/Core.thy ===== *)
theory Core
  imports Operation "HOL-Library.Multiset"
begin

text \<open>
  The state of a connection (\<open>context_core\<close> of \<open>imap/imap_context.h\<close>) and the parts every
  handler uses: splicing cells out of the write queue, the tag registry, the teardown
  \<open>connection_lost\<close>, the end of the close protocol and the two ways of posting work to the
  scheduler.

  The fields up to \<open>unsolicited\<close> are the members of the class. The remaining ones are what the
  environment holds: the armed read and write, the drain between \<open>kick\<close> and \<open>arm\<close>, the posted
  stop completions, the events observed so far and the next cell address. A posted kick is
  \<open>kick_posted\<close> itself. Addresses of destroyed cells are not reused.

  Allocation may fail where the code catches the exception; the flags of \<open>fates\<close> say where it
  does. The other allocations are taken to succeed, since the handlers are \<open>noexcept\<close>.
\<close>

section \<open>State\<close>

datatype phase = Phase_open | Phase_draining | Phase_closed

record 'b core =
  phase :: phase
  tag_counter :: nat
  registry :: "(octets \<times> nat) list"
  write_queue :: "cell list"
  write_staging :: octets
  write_in_flight :: bool
  kick_posted :: bool
  continuation_target :: "nat option"
  read_buffer :: 'b
  framer :: lexer
  read_running :: bool
  suspend_read :: bool
  bye_received :: bool
  abandoned :: bool
  unsolicited :: unsolicited_table
  armed_read :: bool
  reading :: bool
  armed_write :: "(octets \<times> nat list) option"
  arming :: "nat list option"
  posted_stops :: "cell list"
  trace :: "event list"
  next_id :: nat

definition new_core :: "'b \<Rightarrow> 'b core" where
  "new_core b =
     \<lparr>phase = Phase_open, tag_counter = 1, registry = [], write_queue = [], write_staging = [],
      write_in_flight = False, kick_posted = False, continuation_target = None, read_buffer = b,
      framer = init_lexer, read_running = False, suspend_read = False, bye_received = False,
      abandoned = False, unsolicited = empty_table, armed_read = False, reading = False,
      armed_write = None, arming = None, posted_stops = [], trace = [], next_id = 0\<rparr>"

record fates =
  no_registry_slot :: bool
  no_kick_slot :: bool
  no_write_slot :: bool
  no_read_slot :: bool
  no_stop_slot :: "nat \<Rightarrow> bool"

definition emit :: "event list \<Rightarrow> 'b core \<Rightarrow> 'b core" where
  "emit evs s = s\<lparr>trace := trace s @ evs\<rparr>"

section \<open>Cells and the registry\<close>

fun splice_cell :: "nat \<Rightarrow> cell list \<Rightarrow> cell option \<times> cell list" where
  "splice_cell i [] = (None, [])"
| "splice_cell i (c # cs) =
     (if op_id c = i then (Some c, cs) else (let (r, cs') = splice_cell i cs in (r, c # cs')))"

definition extract_from_queue_locked :: "nat \<Rightarrow> 'b core \<Rightarrow> cell option \<times> 'b core" where
  "extract_from_queue_locked i s =
     (let (r, q) = splice_cell i (write_queue s) in (r, s\<lparr>write_queue := q\<rparr>))"

text \<open>The loop over the staged list of a write, which splices every cell still queued.\<close>

fun extract_staged :: "nat list \<Rightarrow> 'b core \<Rightarrow> cell list \<times> 'b core" where
  "extract_staged [] s = ([], s)"
| "extract_staged (i # ids) s =
     (case extract_from_queue_locked i s of
        (None, s1) \<Rightarrow> extract_staged ids s1
      | (Some c, s1) \<Rightarrow> (let (cs, s2) = extract_staged ids s1 in (c # cs, s2)))"

definition take_cells_locked :: "(cell \<Rightarrow> bool) \<Rightarrow> 'b core \<Rightarrow> cell list \<times> 'b core" where
  "take_cells_locked pred s =
     (filter pred (write_queue s), s\<lparr>write_queue := filter (\<lambda>c. \<not> pred c) (write_queue s)\<rparr>)"

definition queue_contains_locked :: "nat \<Rightarrow> 'b core \<Rightarrow> bool" where
  "queue_contains_locked i s = list_ex (\<lambda>c. op_id c = i) (write_queue s)"

definition find_cell :: "nat \<Rightarrow> 'b core \<Rightarrow> cell option" where
  "find_cell i s = List.find (\<lambda>c. op_id c = i) (write_queue s)"

definition on_cell :: "nat \<Rightarrow> (cell \<Rightarrow> cell) \<Rightarrow> cell list \<Rightarrow> cell list" where
  "on_cell i f cs = map (\<lambda>c. if op_id c = i then f c else c) cs"

definition update_cell :: "nat \<Rightarrow> (cell \<Rightarrow> cell) \<Rightarrow> 'b core \<Rightarrow> 'b core" where
  "update_cell i f s = s\<lparr>write_queue := on_cell i f (write_queue s)\<rparr>"

text \<open>The hash map from tags to cells: \<open>emplace\<close> keeps an existing entry.\<close>

definition reg_emplace :: "octets \<Rightarrow> nat \<Rightarrow> (octets \<times> nat) list \<Rightarrow> (octets \<times> nat) list" where
  "reg_emplace tag i reg = (if map_of reg tag = None then reg @ [(tag, i)] else reg)"

definition reg_erase :: "octets \<Rightarrow> (octets \<times> nat) list \<Rightarrow> (octets \<times> nat) list" where
  "reg_erase tag reg = filter (\<lambda>(t, _). t \<noteq> tag) reg"

text \<open>Completing or destroying the cells of a list that has left the queue.\<close>

definition fail_cells :: "error_code \<Rightarrow> cell list \<Rightarrow> 'b core \<Rightarrow> 'b core" where
  "fail_cells ec cs s = emit (concat (map (\<lambda>c. snd (op_fail ec c)) cs)) s"

definition drop_cells :: "cell list \<Rightarrow> 'b core \<Rightarrow> 'b core" where
  "drop_cells cs s = emit (map (\<lambda>c. Dropped (op_id c)) cs) s"

section \<open>Teardown and posting\<close>

definition maybe_finish_close :: "'b core \<Rightarrow> 'b core" where
  "maybe_finish_close s =
     (if phase s = Phase_draining \<and> \<not> read_running s \<and> \<not> write_in_flight s
      then emit [Close_descriptor] (s\<lparr>phase := Phase_closed\<rparr>) else s)"

definition connection_lost :: "error_code \<Rightarrow> 'b core \<Rightarrow> 'b core" where
  "connection_lost ec s =
     (if phase s = Phase_closed then s
      else
        (let s1 = s\<lparr>phase := Phase_draining\<rparr>;
             (taken, s2) = take_cells_locked (\<lambda>c. \<not> op_staged c) s1;
             s3 = s2\<lparr>registry := [], continuation_target := None\<rparr>;
             s4 = (if read_running s3 then emit [Shutdown_read] s3 else s3)
         in maybe_finish_close (fail_cells ec taken s4)))"

definition post_kick :: "fates \<Rightarrow> 'b core \<Rightarrow> 'b core" where
  "post_kick f s =
     (if phase s \<noteq> Phase_open \<or> write_in_flight s \<or> kick_posted s \<or> write_queue s = [] then s
      else if no_kick_slot f then connection_lost Not_enough_memory (s\<lparr>kick_posted := False\<rparr>)
      else s\<lparr>kick_posted := True\<rparr>)"

definition post_complete_stopped :: "fates \<Rightarrow> cell \<Rightarrow> 'b core \<Rightarrow> 'b core" where
  "post_complete_stopped f c s =
     (if no_stop_slot f (op_id c) then emit (snd (op_complete_stopped c)) s
      else s\<lparr>posted_stops := posted_stops s @ [c]\<rparr>)"

definition stopped_receiver :: "nat \<Rightarrow> 'b core \<Rightarrow> 'b core" where
  "stopped_receiver n s =
     (case drop n (posted_stops s) of
        [] \<Rightarrow> s
      | c # later \<Rightarrow>
          emit (snd (op_complete_stopped c)) (s\<lparr>posted_stops := take n (posted_stops s) @ later\<rparr>))"

section \<open>The ledger of cells\<close>

text \<open>
  Every cell address below \<open>next_id\<close> is accounted for exactly once: in the queue, among the posted
  stop completions, or by one terminal event. \<open>live_cells\<close> says that no cell still held has been
  completed.
\<close>

definition account :: "'b core \<Rightarrow> nat multiset" where
  "account s = mset (map op_id (write_queue s)) + mset (map op_id (posted_stops s))
     + mset (terminals (trace s))"

definition live_cells :: "'b core \<Rightarrow> bool" where
  "live_cells s \<longleftrightarrow> (\<forall>c \<in> set (write_queue s) \<union> set (posted_stops s). \<not> op_finished c)"

definition ledger :: "'b core \<Rightarrow> bool" where
  "ledger s \<longleftrightarrow> live_cells s \<and> account s = mset [0 ..< next_id s]"

lemma terminals_append [simp]: "terminals (xs @ ys) = terminals xs @ terminals ys"
  by (simp add: terminals_def List.map_filter_def)

lemma terminals_simps [simp]:
  "terminals [] = []"
  "terminals (e # es) = (case terminal_id e of None \<Rightarrow> terminals es | Some i \<Rightarrow> i # terminals es)"
  by (simp_all add: terminals_def List.map_filter_def split: option.splits)

lemma emit_simps [simp]:
  "phase (emit es s) = phase s" "tag_counter (emit es s) = tag_counter s"
  "registry (emit es s) = registry s" "write_queue (emit es s) = write_queue s"
  "write_staging (emit es s) = write_staging s" "write_in_flight (emit es s) = write_in_flight s"
  "kick_posted (emit es s) = kick_posted s" "continuation_target (emit es s) = continuation_target s"
  "read_buffer (emit es s) = read_buffer s" "framer (emit es s) = framer s"
  "read_running (emit es s) = read_running s" "suspend_read (emit es s) = suspend_read s"
  "bye_received (emit es s) = bye_received s" "abandoned (emit es s) = abandoned s"
  "unsolicited (emit es s) = unsolicited s" "armed_read (emit es s) = armed_read s"
  "reading (emit es s) = reading s" "armed_write (emit es s) = armed_write s"
  "arming (emit es s) = arming s" "posted_stops (emit es s) = posted_stops s"
  "trace (emit es s) = trace s @ es" "next_id (emit es s) = next_id s"
  by (simp_all add: emit_def)

lemma terminals_fails:
  "\<forall>c \<in> set cs. \<not> op_finished c \<Longrightarrow> terminals (concat (map (\<lambda>c. snd (op_fail ec c)) cs)) = map op_id cs"
  by (induction cs) (simp_all add: fail_shot.terminals_first)

lemma terminals_drops [simp]: "terminals (map (\<lambda>c. Dropped (op_id c)) cs) = map op_id cs"
  by (induction cs) simp_all

lemma terminals_dropped [simp]: "terminals (map Dropped is) = is"
  by (induction "is") simp_all

lemma terminals_notified [simp]: "terminals (map (\<lambda>h. Notified h e) hs) = []"
  by (induction hs) simp_all

lemma splice_cell_Some:
  "splice_cell i q = (Some c, q') \<Longrightarrow>
     op_id c = i \<and> mset q = add_mset c (mset q') \<and> c \<in> set q \<and> set q' \<subseteq> set q"
  by (induction q arbitrary: q') (auto split: if_splits prod.splits)

lemma splice_cell_None:
  "splice_cell i q = (None, q') \<Longrightarrow> q' = q \<and> i \<notin> op_id ` set q"
  by (induction q arbitrary: q') (auto split: if_splits prod.splits)

lemma extract_Some:
  "extract_from_queue_locked i s = (Some c, s') \<Longrightarrow>
     \<exists>q. s' = s\<lparr>write_queue := q\<rparr> \<and> op_id c = i \<and> c \<in> set (write_queue s) \<and>
         mset (write_queue s) = add_mset c (mset q) \<and> set q \<subseteq> set (write_queue s)"
  by (auto simp: extract_from_queue_locked_def dest!: splice_cell_Some split: prod.splits)

lemma extract_None:
  "extract_from_queue_locked i s = (None, s') \<Longrightarrow> s' = s \<and> i \<notin> op_id ` set (write_queue s)"
  by (auto simp: extract_from_queue_locked_def dest!: splice_cell_None split: prod.splits)

lemma extract_staged_mset:
  "extract_staged ids s = (cs, s') \<Longrightarrow>
     \<exists>q. s' = s\<lparr>write_queue := q\<rparr> \<and> mset (write_queue s) = mset cs + mset q \<and>
         set cs \<subseteq> set (write_queue s) \<and> set q \<subseteq> set (write_queue s)"
proof (induction ids s arbitrary: cs s' rule: extract_staged.induct)
  case (1 s)
  then show ?case by (auto intro: exI [of _ "write_queue s"])
next
  case (2 i ids s)
  show ?case
  proof (cases "extract_from_queue_locked i s")
    case (Pair r s1)
    show ?thesis
    proof (cases r)
      case None
      with Pair have "s1 = s" using extract_None by blast
      with 2 Pair None show ?thesis by simp
    next
      case (Some c)
      obtain cs' where cs: "cs = c # cs'" and e: "extract_staged ids s1 = (cs', s')"
        using 2(3) Pair Some by (auto split: prod.splits)
      obtain q1 where q1: "s1 = s\<lparr>write_queue := q1\<rparr>" "c \<in> set (write_queue s)"
        "mset (write_queue s) = add_mset c (mset q1)" "set q1 \<subseteq> set (write_queue s)"
        using extract_Some [of i s c s1] Pair Some by auto
      obtain q where "s' = s1\<lparr>write_queue := q\<rparr>" "mset (write_queue s1) = mset cs' + mset q"
        "set cs' \<subseteq> set (write_queue s1)" "set q \<subseteq> set (write_queue s1)"
        using 2(2) [OF Pair [symmetric] _ e] Some by auto
      with q1 cs show ?thesis by (intro exI [of _ q]) auto
    qed
  qed
qed

lemma on_cell_ids [simp]:
  "(\<And>c. op_id (f c) = op_id c) \<Longrightarrow> map op_id (on_cell i f cs) = map op_id cs"
  by (simp add: on_cell_def)

lemma live_on_cell:
  "(\<And>c. \<not> op_finished c \<Longrightarrow> \<not> op_finished (f c)) \<Longrightarrow> \<forall>c \<in> set cs. \<not> op_finished c \<Longrightarrow>
     \<forall>c \<in> set (on_cell i f cs). \<not> op_finished c"
  by (auto simp: on_cell_def)

lemma ledger_frame [simp]:
  "account (s\<lparr>phase := x0\<rparr>) = account s" "live_cells (s\<lparr>phase := x0\<rparr>) = live_cells s"
  "account (s\<lparr>tag_counter := x1\<rparr>) = account s" "live_cells (s\<lparr>tag_counter := x1\<rparr>) = live_cells s"
  "account (s\<lparr>registry := x2\<rparr>) = account s" "live_cells (s\<lparr>registry := x2\<rparr>) = live_cells s"
  "account (s\<lparr>write_staging := x3\<rparr>) = account s" "live_cells (s\<lparr>write_staging := x3\<rparr>) = live_cells s"
  "account (s\<lparr>write_in_flight := x4\<rparr>) = account s" "live_cells (s\<lparr>write_in_flight := x4\<rparr>) = live_cells s"
  "account (s\<lparr>kick_posted := x5\<rparr>) = account s" "live_cells (s\<lparr>kick_posted := x5\<rparr>) = live_cells s"
  "account (s\<lparr>continuation_target := x6\<rparr>) = account s" "live_cells (s\<lparr>continuation_target := x6\<rparr>) = live_cells s"
  "account (s\<lparr>read_buffer := x7\<rparr>) = account s" "live_cells (s\<lparr>read_buffer := x7\<rparr>) = live_cells s"
  "account (s\<lparr>framer := x8\<rparr>) = account s" "live_cells (s\<lparr>framer := x8\<rparr>) = live_cells s"
  "account (s\<lparr>read_running := x9\<rparr>) = account s" "live_cells (s\<lparr>read_running := x9\<rparr>) = live_cells s"
  "account (s\<lparr>suspend_read := x10\<rparr>) = account s" "live_cells (s\<lparr>suspend_read := x10\<rparr>) = live_cells s"
  "account (s\<lparr>bye_received := x11\<rparr>) = account s" "live_cells (s\<lparr>bye_received := x11\<rparr>) = live_cells s"
  "account (s\<lparr>abandoned := x12\<rparr>) = account s" "live_cells (s\<lparr>abandoned := x12\<rparr>) = live_cells s"
  "account (s\<lparr>unsolicited := x13\<rparr>) = account s" "live_cells (s\<lparr>unsolicited := x13\<rparr>) = live_cells s"
  "account (s\<lparr>armed_read := x14\<rparr>) = account s" "live_cells (s\<lparr>armed_read := x14\<rparr>) = live_cells s"
  "account (s\<lparr>reading := x15\<rparr>) = account s" "live_cells (s\<lparr>reading := x15\<rparr>) = live_cells s"
  "account (s\<lparr>armed_write := x16\<rparr>) = account s" "live_cells (s\<lparr>armed_write := x16\<rparr>) = live_cells s"
  "account (s\<lparr>arming := x17\<rparr>) = account s" "live_cells (s\<lparr>arming := x17\<rparr>) = live_cells s"
  "account (s\<lparr>next_id := n\<rparr>) = account s" "live_cells (s\<lparr>next_id := n\<rparr>) = live_cells s"
  by (simp_all add: account_def live_cells_def)

text \<open>The contract of the handlers that create no cell: the ledger stays balanced.\<close>

locale conservative =
  fixes h :: "'b core \<Rightarrow> 'b core"
  assumes account_eq: "live_cells s \<Longrightarrow> account (h s) = account s"
    and live: "live_cells s \<Longrightarrow> live_cells (h s)"
    and ids: "next_id (h s) = next_id s"
begin

lemma keeps_ledger: "ledger s \<Longrightarrow> ledger (h s)"
  by (simp add: ledger_def account_eq live ids)

end

lemma conservative_comp:
  "conservative g \<Longrightarrow> conservative h \<Longrightarrow> conservative (\<lambda>s. h (g s))"
  by (simp add: conservative_def)

lemma account_fail:
  "\<forall>c \<in> set cs. \<not> op_finished c \<Longrightarrow> account (fail_cells ec cs s) = account s + mset (map op_id cs)"
  by (simp add: account_def fail_cells_def terminals_fails)

lemma account_drop: "account (drop_cells cs s) = account s + mset (map op_id cs)"
  by (simp add: account_def drop_cells_def)

lemma live_fail [simp]: "live_cells (fail_cells ec cs s) = live_cells s"
  by (simp add: live_cells_def fail_cells_def)

lemma live_drop [simp]: "live_cells (drop_cells cs s) = live_cells s"
  by (simp add: live_cells_def drop_cells_def)

interpretation finish: conservative maybe_finish_close
  by unfold_locales (auto simp: maybe_finish_close_def account_def live_cells_def)

lemma mset_filter_split: "mset (filter P xs) + mset (filter (\<lambda>x. \<not> P x) xs) = mset xs"
  by (induction xs) auto

lemma connection_lost_eq:
  "phase s \<noteq> Phase_closed \<Longrightarrow>
     connection_lost ec s =
       maybe_finish_close (fail_cells ec (filter (\<lambda>c. \<not> op_staged c) (write_queue s))
         (emit (if read_running s then [Shutdown_read] else [])
            (s\<lparr>phase := Phase_draining, write_queue := filter op_staged (write_queue s),
               registry := [], continuation_target := None\<rparr>)))"
  by (simp add: connection_lost_def take_cells_locked_def Let_def) (simp add: emit_def)

lemma connection_lost_closed [simp]: "phase s = Phase_closed \<Longrightarrow> connection_lost ec s = s"
  by (simp add: connection_lost_def)

interpretation lost: conservative "connection_lost ec"
proof
  fix s :: "'b core"
  let ?q = "write_queue s"
  have m: "mset (map op_id (filter (\<lambda>c. \<not> op_staged c) ?q)) + mset (map op_id (filter op_staged ?q))
      = mset (map op_id ?q)"
    unfolding mset_map
    by (subst image_mset_union [symmetric]) (use mset_filter_split [of "\<lambda>c. \<not> op_staged c" ?q] in simp)
  show "next_id (connection_lost ec s) = next_id s"
    by (cases "phase s = Phase_closed")
      (simp_all add: connection_lost_eq finish.ids fail_cells_def)
  assume live: "live_cells s"
  then show "live_cells (connection_lost ec s)"
    by (cases "phase s = Phase_closed")
      (auto simp: connection_lost_eq intro!: finish.live, auto simp: live_cells_def)
  show "account (connection_lost ec s) = account s"
  proof (cases "phase s = Phase_closed")
    case False
    let ?t = "filter (\<lambda>c. \<not> op_staged c) ?q"
    let ?s = "emit (if read_running s then [Shutdown_read] else [])
      (s\<lparr>phase := Phase_draining, write_queue := filter op_staged ?q, registry := [],
         continuation_target := None\<rparr>)"
    have t: "\<forall>c \<in> set ?t. \<not> op_finished c" and l: "live_cells (fail_cells ec ?t ?s)"
      using live by (auto simp: live_cells_def fail_cells_def)
    have "account (connection_lost ec s) = account ?s + mset (map op_id ?t)"
      unfolding connection_lost_eq [OF False] finish.account_eq [OF l] by (rule account_fail [OF t])
    then show ?thesis using m by (simp add: account_def ac_simps)
  qed simp
qed

interpretation posting: conservative "post_kick f"
  by unfold_locales (simp_all add: post_kick_def lost.account_eq lost.live lost.ids)

lemma account_post_stopped:
  "\<not> op_finished c \<Longrightarrow> account (post_complete_stopped f c s) = add_mset (op_id c) (account s)"
  using complete_shot.terminals_first [of c]
  by (simp add: post_complete_stopped_def account_def)

lemma live_post_stopped:
  "\<not> op_finished c \<Longrightarrow> live_cells s \<Longrightarrow> live_cells (post_complete_stopped f c s)"
  by (auto simp: post_complete_stopped_def live_cells_def)

lemma post_stopped_ids [simp]: "next_id (post_complete_stopped f c s) = next_id s"
  by (simp add: post_complete_stopped_def)

interpretation stopping: conservative "stopped_receiver n"
proof
  fix s :: "'b core"
  show "next_id (stopped_receiver n s) = next_id s"
    by (simp add: stopped_receiver_def split: list.split)
  assume live: "live_cells s"
  have split: "posted_stops s = take n (posted_stops s) @ drop n (posted_stops s)" by simp
  show "live_cells (stopped_receiver n s)"
    using live split
    by (auto simp: stopped_receiver_def live_cells_def split: list.split dest: in_set_takeD)
      (metis in_set_dropD list.set_intros(2) UnI2)
  show "account (stopped_receiver n s) = account s"
  proof (cases "drop n (posted_stops s)")
    case (Cons c later)
    have "\<not> op_finished c" using live Cons in_set_dropD [of c n "posted_stops s"]
      by (auto simp: live_cells_def)
    moreover have "mset (map op_id (posted_stops s)) =
        mset (map op_id (take n (posted_stops s))) + mset (map op_id (c # later))"
      by (subst split, subst Cons) (simp only: map_append mset_append)
    ultimately show ?thesis using Cons complete_shot.terminals_first [of c]
      by (simp add: stopped_receiver_def account_def)
  qed (simp add: stopped_receiver_def)
qed

section \<open>Pumps and routes\<close>

text \<open>The cells of the write that is in flight or about to be armed.\<close>

definition inflight :: "'b core \<Rightarrow> nat list" where
  "inflight s =
     (case armed_write s of
        Some (_, staged) \<Rightarrow> staged
      | None \<Rightarrow> (case arming s of Some staged \<Rightarrow> staged | None \<Rightarrow> []))"

text \<open>The flags of the pumps agree with what is armed, and the descriptor is closed last.\<close>

definition pumps_ok :: "'b core \<Rightarrow> bool" where
  "pumps_ok s \<longleftrightarrow>
     (write_in_flight s \<longleftrightarrow> armed_write s \<noteq> None \<or> arming s \<noteq> None) \<and>
     (armed_write s = None \<or> arming s = None) \<and>
     (read_running s \<longleftrightarrow> armed_read s \<or> reading s) \<and> \<not> (armed_read s \<and> reading s) \<and>
     (phase s = Phase_closed \<longrightarrow> \<not> read_running s \<and> \<not> write_in_flight s) \<and>
     (abandoned s \<longrightarrow> phase s \<noteq> Phase_open) \<and>
     count_list (trace s) Close_descriptor \<le> (if phase s = Phase_closed then 1 else 0)"

text \<open>A draining connection waits for a pump.\<close>

definition settled :: "'b core \<Rightarrow> bool" where
  "settled s \<longleftrightarrow> (phase s = Phase_draining \<longrightarrow> read_running s \<or> write_in_flight s)"

text \<open>
  The raw pointers of an open connection: staged cells are those of the write, registry entries
  lead to queued cells with their tag that are not detached, and the continuation target waits for
  a continuation.
\<close>

definition staged_ok :: "'b core \<Rightarrow> bool" where
  "staged_ok s \<longleftrightarrow>
     (phase s = Phase_open \<longrightarrow>
        (\<forall>c \<in> set (write_queue s). op_staged c \<longrightarrow> op_id c \<in> set (inflight s)))"

definition links_ok :: "'b core \<Rightarrow> bool" where
  "links_ok s \<longleftrightarrow>
     (phase s = Phase_open \<longrightarrow>
        (\<forall>(tag, i) \<in> set (registry s).
           \<exists>c \<in> set (write_queue s). op_id c = i \<and> op_tag c = tag \<and> \<not> op_detached c)) \<and>
     (\<forall>i. continuation_target s = Some i \<longrightarrow>
        phase s = Phase_open \<and> (\<exists>c \<in> set (write_queue s). op_id c = i \<and> op_awaits_continuation c))"

definition routes_ok :: "'b core \<Rightarrow> bool" where
  "routes_ok s \<longleftrightarrow> staged_ok s \<and> links_ok s"

lemmas routes_defs = routes_ok_def staged_ok_def links_ok_def

lemma inflight_frame [simp]:
  "inflight (s\<lparr>phase := x0\<rparr>) = inflight s"
  "inflight (s\<lparr>tag_counter := x1\<rparr>) = inflight s"
  "inflight (s\<lparr>registry := x2\<rparr>) = inflight s"
  "inflight (s\<lparr>write_queue := x3\<rparr>) = inflight s"
  "inflight (s\<lparr>write_staging := x4\<rparr>) = inflight s"
  "inflight (s\<lparr>write_in_flight := x5\<rparr>) = inflight s"
  "inflight (s\<lparr>kick_posted := x6\<rparr>) = inflight s"
  "inflight (s\<lparr>continuation_target := x7\<rparr>) = inflight s"
  "inflight (s\<lparr>read_buffer := x8\<rparr>) = inflight s"
  "inflight (s\<lparr>framer := x9\<rparr>) = inflight s"
  "inflight (s\<lparr>read_running := x10\<rparr>) = inflight s"
  "inflight (s\<lparr>suspend_read := x11\<rparr>) = inflight s"
  "inflight (s\<lparr>bye_received := x12\<rparr>) = inflight s"
  "inflight (s\<lparr>abandoned := x13\<rparr>) = inflight s"
  "inflight (s\<lparr>unsolicited := x14\<rparr>) = inflight s"
  "inflight (s\<lparr>armed_read := x15\<rparr>) = inflight s"
  "inflight (s\<lparr>reading := x16\<rparr>) = inflight s"
  "inflight (s\<lparr>posted_stops := x17\<rparr>) = inflight s"
  "inflight (s\<lparr>trace := x18\<rparr>) = inflight s"
  "inflight (s\<lparr>next_id := x19\<rparr>) = inflight s"
  "inflight (emit es s) = inflight s"
  by (simp_all add: inflight_def emit_def split: option.split)

lemma count_list_fails [simp]: "count_list (concat (map (\<lambda>c. snd (op_fail ec c)) cs)) Close_descriptor = 0"
  by (induction cs) (simp_all add: op_fail_def deliver_value_def)

lemma count_list_drops [simp]: "count_list (map (\<lambda>c. Dropped (op_id c)) cs) Close_descriptor = 0"
  by (induction cs) simp_all

lemma fail_cells_simps [simp]:
  "phase (fail_cells ec cs s) = phase s" "registry (fail_cells ec cs s) = registry s"
  "write_queue (fail_cells ec cs s) = write_queue s" "write_in_flight (fail_cells ec cs s) = write_in_flight s"
  "continuation_target (fail_cells ec cs s) = continuation_target s"
  "framer (fail_cells ec cs s) = framer s" "read_running (fail_cells ec cs s) = read_running s"
  "abandoned (fail_cells ec cs s) = abandoned s" "armed_read (fail_cells ec cs s) = armed_read s"
  "reading (fail_cells ec cs s) = reading s" "armed_write (fail_cells ec cs s) = armed_write s"
  "arming (fail_cells ec cs s) = arming s" "posted_stops (fail_cells ec cs s) = posted_stops s"
  "next_id (fail_cells ec cs s) = next_id s" "read_buffer (fail_cells ec cs s) = read_buffer s"
  "bye_received (fail_cells ec cs s) = bye_received s" "kick_posted (fail_cells ec cs s) = kick_posted s"
  "pumps_ok (fail_cells ec cs s) = pumps_ok s" "settled (fail_cells ec cs s) = settled s"
  "routes_ok (fail_cells ec cs s) = routes_ok s"
  by (simp_all add: fail_cells_def pumps_ok_def settled_def routes_defs)

lemma drop_cells_simps [simp]:
  "phase (drop_cells cs s) = phase s" "registry (drop_cells cs s) = registry s"
  "write_queue (drop_cells cs s) = write_queue s" "write_in_flight (drop_cells cs s) = write_in_flight s"
  "continuation_target (drop_cells cs s) = continuation_target s"
  "framer (drop_cells cs s) = framer s" "read_running (drop_cells cs s) = read_running s"
  "abandoned (drop_cells cs s) = abandoned s" "armed_read (drop_cells cs s) = armed_read s"
  "reading (drop_cells cs s) = reading s" "armed_write (drop_cells cs s) = armed_write s"
  "arming (drop_cells cs s) = arming s" "posted_stops (drop_cells cs s) = posted_stops s"
  "next_id (drop_cells cs s) = next_id s" "read_buffer (drop_cells cs s) = read_buffer s"
  "pumps_ok (drop_cells cs s) = pumps_ok s" "settled (drop_cells cs s) = settled s"
  "routes_ok (drop_cells cs s) = routes_ok s"
  by (simp_all add: drop_cells_def pumps_ok_def settled_def routes_defs)

text \<open>Ending the close protocol.\<close>

lemma finish_simps [simp]:
  "registry (maybe_finish_close s) = registry s" "write_queue (maybe_finish_close s) = write_queue s"
  "continuation_target (maybe_finish_close s) = continuation_target s"
  "framer (maybe_finish_close s) = framer s" "read_running (maybe_finish_close s) = read_running s"
  "abandoned (maybe_finish_close s) = abandoned s" "write_in_flight (maybe_finish_close s) = write_in_flight s"
  "armed_read (maybe_finish_close s) = armed_read s" "reading (maybe_finish_close s) = reading s"
  "armed_write (maybe_finish_close s) = armed_write s" "arming (maybe_finish_close s) = arming s"
  "posted_stops (maybe_finish_close s) = posted_stops s" "next_id (maybe_finish_close s) = next_id s"
  "read_buffer (maybe_finish_close s) = read_buffer s" "inflight (maybe_finish_close s) = inflight s"
  "bye_received (maybe_finish_close s) = bye_received s"
  "phase (maybe_finish_close s) = Phase_open \<longleftrightarrow> phase s = Phase_open"
  by (simp_all add: maybe_finish_close_def)

lemma finish_settles [simp]: "settled (maybe_finish_close s)"
  by (simp add: maybe_finish_close_def settled_def)

lemma finish_pumps [simp]: "pumps_ok s \<Longrightarrow> pumps_ok (maybe_finish_close s)"
  by (auto simp: maybe_finish_close_def pumps_ok_def)

lemma finish_routes [simp]: "routes_ok (maybe_finish_close s) = routes_ok s"
  by (auto simp: maybe_finish_close_def routes_defs)

text \<open>Losing the connection.\<close>

lemma lost_simps [simp]:
  "framer (connection_lost ec s) = framer s" "read_running (connection_lost ec s) = read_running s"
  "abandoned (connection_lost ec s) = abandoned s" "write_in_flight (connection_lost ec s) = write_in_flight s"
  "armed_read (connection_lost ec s) = armed_read s" "reading (connection_lost ec s) = reading s"
  "armed_write (connection_lost ec s) = armed_write s" "arming (connection_lost ec s) = arming s"
  "posted_stops (connection_lost ec s) = posted_stops s" "next_id (connection_lost ec s) = next_id s"
  "read_buffer (connection_lost ec s) = read_buffer s"
  "bye_received (connection_lost ec s) = bye_received s"
  by (cases "phase s = Phase_closed"; simp add: connection_lost_eq)+

lemma lost_phase: "phase (connection_lost ec s) \<noteq> Phase_open"
  by (cases "phase s = Phase_closed") (simp_all add: connection_lost_eq)

lemma lost_pumps: "pumps_ok s \<Longrightarrow> pumps_ok (connection_lost ec s)"
  by (cases "phase s = Phase_closed")
    (auto simp: connection_lost_eq intro!: finish_pumps, auto simp: pumps_ok_def)

lemma lost_settles [simp]: "settled (connection_lost ec s)"
  by (cases "phase s = Phase_closed") (simp_all add: connection_lost_eq settled_def [of s])

lemma lost_routes: "continuation_target s = None \<or> phase s \<noteq> Phase_closed \<Longrightarrow> routes_ok (connection_lost ec s)"
  by (cases "phase s = Phase_closed") (auto simp: connection_lost_eq routes_defs)

lemma routes_closed: "routes_ok s \<Longrightarrow> continuation_target s = None \<or> phase s \<noteq> Phase_closed"
  by (auto simp: routes_defs)

text \<open>Posting.\<close>

lemma post_kick_simps [simp]:
  "framer (post_kick f s) = framer s" "abandoned (post_kick f s) = abandoned s"
  "next_id (post_kick f s) = next_id s" "read_buffer (post_kick f s) = read_buffer s"
  "reading (post_kick f s) = reading s" "read_running (post_kick f s) = read_running s"
  "armed_read (post_kick f s) = armed_read s" "armed_write (post_kick f s) = armed_write s"
  "arming (post_kick f s) = arming s"
  by (simp_all add: post_kick_def)

lemma pumps_frame [simp]:
  "pumps_ok (s\<lparr>registry := r\<rparr>) = pumps_ok s" "pumps_ok (s\<lparr>write_queue := q\<rparr>) = pumps_ok s"
  "pumps_ok (s\<lparr>kick_posted := k\<rparr>) = pumps_ok s" "pumps_ok (s\<lparr>continuation_target := t\<rparr>) = pumps_ok s"
  "pumps_ok (s\<lparr>posted_stops := p\<rparr>) = pumps_ok s" "pumps_ok (s\<lparr>framer := l\<rparr>) = pumps_ok s"
  "pumps_ok (s\<lparr>read_buffer := b\<rparr>) = pumps_ok s" "pumps_ok (s\<lparr>bye_received := y\<rparr>) = pumps_ok s"
  "pumps_ok (s\<lparr>tag_counter := n\<rparr>) = pumps_ok s" "pumps_ok (s\<lparr>next_id := m\<rparr>) = pumps_ok s"
  "pumps_ok (s\<lparr>suspend_read := z\<rparr>) = pumps_ok s" "pumps_ok (s\<lparr>unsolicited := u\<rparr>) = pumps_ok s"
  "pumps_ok (s\<lparr>write_staging := w\<rparr>) = pumps_ok s"
  by (simp_all add: pumps_ok_def)

lemma settled_frame [simp]:
  "settled (s\<lparr>registry := r\<rparr>) = settled s" "settled (s\<lparr>write_queue := q\<rparr>) = settled s"
  "settled (s\<lparr>kick_posted := k\<rparr>) = settled s" "settled (s\<lparr>continuation_target := t\<rparr>) = settled s"
  "settled (s\<lparr>posted_stops := p\<rparr>) = settled s" "settled (s\<lparr>framer := l\<rparr>) = settled s"
  "settled (s\<lparr>read_buffer := b\<rparr>) = settled s" "settled (s\<lparr>bye_received := y\<rparr>) = settled s"
  "settled (s\<lparr>tag_counter := n\<rparr>) = settled s" "settled (s\<lparr>next_id := m\<rparr>) = settled s"
  "settled (s\<lparr>suspend_read := z\<rparr>) = settled s" "settled (s\<lparr>unsolicited := u\<rparr>) = settled s"
  "settled (s\<lparr>write_staging := w\<rparr>) = settled s" "settled (s\<lparr>armed_write := a\<rparr>) = settled s"
  "settled (s\<lparr>arming := g\<rparr>) = settled s" "settled (emit es s) = settled s"
  by (simp_all add: settled_def)

lemma routes_frame [simp]:
  "routes_ok (s\<lparr>kick_posted := k\<rparr>) = routes_ok s"
  "routes_ok (s\<lparr>posted_stops := p\<rparr>) = routes_ok s" "routes_ok (s\<lparr>framer := l\<rparr>) = routes_ok s"
  "routes_ok (s\<lparr>read_buffer := b\<rparr>) = routes_ok s" "routes_ok (s\<lparr>bye_received := y\<rparr>) = routes_ok s"
  "routes_ok (s\<lparr>tag_counter := n\<rparr>) = routes_ok s" "routes_ok (s\<lparr>next_id := m\<rparr>) = routes_ok s"
  "routes_ok (s\<lparr>suspend_read := z\<rparr>) = routes_ok s" "routes_ok (s\<lparr>unsolicited := u\<rparr>) = routes_ok s"
  "routes_ok (s\<lparr>write_staging := w\<rparr>) = routes_ok s" "routes_ok (s\<lparr>armed_read := a\<rparr>) = routes_ok s"
  "routes_ok (s\<lparr>reading := d\<rparr>) = routes_ok s" "routes_ok (s\<lparr>read_running := e\<rparr>) = routes_ok s"
  "routes_ok (s\<lparr>write_in_flight := wif\<rparr>) = routes_ok s" "routes_ok (emit es s) = routes_ok s"
  by (simp_all add: routes_defs)

lemma pumps_emit: "Close_descriptor \<notin> set es \<Longrightarrow> pumps_ok (emit es s) = pumps_ok s"
  by (simp add: pumps_ok_def count_list_0_iff)

text \<open>The contract of the handlers that start from and end in a consistent state.\<close>

definition core_inv :: "'b core \<Rightarrow> bool" where
  "core_inv s \<longleftrightarrow> ledger s \<and> pumps_ok s \<and> settled s \<and> routes_ok s \<and> response_end (framer s) = 0"

locale consistent =
  fixes h :: "'b core \<Rightarrow> 'b core"
  assumes keeps: "core_inv s \<Longrightarrow> core_inv (h s)"
begin

lemma keeps_iterated: "core_inv s \<Longrightarrow> core_inv ((h ^^ n) s)"
  by (induction n) (simp_all add: keeps)

end

lemma core_invI:
  "ledger s \<Longrightarrow> pumps_ok s \<Longrightarrow> settled s \<Longrightarrow> routes_ok s \<Longrightarrow> response_end (framer s) = 0 \<Longrightarrow> core_inv s"
  by (simp add: core_inv_def)

interpretation lost_ok: consistent "connection_lost ec"
  by unfold_locales
    (auto simp: core_inv_def intro: lost.keeps_ledger lost_pumps lost_routes dest: routes_closed)

interpretation posting_ok: consistent "post_kick f"
proof
  fix s :: "'b core"
  assume s: "core_inv s"
  have "core_inv (s\<lparr>kick_posted := k\<rparr>)" for k using s by (simp add: core_inv_def ledger_def)
  then show "core_inv (post_kick f s)"
    using s by (simp add: post_kick_def lost_ok.keeps)
qed

lemma no_close_stopped: "Close_descriptor \<notin> set (snd (op_complete_stopped c))"
  by (simp add: op_complete_stopped_def deliver_stopped_def)

lemma no_close_tagged: "Close_descriptor \<notin> set (snd (op_on_tagged r c))"
  by (simp add: op_on_tagged_def deliver_stopped_def deliver_value_def split: prod.split)

interpretation stopping_ok: consistent "stopped_receiver n"
proof
  fix s :: "'b core"
  assume s: "core_inv s"
  then show "core_inv (stopped_receiver n s)"
    using stopping.keeps_ledger [of s n]
    by (auto simp: core_inv_def stopped_receiver_def pumps_emit no_close_stopped split: list.splits)
qed

lemma post_stopped_simps [simp]:
  "framer (post_complete_stopped f c s) = framer s" "phase (post_complete_stopped f c s) = phase s"
  "write_queue (post_complete_stopped f c s) = write_queue s"
  "registry (post_complete_stopped f c s) = registry s"
  "write_in_flight (post_complete_stopped f c s) = write_in_flight s"
  "continuation_target (post_complete_stopped f c s) = continuation_target s"
  "inflight (post_complete_stopped f c s) = inflight s"
  "pumps_ok (post_complete_stopped f c s) = pumps_ok s"
  "settled (post_complete_stopped f c s) = settled s"
  "routes_ok (post_complete_stopped f c s) = routes_ok s"
  by (simp_all add: post_complete_stopped_def pumps_emit no_close_stopped)

text \<open>Between two owners: the ledger misses exactly the cell a handler holds.\<close>

definition owing :: "cell \<Rightarrow> 'b core \<Rightarrow> bool" where
  "owing c s \<longleftrightarrow> live_cells s \<and> \<not> op_finished c \<and> add_mset (op_id c) (account s) = mset [0 ..< next_id s]"

lemma owing_fail: "owing c s \<Longrightarrow> ledger (fail_cells ec [c] s)"
  by (simp add: owing_def ledger_def account_fail)

lemma owing_drop: "owing c s \<Longrightarrow> ledger (drop_cells [c] s)"
  by (simp add: owing_def ledger_def account_drop)

lemma owing_post: "owing c s \<Longrightarrow> ledger (post_complete_stopped f c s)"
  by (simp add: owing_def ledger_def account_post_stopped live_post_stopped)

lemma owing_frame [simp]:
  "owing c (s\<lparr>registry := r\<rparr>) = owing c s" "owing c (s\<lparr>continuation_target := t\<rparr>) = owing c s"
  "owing c (s\<lparr>framer := l\<rparr>) = owing c s" "owing c (s\<lparr>kick_posted := k\<rparr>) = owing c s"
  by (simp_all add: owing_def)

lemma owing_kick: "owing c s \<Longrightarrow> owing c (post_kick f s)"
  by (simp add: owing_def posting.account_eq posting.live)

lemma owing_push:
  "owing c s \<Longrightarrow> op_id c' = op_id c \<Longrightarrow> \<not> op_finished c' \<Longrightarrow>
     ledger (s\<lparr>write_queue := write_queue s @ [c']\<rparr>)"
  by (auto simp: owing_def ledger_def account_def live_cells_def)

lemma owing_extract:
  "ledger s \<Longrightarrow> extract_from_queue_locked i s = (Some c, s') \<Longrightarrow> owing c s'"
  by (frule extract_Some) (auto simp: owing_def ledger_def account_def live_cells_def)

lemma ledger_frame_more [simp]:
  "ledger (s\<lparr>registry := r\<rparr>) = ledger s" "ledger (s\<lparr>continuation_target := t\<rparr>) = ledger s"
  "ledger (s\<lparr>framer := l\<rparr>) = ledger s" "ledger (s\<lparr>kick_posted := k\<rparr>) = ledger s"
  "ledger (s\<lparr>reading := d\<rparr>) = ledger s" "ledger (s\<lparr>read_running := e\<rparr>) = ledger s"
  "ledger (s\<lparr>armed_read := a\<rparr>) = ledger s" "ledger (s\<lparr>read_buffer := b\<rparr>) = ledger s"
  "ledger (s\<lparr>write_in_flight := w\<rparr>) = ledger s" "ledger (s\<lparr>arming := g\<rparr>) = ledger s"
  "ledger (s\<lparr>armed_write := aw\<rparr>) = ledger s" "ledger (s\<lparr>phase := ph\<rparr>) = ledger s"
  "ledger (s\<lparr>write_staging := ws\<rparr>) = ledger s" "ledger (s\<lparr>bye_received := y\<rparr>) = ledger s"
  "ledger (s\<lparr>suspend_read := z\<rparr>) = ledger s" "ledger (s\<lparr>unsolicited := u\<rparr>) = ledger s"
  "ledger (s\<lparr>abandoned := n\<rparr>) = ledger s" "ledger (s\<lparr>tag_counter := tc\<rparr>) = ledger s"
  by (simp_all add: ledger_def)

lemma ledger_emit: "terminals es = [] \<Longrightarrow> ledger (emit es s) = ledger s"
  by (simp add: ledger_def account_def live_cells_def)

lemma distinct_queue: "ledger s \<Longrightarrow> distinct (map op_id (write_queue s))"
proof -
  assume "ledger s"
  then have "mset (map op_id (write_queue s) @ map op_id (posted_stops s) @ terminals (trace s))
      = mset [0 ..< next_id s]"
    by (simp add: ledger_def account_def ac_simps)
  then have "distinct (map op_id (write_queue s) @ map op_id (posted_stops s) @ terminals (trace s))"
    using mset_eq_imp_distinct_iff distinct_upt by blast
  then show ?thesis by simp
qed

lemma find_cell_Some: "find_cell i s = Some c \<Longrightarrow> c \<in> set (write_queue s) \<and> op_id c = i"
  by (auto simp: find_cell_def find_Some_iff)

lemma find_cell_None: "find_cell i s = None \<longleftrightarrow> i \<notin> op_id ` set (write_queue s)"
  by (auto simp: find_cell_def find_None_iff)

lemma distinct_cells:
  "distinct (map op_id q) \<Longrightarrow> c \<in> set q \<Longrightarrow> d \<in> set q \<Longrightarrow> op_id c = op_id d \<Longrightarrow> c = d"
  by (simp add: distinct_map inj_on_def)

lemma extract_Some_find:
  assumes "ledger s" "extract_from_queue_locked i s = (Some c, s')" "find_cell i s = Some d"
  shows "c = d"
  using distinct_cells [OF distinct_queue [OF assms(1)]] extract_Some [OF assms(2)]
    find_cell_Some [OF assms(3)] by auto

lemma extract_found: "find_cell i s = Some c \<Longrightarrow> \<exists>d s'. extract_from_queue_locked i s = (Some d, s')"
  using extract_None [of i s] find_cell_Some [of i s c]
  by (cases "extract_from_queue_locked i s", cases "fst (extract_from_queue_locked i s)") auto

text \<open>Routes after a cell leaves, after a cell changes in place, after a cell arrives.\<close>

lemma links_remove:
  assumes r: "links_ok s"
    and q: "mset (write_queue s) = add_mset c (mset (write_queue s'))"
    and reg: "set (registry s') \<subseteq> {(t, i) \<in> set (registry s). t \<noteq> op_tag c \<or> i \<noteq> op_id c}"
    and same: "phase s' = phase s"
    and target: "\<And>i. continuation_target s' = Some i \<Longrightarrow> continuation_target s = Some i \<and> i \<noteq> op_id c"
  shows "links_ok s'"
proof -
  have sets: "set (write_queue s) = insert c (set (write_queue s'))"
    using arg_cong [OF q, of set_mset] by simp
  have other: "\<exists>b \<in> set (write_queue s'). op_id b = i \<and> op_tag b = t \<and> \<not> op_detached b"
    if o: "phase s = Phase_open" and m: "(t, i) \<in> set (registry s')" for t i
  proof -
    from m reg have "(t, i) \<in> set (registry s)" "t \<noteq> op_tag c \<or> i \<noteq> op_id c" by auto
    moreover from this r o obtain b where "b \<in> set (write_queue s)" "op_id b = i" "op_tag b = t" "\<not> op_detached b"
      by (auto simp: links_ok_def)
    ultimately show ?thesis using sets by auto
  qed
  have await: "phase s = Phase_open \<and> (\<exists>b \<in> set (write_queue s'). op_id b = i \<and> op_awaits_continuation b)"
    if "continuation_target s' = Some i" for i
    using r target [OF that] sets by (auto simp: links_ok_def)
  show ?thesis using r same sets other await by (auto simp: links_ok_def)
qed

lemma staged_remove:
  "staged_ok s \<Longrightarrow> set (write_queue s') \<subseteq> set (write_queue s) \<Longrightarrow> phase s' = phase s \<Longrightarrow>
     set (inflight s') = set (inflight s) \<Longrightarrow> staged_ok s'"
  by (auto simp: staged_ok_def)

lemma links_update:
  assumes r: "links_ok s"
    and f: "\<And>c. op_id (f c) = op_id c" "\<And>c. op_tag (f c) = op_tag c" "\<And>c. op_detached (f c) = op_detached c"
      "\<And>c. continuation_target s = Some i \<Longrightarrow> op_awaits_continuation (f c) = op_awaits_continuation c"
  shows "links_ok (update_cell i f s)"
proof -
  define g where "g c = (if op_id c = i then f c else c)" for c
  have g: "op_id (g c) = op_id c" "op_tag (g c) = op_tag c" "op_detached (g c) = op_detached c" for c
    using f(1-3) by (simp_all add: g_def)
  have a: "op_awaits_continuation (g c) = op_awaits_continuation c"
    if "continuation_target s = Some (op_id c)" for c
    using f(4) that by (simp add: g_def)
  have u: "write_queue (update_cell i f s) = map g (write_queue s)"
    by (simp add: update_cell_def on_cell_def g_def)
  have reg: "\<exists>c \<in> set (map g (write_queue s)). op_id c = j \<and> op_tag c = t \<and> \<not> op_detached c"
    if "phase s = Phase_open" "(t, j) \<in> set (registry s)" for t j
    using r that g by (force simp: links_ok_def)
  have tgt: "phase s = Phase_open \<and> (\<exists>c \<in> set (map g (write_queue s)). op_id c = j \<and> op_awaits_continuation c)"
    if t: "continuation_target s = Some j" for j
  proof -
    obtain c where c: "phase s = Phase_open" "c \<in> set (write_queue s)" "op_id c = j" "op_awaits_continuation c"
      using r t by (auto simp: links_ok_def)
    then show ?thesis using a [of c] t g(1) [of c] by auto
  qed
  have "phase (update_cell i f s) = phase s" "registry (update_cell i f s) = registry s"
    "continuation_target (update_cell i f s) = continuation_target s" by (simp_all add: update_cell_def)
  then show ?thesis using reg tgt unfolding links_ok_def u by (simp, blast)
qed

lemma staged_update:
  assumes "staged_ok s" "\<And>c. op_id (f c) = op_id c" "\<And>c. op_staged (f c) \<Longrightarrow> op_staged c"
  shows "staged_ok (update_cell i f s)"
  using assms by (auto simp: staged_ok_def update_cell_def on_cell_def)

lemma routes_update:
  assumes "routes_ok s" "\<And>c. op_id (f c) = op_id c" "\<And>c. op_tag (f c) = op_tag c"
    "\<And>c. op_detached (f c) = op_detached c" "\<And>c. op_staged (f c) = op_staged c"
    "\<And>c. continuation_target s = Some i \<Longrightarrow> op_awaits_continuation (f c) = op_awaits_continuation c"
  shows "routes_ok (update_cell i f s)"
  using assms by (auto simp: routes_ok_def intro!: links_update staged_update)

lemma update_simps [simp]:
  "phase (update_cell i f s) = phase s" "registry (update_cell i f s) = registry s"
  "continuation_target (update_cell i f s) = continuation_target s"
  "next_id (update_cell i f s) = next_id s" "framer (update_cell i f s) = framer s"
  "posted_stops (update_cell i f s) = posted_stops s" "trace (update_cell i f s) = trace s"
  "write_queue (update_cell i f s) = on_cell i f (write_queue s)"
  "inflight (update_cell i f s) = inflight s" "abandoned (update_cell i f s) = abandoned s"
  "pumps_ok (update_cell i f s) = pumps_ok s" "settled (update_cell i f s) = settled s"
  "write_in_flight (update_cell i f s) = write_in_flight s"
  "read_buffer (update_cell i f s) = read_buffer s" "reading (update_cell i f s) = reading s"
  by (simp_all add: update_cell_def)

lemma ledger_update:
  "ledger s \<Longrightarrow> (\<And>c. op_id (f c) = op_id c) \<Longrightarrow> (\<And>c. op_finished (f c) = op_finished c) \<Longrightarrow>
     ledger (update_cell i f s)"
  using on_cell_ids [of f i "write_queue s"] live_on_cell [of f "write_queue s" i]
  unfolding ledger_def account_def live_cells_def by (auto simp del: mset_map)

text \<open>Cell updates that keep identity.\<close>

named_theorems cell_frame

lemma cell_updates [cell_frame]:
  "op_id (op_mark_detached c) = op_id c" "op_tag (op_mark_detached c) = op_tag c"
  "op_staged (op_mark_detached c) = op_staged c" "op_finished (op_mark_detached c) = op_finished c"
  "op_awaits_continuation (op_mark_detached c) = op_awaits_continuation c"
  "op_id (op_on_segment_flushed c) = op_id c" "op_tag (op_on_segment_flushed c) = op_tag c"
  "op_finished (op_on_segment_flushed c) = op_finished c" "\<not> op_staged (op_on_segment_flushed c)"
  "op_awaits_continuation (op_on_segment_flushed c) = op_awaits_continuation c"
  "op_detached (op_on_segment_flushed c) = op_detached c" "op_detached (op_on_continuation m c) = op_detached c"
  "op_detached (op_on_segment_staged c) = op_detached c"
  "op_id (op_on_continuation m c) = op_id c" "op_tag (op_on_continuation m c) = op_tag c"
  "op_finished (op_on_continuation m c) = op_finished c" "op_staged (op_on_continuation m c) = op_staged c"
  "op_id (op_on_segment_staged c) = op_id c" "op_tag (op_on_segment_staged c) = op_tag c"
  "op_finished (op_on_segment_staged c) = op_finished c" "op_staged (op_on_segment_staged c)"
  "op_awaits_continuation (op_on_segment_staged c) = op_awaits_continuation c"
  by (simp_all add: op_mark_detached_def op_awaits_continuation_def op_on_segment_flushed_def
      op_on_continuation_def op_on_segment_staged_def awaits_continuation_def on_segment_flushed_def)

lemma idle_done_awaits: "idle_done w = Some w' \<Longrightarrow> wire_awaits w' = wire_awaits w"
  by (cases w) (auto simp: queue_done_def split: if_splits)

lemma cancel_written_frame [cell_frame]:
  "op_id (snd (op_cancel_written c)) = op_id c" "op_tag (snd (op_cancel_written c)) = op_tag c"
  "op_staged (snd (op_cancel_written c)) = op_staged c"
  "op_finished (snd (op_cancel_written c)) = op_finished c"
  "op_detached (snd (op_cancel_written c)) = op_detached c"
  "op_awaits_continuation (snd (op_cancel_written c)) = op_awaits_continuation c"
  by (simp_all add: op_cancel_written_def op_awaits_continuation_def awaits_continuation_def
      idle_done_awaits split: option.split)

lemma on_untagged_wire: "on_untagged r c = Some c' \<Longrightarrow> cmd_wire c' = cmd_wire c \<and> cmd_args c' = cmd_args c"
  by (auto simp: on_untagged_def split: accum.splits)

lemma on_untagged_frame:
  "op_on_untagged r c = Some c' \<Longrightarrow>
     op_id c' = op_id c \<and> op_tag c' = op_tag c \<and> op_staged c' = op_staged c \<and>
     op_detached c' = op_detached c \<and>
     op_finished c' = op_finished c \<and> op_awaits_continuation c' = op_awaits_continuation c"
  by (auto simp: op_on_untagged_def op_awaits_continuation_def awaits_continuation_def dest!: on_untagged_wire)

lemma reg_erase_set [simp]: "set (reg_erase t reg) = {(u, i) \<in> set reg. u \<noteq> t}"
  by (auto simp: reg_erase_def)

end
