(* ===== verification/Imap_Context.thy ===== *)
theory Imap_Context
  imports Core
begin

text \<open>
  The public operations of \<open>imap_context\<close> and \<open>context_core\<close> (\<open>imap/imap_context.h\<close>):
  tags, submission, cancellation at its three granularities, the close and the abandonment
  protocol, relocation.

  Where the code follows a registry pointer the model looks the cell up in the write queue;
  \<open>None\<close> is a pointer to a destroyed cell, or an assertion that fails while a command is rendered.
\<close>

section \<open>Tags\<close>

definition tag_text :: "nat \<Rightarrow> octets" where
  "tag_text n =
     (let digits = to_chars n in ''a'' @ replicate (4 - length digits) (CHR ''0'') @ digits)"

definition allocate_tag :: "'b core \<Rightarrow> octets \<times> 'b core" where
  "allocate_tag s = (tag_text (tag_counter s), s\<lparr>tag_counter := wrap64 (tag_counter s + 1)\<rparr>)"

section \<open>Submission\<close>

text \<open>The Boolean result says whether the registry insertion threw.\<close>

definition enqueue_operation :: "fates \<Rightarrow> cell \<Rightarrow> octets \<Rightarrow> bool \<Rightarrow> 'b core \<Rightarrow> bool \<times> 'b core" where
  "enqueue_operation f c tag kick s =
     (if phase s \<noteq> Phase_open then
        (False, fail_cells (if bye_received s then Errc Server_bye else Operation_canceled) [c] s)
      else if no_registry_slot f then (True, drop_cells [c] s)
      else
        (let s1 = s\<lparr>write_queue := write_queue s @ [c],
                    registry := reg_emplace tag (op_id c) (registry s)\<rparr>;
             (stop, c') = op_take_stop_request c;
             s2 = update_cell (op_id c) (\<lambda>_. c') s1
         in if stop then
              (case extract_from_queue_locked (op_id c) s2 of
                 (None, s3) \<Rightarrow> (False, s3\<lparr>registry := reg_erase tag (registry s3)\<rparr>)
               | (Some c'', s3) \<Rightarrow>
                   (False, post_complete_stopped f c'' (s3\<lparr>registry := reg_erase tag (registry s3)\<rparr>)))
            else (False, if kick then post_kick f s2 else s2)))"

text \<open>Tag, cell and rendering come first; the cell address is fresh.\<close>

definition make_cell ::
  "command_args \<Rightarrow> bool \<Rightarrow> bool \<Rightarrow> 'b core \<Rightarrow> (cell \<times> octets \<times> 'b core) option" where
  "make_cell a callback stop_requested s =
     (let (tag, s1) = allocate_tag s
      in map_option (\<lambda>c. (c, tag, s1\<lparr>next_id := next_id s1 + 1\<rparr>))
           (op_attach tag stop_requested (new_cell (next_id s1) (new_command a) callback)))"

definition submit :: "fates \<Rightarrow> command_args \<Rightarrow> 'b core \<Rightarrow> (bool \<times> 'b core) option" where
  "submit f a s =
     map_option (\<lambda>(c, tag, s1). enqueue_operation f c tag False s1) (make_cell a True False s)"

text \<open>
  The batch is submitted in order; when one insertion throws, the handlers of the commands not yet
  submitted are destroyed with the vector.
\<close>

definition drop_batch :: "command_args list \<Rightarrow> 'b core \<Rightarrow> 'b core" where
  "drop_batch as s =
     emit (map Dropped [next_id s ..< next_id s + length as]) (s\<lparr>next_id := next_id s + length as\<rparr>)"

fun submit_batch :: "(fates \<times> command_args) list \<Rightarrow> 'b core \<Rightarrow> 'b core option" where
  "submit_batch [] s = Some s"
| "submit_batch ((f, a) # as) s =
     (case submit f a s of
        None \<Rightarrow> None
      | Some (True, s1) \<Rightarrow> Some (drop_batch (map snd as) s1)
      | Some (False, s1) \<Rightarrow> submit_batch as s1)"

definition start_operation ::
  "fates \<Rightarrow> command_args \<Rightarrow> bool \<Rightarrow> 'b core \<Rightarrow> (bool \<times> 'b core) option" where
  "start_operation f a stop_requested s =
     map_option (\<lambda>(c, tag, s1). enqueue_operation f c tag True s1) (make_cell a False stop_requested s)"

definition flush :: "fates \<Rightarrow> 'b core \<Rightarrow> 'b core" where
  "flush f s = post_kick f s"

section \<open>Cancellation\<close>

text \<open>The result is the extracted cell, if any, and whether the write pump must be kicked.\<close>

definition detach_locked ::
  "octets \<Rightarrow> nat \<Rightarrow> 'b core \<Rightarrow> (cell option \<times> bool \<times> 'b core) option" where
  "detach_locked tag i s =
     (case find_cell i s of
        None \<Rightarrow> None
      | Some c \<Rightarrow>
          (let erased = s\<lparr>registry := reg_erase tag (registry s)\<rparr>
           in if \<not> op_has_written c \<and> \<not> op_is_written c \<and> \<not> op_staged c \<and> \<not> op_awaits_continuation c
              then (let (r, s1) = extract_from_queue_locked i erased in Some (r, False, s1))
              else if fst (op_cancel_written c)
              then Some (None, True, update_cell i (\<lambda>c. snd (op_cancel_written c)) s)
              else if op_is_written c
              then (let (r, s1) = extract_from_queue_locked i erased in Some (r, False, s1))
              else Some (None, False, update_cell i op_mark_detached erased)))"

definition find_and_detach_locked ::
  "octets \<Rightarrow> nat option \<Rightarrow> 'b core \<Rightarrow> (cell option \<times> bool \<times> 'b core) option" where
  "find_and_detach_locked tag expected s =
     (case map_of (registry s) tag of
        None \<Rightarrow> Some (None, False, s)
      | Some i \<Rightarrow>
          (if expected \<noteq> None \<and> expected \<noteq> Some i then Some (None, False, s)
           else detach_locked tag i s))"

definition finish_cancellation :: "fates \<Rightarrow> cell option \<Rightarrow> bool \<Rightarrow> 'b core \<Rightarrow> 'b core" where
  "finish_cancellation f c kick s =
     (let s1 = (if kick then post_kick f s else s)
      in case c of None \<Rightarrow> s1 | Some c' \<Rightarrow> post_complete_stopped f c' s1)"

definition cancel_entry :: "fates \<Rightarrow> octets \<Rightarrow> nat option \<Rightarrow> 'b core \<Rightarrow> 'b core option" where
  "cancel_entry f tag expected s =
     (if phase s \<noteq> Phase_open then Some s
      else map_option (\<lambda>(c, kick, s1). finish_cancellation f c kick s1)
             (find_and_detach_locked tag expected s))"

definition cancel :: "fates \<Rightarrow> octets \<Rightarrow> 'b core \<Rightarrow> 'b core option" where
  "cancel f tag s = cancel_entry f tag None s"

definition on_stop_requested :: "fates \<Rightarrow> nat \<Rightarrow> octets \<Rightarrow> 'b core \<Rightarrow> 'b core option" where
  "on_stop_requested f i tag s = cancel_entry f tag (Some i) s"

text \<open>
  \<open>request_stop\<close> of a live cell of the sender path, queued or waiting for its posted stop
  completion; a callback-path cell has a token that never stops.
\<close>

definition request_stop :: "fates \<Rightarrow> nat \<Rightarrow> 'b core \<Rightarrow> 'b core option" where
  "request_stop f i s =
     (case List.find (\<lambda>c. op_id c = i \<and> \<not> op_callback c) (write_queue s @ posted_stops s) of
        None \<Rightarrow> Some s
      | Some c \<Rightarrow>
          (let note = (\<lambda>c. c\<lparr>op_stop_seen := True\<rparr>);
               s1 = s\<lparr>write_queue := on_cell i note (write_queue s),
                      posted_stops := on_cell i note (posted_stops s)\<rparr>
           in if op_finished c then Some s1 else on_stop_requested f i (op_tag c) s1))"

section \<open>Handlers and relocation\<close>

definition on_unsolicited :: "'b core \<Rightarrow> nat \<times> 'b core" where
  "on_unsolicited s = (let (i, t) = table_add (unsolicited s) in (i, s\<lparr>unsolicited := t\<rparr>))"

definition reset_registration :: "nat \<Rightarrow> 'b core \<Rightarrow> 'b core" where
  "reset_registration i s = s\<lparr>unsolicited := deactivate i (unsolicited s)\<rparr>"

definition suspend_read_for_relocation :: "'b core \<Rightarrow> 'b core" where
  "suspend_read_for_relocation s = s\<lparr>suspend_read := True\<rparr>"

definition is_read_suspended :: "'b core \<Rightarrow> bool" where
  "is_read_suspended s \<longleftrightarrow> suspend_read s \<and> \<not> read_running s"

definition is_alive :: "'b core \<Rightarrow> bool" where
  "is_alive s = read_running s"

section \<open>The close and the abandonment protocol\<close>

definition close :: "'b core \<Rightarrow> 'b core" where
  "close s =
     (if phase s \<noteq> Phase_open then s
      else
        (let s1 = emit [Shutdown_read] (s\<lparr>phase := Phase_draining, continuation_target := None\<rparr>);
             (pending, s2) = take_cells_locked (\<lambda>c. \<not> op_is_written c \<and> \<not> op_staged c) s1;
             s3 = s2\<lparr>registry := foldl (\<lambda>reg c. reg_erase (op_tag c) reg) (registry s2) pending\<rparr>
         in maybe_finish_close (fail_cells Operation_canceled pending s3)))"

definition abandon :: "'b core \<Rightarrow> 'b core" where
  "abandon s =
     (if phase s = Phase_closed then s
      else
        (let s1 = emit [Shutdown_read]
               (s\<lparr>phase := Phase_draining, abandoned := True, continuation_target := None,
                  registry := []\<rparr>);
             (dropped, s2) = take_cells_locked (\<lambda>c. \<not> op_staged c) s1
         in maybe_finish_close (drop_cells dropped s2)))"

section \<open>Every operation keeps the state consistent\<close>

lemma make_cell_Some:
  "make_cell a callback stop s = Some (c, tag, s1) \<Longrightarrow>
     s1 = s\<lparr>tag_counter := wrap64 (tag_counter s + 1), next_id := next_id s + 1\<rparr> \<and>
     tag = tag_text (tag_counter s) \<and> op_id c = next_id s \<and> op_tag c = tag \<and> \<not> op_finished c \<and>
     \<not> op_staged c \<and> \<not> op_has_written c \<and> \<not> op_detached c \<and> op_callback c = callback \<and>
     render tag (new_command a) = Some (op_command c)"
  by (auto simp: make_cell_def allocate_tag_def op_attach_def new_cell_def)

lemma make_cell_owing:
  "make_cell a callback stop s = Some (c, tag, s1) \<Longrightarrow> ledger s \<Longrightarrow> owing c s1"
  by (drule make_cell_Some) (simp add: owing_def ledger_def)

lemma routes_push:
  assumes "routes_ok s" "\<not> op_staged c" "\<not> op_detached c" "op_tag c = tag"
    and "s' = s\<lparr>write_queue := write_queue s @ [c], registry := reg_emplace tag (op_id c) (registry s)\<rparr>"
  shows "routes_ok s'"
  using assms by (auto simp: routes_defs reg_emplace_def)

lemma push_extract:
  "op_id c \<notin> op_id ` set (write_queue s) \<Longrightarrow>
     splice_cell (op_id c) (write_queue s @ [c]) = (Some c, write_queue s)"
proof -
  have "op_id c \<notin> op_id ` set q \<Longrightarrow> splice_cell (op_id c) (q @ [c]) = (Some c, q)" for q
    by (induction q) auto
  then show "op_id c \<notin> op_id ` set (write_queue s) \<Longrightarrow> ?thesis" .
qed

lemma owing_fresh: "owing c s \<Longrightarrow> op_id c \<notin> op_id ` set (write_queue s)"
proof -
  assume "owing c s"
  then have "mset (op_id c # map op_id (write_queue s) @ map op_id (posted_stops s) @ terminals (trace s))
      = mset [0 ..< next_id s]"
    by (simp add: owing_def account_def ac_simps)
  then have "distinct (op_id c # map op_id (write_queue s) @ map op_id (posted_stops s) @ terminals (trace s))"
    using mset_eq_imp_distinct_iff distinct_upt by blast
  then show ?thesis by auto
qed

lemma update_pushed:
  "op_id c \<notin> op_id ` set (write_queue s) \<Longrightarrow>
     update_cell (op_id c) (\<lambda>_. c') (s\<lparr>write_queue := write_queue s @ [c], registry := r\<rparr>) =
       s\<lparr>write_queue := write_queue s @ [c'], registry := r\<rparr>"
proof -
  assume "op_id c \<notin> op_id ` set (write_queue s)"
  then have "on_cell (op_id c) (\<lambda>_. c') (write_queue s) = write_queue s"
    by (auto simp: on_cell_def image_iff intro!: map_idI)
  then show ?thesis by (simp add: update_cell_def on_cell_def)
qed

lemma enqueue_eq:
  assumes "op_id c \<notin> op_id ` set (write_queue s)"
  shows "enqueue_operation f c tag kick s =
     (if phase s \<noteq> Phase_open then
        (False, fail_cells (if bye_received s then Errc Server_bye else Operation_canceled) [c] s)
      else if no_registry_slot f then (True, drop_cells [c] s)
      else
        (let reg = reg_emplace tag (op_id c) (registry s); c' = c\<lparr>op_stop_seen := False\<rparr>
         in (False,
             if op_stop_seen c
             then post_complete_stopped f c' (s\<lparr>registry := reg_erase tag reg\<rparr>)
             else (let s' = s\<lparr>write_queue := write_queue s @ [c'], registry := reg\<rparr>
                   in if kick then post_kick f s' else s'))))"
  using assms push_extract [of "c\<lparr>op_stop_seen := False\<rparr>" s]
  by (simp add: enqueue_operation_def op_take_stop_request_def update_pushed extract_from_queue_locked_def
      Let_def)

lemma enqueue_inv:
  assumes o: "owing c s" and p: "pumps_ok s" "settled s" "routes_ok s" "response_end (framer s) = 0"
    and c: "\<not> op_staged c" "\<not> op_detached c" "op_tag c = tag"
  shows "core_inv (snd (enqueue_operation f c tag kick s))"
proof -
  let ?c = "c\<lparr>op_stop_seen := False\<rparr>"
  let ?push = "s\<lparr>write_queue := write_queue s @ [?c], registry := reg_emplace tag (op_id c) (registry s)\<rparr>"
  have push: "core_inv ?push"
  proof (rule core_invI)
    show "ledger ?push" using owing_push [OF o, of ?c] o by (simp add: owing_def)
    show "routes_ok ?push" using routes_push [OF p(3), of ?c tag] c by simp
  qed (use p in simp_all)
  have stop: "core_inv (post_complete_stopped f ?c (s\<lparr>registry := reg_erase tag (reg_emplace tag (op_id c) (registry s))\<rparr>))"
  proof (rule core_invI)
    have "owing ?c (s\<lparr>registry := r\<rparr>)" for r using o by (simp add: owing_def)
    then show "ledger (post_complete_stopped f ?c (s\<lparr>registry := reg_erase tag (reg_emplace tag (op_id c) (registry s))\<rparr>))"
      by (rule owing_post)
    have "routes_ok (s\<lparr>registry := reg_erase tag (reg_emplace tag (op_id c) (registry s))\<rparr>)"
      using p(3) by (auto simp: routes_defs reg_emplace_def)
    then show "routes_ok (post_complete_stopped f ?c (s\<lparr>registry := reg_erase tag (reg_emplace tag (op_id c) (registry s))\<rparr>))"
      by simp
  qed (use p in simp_all)
  have "core_inv (fail_cells ec [c] s)" for ec
    using p by (intro core_invI owing_fail [OF o]) simp_all
  moreover have "core_inv (drop_cells [c] s)"
    using p by (intro core_invI owing_drop [OF o]) simp_all
  ultimately show ?thesis
    using push stop by (simp add: enqueue_eq [OF owing_fresh [OF o]] Let_def posting_ok.keeps)
qed

lemma made_cell_inv:
  assumes s: "core_inv s" and m: "make_cell a callback stop s = Some (c, tag, s1)"
  shows "core_inv (snd (enqueue_operation f c tag kick s1))"
  using s m make_cell_owing [OF m] make_cell_Some [OF m] by (intro enqueue_inv) (auto simp: core_inv_def)

lemma submit_inv: "core_inv s \<Longrightarrow> submit f a s = Some (t, s') \<Longrightarrow> core_inv s'"
proof -
  assume s: "core_inv s" and e: "submit f a s = Some (t, s')"
  obtain c tag s1 where m: "make_cell a True False s = Some (c, tag, s1)"
    and q: "enqueue_operation f c tag False s1 = (t, s')"
    using e by (auto simp: submit_def)
  show ?thesis using made_cell_inv [OF s m, of f False] q by simp
qed

lemma start_inv: "core_inv s \<Longrightarrow> start_operation f a stop s = Some (t, s') \<Longrightarrow> core_inv s'"
proof -
  assume s: "core_inv s" and e: "start_operation f a stop s = Some (t, s')"
  obtain c tag s1 where m: "make_cell a False stop s = Some (c, tag, s1)"
    and q: "enqueue_operation f c tag True s1 = (t, s')"
    using e by (auto simp: start_operation_def)
  show ?thesis using made_cell_inv [OF s m, of f True] q by simp
qed

lemma drop_batch_inv: "core_inv s \<Longrightarrow> core_inv (drop_batch as s)"
proof -
  assume s: "core_inv s"
  have "[0 ..< next_id s + length as] = [0 ..< next_id s] @ [next_id s ..< next_id s + length as]"
    by (rule upt_add_eq_append) simp
  then have "ledger (drop_batch as s)"
    using s by (simp add: core_inv_def ledger_def account_def live_cells_def drop_batch_def add.assoc del: mset_upt)
  then show ?thesis
    using s by (simp add: core_inv_def drop_batch_def pumps_emit image_iff)
qed

lemma submit_batch_inv: "core_inv s \<Longrightarrow> submit_batch as s = Some s' \<Longrightarrow> core_inv s'"
proof (induction as arbitrary: s)
  case (Cons p as)
  obtain f a where p: "p = (f, a)" by force
  from Cons.prems(2) obtain t s1 where sub: "submit f a s = Some (t, s1)"
    by (auto simp: p split: option.splits)
  have "core_inv s1" using submit_inv [OF Cons.prems(1) sub] .
  with Cons sub show ?case by (cases t) (auto simp: p intro: drop_batch_inv)
qed simp

subsection \<open>Cancellation\<close>

text \<open>
  What a detachment leaves: the routes are intact, and either the ledger is balanced or exactly the
  extracted cell is missing from it.
\<close>

definition detached_ok :: "cell option \<Rightarrow> 'b core \<Rightarrow> bool" where
  "detached_ok r s \<longleftrightarrow>
     pumps_ok s \<and> settled s \<and> routes_ok s \<and> response_end (framer s) = 0 \<and>
     (case r of None \<Rightarrow> ledger s | Some c \<Rightarrow> owing c s)"

lemma extract_detached:
  assumes s: "core_inv s" and f: "find_cell i s = Some c" and a: "\<not> op_awaits_continuation c"
    and t: "op_tag c = tag"
    and e: "extract_from_queue_locked i (s\<lparr>registry := reg_erase tag (registry s)\<rparr>) = (r, s')"
  shows "r = Some c \<and> detached_ok r s'"
proof -
  let ?e = "s\<lparr>registry := reg_erase tag (registry s)\<rparr>"
  have l: "ledger s" "ledger ?e" using s by (simp_all add: core_inv_def)
  have fe: "find_cell i ?e = Some c" using f by (simp add: find_cell_def)
  obtain d s'' where "extract_from_queue_locked i ?e = (Some d, s'')" using extract_found [OF fe] by blast
  with e have ex: "extract_from_queue_locked i ?e = (Some d, s')" and r: "r = Some d" by simp_all
  have d: "d = c" using extract_Some_find [OF l(2) ex fe] .
  obtain q where q: "s' = ?e\<lparr>write_queue := q\<rparr>" "mset (write_queue s) = add_mset c (mset q)"
    "set q \<subseteq> set (write_queue s)"
    using extract_Some [OF ex] d by auto
  have "links_ok s'"
  proof (rule links_remove [of s])
    show "links_ok s" using s by (simp add: core_inv_def routes_ok_def)
    show "mset (write_queue s) = add_mset c (mset (write_queue s'))" using q by simp
    show "set (registry s') \<subseteq> {(u, j) \<in> set (registry s). u \<noteq> op_tag c \<or> j \<noteq> op_id c}"
      using q t by auto
    show "continuation_target s = Some j \<and> j \<noteq> op_id c" if "continuation_target s' = Some j" for j
    proof -
      have g: "continuation_target s = Some j" using that q by simp
      then obtain b where b: "b \<in> set (write_queue s)" "op_id b = j" "op_awaits_continuation b"
        using s by (auto simp: core_inv_def routes_defs)
      with a f distinct_cells [OF distinct_queue [OF l(1)] b(1), of c] find_cell_Some [OF f] g
      show ?thesis by auto
    qed
  qed (use q in simp_all)
  moreover have "staged_ok s'"
    by (rule staged_remove [of s]) (use s q in \<open>auto simp: core_inv_def routes_ok_def\<close>)
  moreover have "pumps_ok s'" "settled s'" "framer s' = framer s"
    using s q by (simp_all add: core_inv_def)
  ultimately show ?thesis using r d s owing_extract [OF l(2) ex] by (simp add: detached_ok_def core_inv_def routes_ok_def)
qed

lemma mark_detached_links:
  assumes s: "core_inv s" and f: "find_cell i s = Some c"
  shows "links_ok (update_cell i op_mark_detached (s\<lparr>registry := reg_erase (op_tag c) (registry s)\<rparr>))"
    and "staged_ok (update_cell i op_mark_detached (s\<lparr>registry := reg_erase (op_tag c) (registry s)\<rparr>))"
proof -
  let ?q = "write_queue s"
  let ?g = "\<lambda>c. if op_id c = i then op_mark_detached c else c"
  have l: "links_ok s" "staged_ok s" and d: "distinct (map op_id ?q)"
    using s distinct_queue by (auto simp: core_inv_def routes_ok_def)
  have reg: "\<exists>b \<in> ?g ` set ?q. op_id b = j \<and> op_tag b = t \<and> \<not> op_detached b"
    if o: "phase s = Phase_open" and m: "(t, j) \<in> set (registry s)" "t \<noteq> op_tag c" for t j
  proof -
    obtain b where b: "b \<in> set ?q" "op_id b = j" "op_tag b = t" "\<not> op_detached b"
      using l(1) o m by (auto simp: links_ok_def)
    with m(2) distinct_cells [OF d b(1), of c] find_cell_Some [OF f] have "op_id b \<noteq> i" by auto
    with b show ?thesis by (intro bexI [of _ "?g b"]) auto
  qed
  have tgt: "phase s = Phase_open \<and> (\<exists>b \<in> ?g ` set ?q. op_id b = j \<and> op_awaits_continuation b)"
    if "continuation_target s = Some j" for j
  proof -
    obtain b where "phase s = Phase_open" "b \<in> set ?q" "op_id b = j" "op_awaits_continuation b"
      using l(1) \<open>continuation_target s = Some j\<close> by (auto simp: links_ok_def)
    then show ?thesis by (intro conjI bexI [of _ "?g b"]) (auto simp: cell_frame)
  qed
  show "links_ok (update_cell i op_mark_detached (s\<lparr>registry := reg_erase (op_tag c) (registry s)\<rparr>))"
    using reg tgt by (auto simp: links_ok_def on_cell_def)
  show "staged_ok (update_cell i op_mark_detached (s\<lparr>registry := reg_erase (op_tag c) (registry s)\<rparr>))"
    using l(2) by (auto simp: staged_ok_def on_cell_def cell_frame)
qed

lemma detach_inv:
  assumes s: "core_inv s" and o: "phase s = Phase_open" and m: "map_of (registry s) tag = Some i"
    and d: "detach_locked tag i s = Some (r, k, s')"
  shows "detached_ok r s' \<and> (k \<longrightarrow> r = None)"
proof -
  obtain c where f: "find_cell i s = Some c" using d by (auto simp: detach_locked_def split: option.splits)
  have l: "ledger s" "routes_ok s" using s by (simp_all add: core_inv_def)
  have t: "op_tag c = tag"
  proof -
    have "(tag, i) \<in> set (registry s)" using m by (rule map_of_SomeD)
    with l(2) o obtain b where b: "b \<in> set (write_queue s)" "op_id b = i" "op_tag b = tag"
      by (auto simp: routes_defs)
    with distinct_cells [OF distinct_queue [OF l(1)] b(1), of c] find_cell_Some [OF f] show ?thesis by simp
  qed
  let ?e = "s\<lparr>registry := reg_erase tag (registry s)\<rparr>"
  have e: "core_inv ?e" using s by (auto simp: core_inv_def routes_defs)
  have upd: "detached_ok None (update_cell i g u)"
    if "core_inv u" "\<And>c. op_id (g c) = op_id c \<and> op_tag (g c) = op_tag c \<and> op_staged (g c) = op_staged c \<and>
        op_finished (g c) = op_finished c \<and> op_detached (g c) = op_detached c \<and>
        op_awaits_continuation (g c) = op_awaits_continuation c" for g u
    using that by (auto simp: detached_ok_def core_inv_def intro!: ledger_update routes_update)
  have mark: "detached_ok None (update_cell i op_mark_detached ?e)"
    using s f t mark_detached_links [OF s f] by (simp add: detached_ok_def core_inv_def routes_ok_def
        ledger_update staged_update cell_frame)
  have idle: "detached_ok None (update_cell i (\<lambda>c. snd (op_cancel_written c)) s)"
    by (rule upd [OF s]) (simp add: cell_frame)
  have ext: "detached_ok r' u" if "extract_from_queue_locked i ?e = (r', u)" "\<not> op_awaits_continuation c" for r' u
    using extract_detached [OF s f that(2) t that(1)] by blast
  have noawait: "\<not> op_awaits_continuation c"
    if "op_is_written c" using that by (simp add: op.written_iff)
  show ?thesis
    using d f mark idle ext noawait
    by (auto simp: detach_locked_def Let_def split: if_splits prod.splits)
qed

lemma finish_cancellation_inv:
  "detached_ok r s \<and> (k \<longrightarrow> r = None) \<Longrightarrow> core_inv (finish_cancellation f r k s)"
proof (cases r)
  case None
  assume "detached_ok r s \<and> (k \<longrightarrow> r = None)"
  with None have "core_inv s" by (simp add: detached_ok_def core_inv_def)
  then show ?thesis using None by (simp add: finish_cancellation_def posting_ok.keeps)
next
  case (Some c)
  assume "detached_ok r s \<and> (k \<longrightarrow> r = None)"
  with Some show ?thesis
    by (auto simp: finish_cancellation_def detached_ok_def core_inv_def intro!: owing_post)
qed

lemma cancel_entry_inv: "core_inv s \<Longrightarrow> cancel_entry f tag expected s = Some s' \<Longrightarrow> core_inv s'"
proof -
  assume s: "core_inv s" and e: "cancel_entry f tag expected s = Some s'"
  have keep: "detached_ok None s" using s by (simp add: core_inv_def detached_ok_def)
  show ?thesis
  proof (cases "phase s = Phase_open")
    case True
    then obtain r k s1 where d: "find_and_detach_locked tag expected s = Some (r, k, s1)"
      and s': "s' = finish_cancellation f r k s1"
      using e by (auto simp: cancel_entry_def)
    have "detached_ok r s1 \<and> (k \<longrightarrow> r = None)"
      using d keep detach_inv [OF s True]
      by (auto simp: find_and_detach_locked_def split: option.splits if_splits)
    then show ?thesis using s' finish_cancellation_inv by blast
  qed (use e s in \<open>simp add: cancel_entry_def\<close>)
qed

lemma cancel_inv: "core_inv s \<Longrightarrow> cancel f tag s = Some s' \<Longrightarrow> core_inv s'"
  unfolding cancel_def by (rule cancel_entry_inv)

lemma ledger_posted:
  "ledger s \<Longrightarrow> map op_id p = map op_id (posted_stops s) \<Longrightarrow> \<forall>c \<in> set p. \<not> op_finished c \<Longrightarrow>
     ledger (s\<lparr>posted_stops := p\<rparr>)"
  by (auto simp: ledger_def account_def live_cells_def simp del: mset_map)

lemma note_stop_inv:
  "core_inv s \<Longrightarrow>
     core_inv (s\<lparr>write_queue := on_cell i (\<lambda>c. c\<lparr>op_stop_seen := True\<rparr>) (write_queue s),
                posted_stops := on_cell i (\<lambda>c. c\<lparr>op_stop_seen := True\<rparr>) (posted_stops s)\<rparr>)"
proof -
  assume s: "core_inv s"
  let ?g = "\<lambda>c. c\<lparr>op_stop_seen := True\<rparr>"
  let ?u = "update_cell i ?g s"
  let ?p = "on_cell i ?g (posted_stops s)"
  have a: "op_awaits_continuation (?g c) = op_awaits_continuation c" for c
    by (simp add: op_awaits_continuation_def)
  have "ledger ?u" by (rule ledger_update) (use s in \<open>simp_all add: core_inv_def\<close>)
  then have "ledger (?u\<lparr>posted_stops := ?p\<rparr>)"
    by (rule ledger_posted)
      (use s in \<open>auto simp: core_inv_def ledger_def live_cells_def on_cell_def\<close>)
  moreover have "routes_ok (?u\<lparr>posted_stops := ?p\<rparr>)"
    using s a by (auto simp: core_inv_def intro!: routes_update)
  ultimately have "core_inv (?u\<lparr>posted_stops := ?p\<rparr>)" using s by (simp add: core_inv_def)
  then show ?thesis by (simp add: update_cell_def)
qed

lemma request_stop_inv: "core_inv s \<Longrightarrow> request_stop f i s = Some s' \<Longrightarrow> core_inv s'"
  using note_stop_inv [of s i] cancel_entry_inv
  by (fastforce simp: request_stop_def on_stop_requested_def Let_def split: option.splits if_splits)

subsection \<open>Closing\<close>

lemma take_cells_ledger:
  assumes "ledger s" "take_cells_locked P s = (taken, s')"
  shows "live_cells s' \<and> (\<forall>c \<in> set taken. \<not> op_finished c) \<and>
     account s' + mset (map op_id taken) = mset [0 ..< next_id s']"
proof -
  have m: "mset (map op_id (filter P (write_queue s))) +
      mset (map op_id (filter (\<lambda>c. \<not> P c) (write_queue s))) = mset (map op_id (write_queue s))"
    unfolding mset_map image_mset_union [symmetric] mset_filter_split ..
  have t: "taken = filter P (write_queue s)"
    "s' = s\<lparr>write_queue := filter (\<lambda>c. \<not> P c) (write_queue s)\<rparr>"
    using assms(2) by (simp_all add: take_cells_locked_def)
  show ?thesis
    using assms(1) m unfolding t
    by (auto simp: ledger_def account_def live_cells_def ac_simps simp del: mset_map mset_filter)
qed

lemma taken_fail:
  "ledger s \<Longrightarrow> take_cells_locked P s = (taken, s') \<Longrightarrow> ledger (fail_cells ec taken (s'\<lparr>registry := r\<rparr>))"
  by (drule take_cells_ledger, assumption) (simp add: ledger_def account_fail)

lemma taken_drop:
  "ledger s \<Longrightarrow> take_cells_locked P s = (taken, s') \<Longrightarrow> ledger (drop_cells taken s')"
  by (drule take_cells_ledger, assumption) (simp add: ledger_def account_drop)

lemma draining_routes: "phase s \<noteq> Phase_open \<Longrightarrow> continuation_target s = None \<Longrightarrow> routes_ok s"
  by (simp add: routes_defs)

interpretation closing_ok: consistent close
proof
  fix s :: "'b core"
  assume s: "core_inv s"
  show "core_inv (close s)"
  proof (cases "phase s = Phase_open")
    case True
    let ?s1 = "emit [Shutdown_read] (s\<lparr>phase := Phase_draining, continuation_target := None\<rparr>)"
    obtain pending s2 where t: "take_cells_locked (\<lambda>c. \<not> op_is_written c \<and> \<not> op_staged c) ?s1 = (pending, s2)"
      by fastforce
    let ?s3 = "s2\<lparr>registry := foldl (\<lambda>reg c. reg_erase (op_tag c) reg) (registry s2) pending\<rparr>"
    have s2: "s2 = ?s1\<lparr>write_queue := write_queue s2\<rparr>" using t by (auto simp: take_cells_locked_def)
    have "ledger ?s1" using s by (simp add: core_inv_def ledger_emit)
    then have l: "ledger (fail_cells Operation_canceled pending ?s3)" using t by (rule taken_fail)
    have p: "pumps_ok s2" using s True by (subst s2) (auto simp: core_inv_def pumps_ok_def)
    have "phase s2 = Phase_draining" "continuation_target s2 = None" by (subst s2, simp)+
    then have "routes_ok ?s3" by (simp add: draining_routes)
    moreover have "response_end (framer s2) = 0" using s by (subst s2) (simp add: core_inv_def)
    ultimately show ?thesis
      using True l p t by (simp add: close_def core_inv_def finish.keeps_ledger)
  qed (use s in \<open>simp add: close_def\<close>)
qed

interpretation abandoning_ok: consistent abandon
proof
  fix s :: "'b core"
  assume s: "core_inv s"
  show "core_inv (abandon s)"
  proof (cases "phase s = Phase_closed")
    case False
    let ?s1 = "emit [Shutdown_read] (s\<lparr>phase := Phase_draining, abandoned := True,
      continuation_target := None, registry := []\<rparr>)"
    obtain dropped s2 where t: "take_cells_locked (\<lambda>c. \<not> op_staged c) ?s1 = (dropped, s2)"
      by fastforce
    have s2: "s2 = ?s1\<lparr>write_queue := write_queue s2\<rparr>" using t by (auto simp: take_cells_locked_def)
    have "ledger ?s1" using s by (simp add: core_inv_def ledger_emit)
    then have l: "ledger (drop_cells dropped s2)" using t by (rule taken_drop)
    have p: "pumps_ok s2" using s False by (subst s2) (auto simp: core_inv_def pumps_ok_def)
    have "routes_ok s2" by (subst s2, rule draining_routes) simp_all
    moreover have "response_end (framer s2) = 0" using s by (subst s2) (simp add: core_inv_def)
    ultimately show ?thesis
      using False l p t by (simp add: abandon_def core_inv_def finish.keeps_ledger)
  qed (use s in \<open>simp add: abandon_def\<close>)
qed

subsection \<open>Handlers and relocation\<close>

lemma on_unsolicited_inv: "core_inv s \<Longrightarrow> core_inv (snd (on_unsolicited s))"
  by (simp add: core_inv_def on_unsolicited_def split: prod.split)

interpretation token_ok: consistent "reset_registration i"
  by unfold_locales (simp add: core_inv_def reset_registration_def)

interpretation suspending_ok: consistent suspend_read_for_relocation
  by unfold_locales (simp add: core_inv_def suspend_read_for_relocation_def)

end
