(* ===== verification/Write_Pump.thy ===== *)
theory Write_Pump
  imports Core
begin

text \<open>
  The write pump of \<open>imap/detail/write_pump.h\<close>. A drain has two critical sections: \<open>kick\<close> stages
  the segments and latches \<open>write_in_flight\<close>, \<open>arm_write\<close> starts the write or, when a teardown
  came in between, retires the staged cells; the drain between them is the field \<open>arming\<close>.
  \<open>on_write_done\<close> is the completion.
\<close>

section \<open>Staging\<close>

text \<open>
  The loop of \<open>kick\<close> over the queue: the staged octets, the staged cells in order, the new
  continuation target and the queue with the staged cells marked. It stops behind a wall.
\<close>

fun stage_cells :: "cell list \<Rightarrow> octets \<times> nat list \<times> nat option \<times> cell list" where
  "stage_cells [] = ([], [], None, [])"
| "stage_cells (c # cs) =
     (let continue = (let (b, ids, t, cs') = stage_cells cs in (b, ids, t, c # cs'))
      in if op_is_written c then continue
         else
           (let segment = op_next_segment c
            in if segment = [] then
                 (if op_awaits_continuation c then ([], [], None, c # cs) else continue)
               else
                 (let c1 = op_on_segment_staged c
                  in if op_awaits_continuation c1 then (segment, [op_id c], Some (op_id c), c1 # cs)
                     else if op_blocks_pipeline c1 then (segment, [op_id c], None, c1 # cs)
                     else (let (b, ids, t, cs') = stage_cells cs
                           in (segment @ b, op_id c # ids, t, c1 # cs')))))"

definition kick :: "'b core \<Rightarrow> 'b core" where
  "kick s =
     (if phase s \<noteq> Phase_open \<or> write_in_flight s then s
      else
        (let (bytes, staged, target, q) = stage_cells (write_queue s);
             s1 = s\<lparr>write_staging := bytes, write_queue := q,
                    continuation_target := (if target = None then continuation_target s else target)\<rparr>
         in if bytes = [] then s1 else s1\<lparr>write_in_flight := True, arming := Some staged\<rparr>))"

definition kick_receiver :: "error_code \<Rightarrow> 'b core \<Rightarrow> 'b core" where
  "kick_receiver ec s =
     (let s1 = s\<lparr>kick_posted := False\<rparr>
      in if ec = No_error \<and> \<not> abandoned s1 then kick s1 else s1)"

section \<open>Arming\<close>

text \<open>\<open>arm\<close> with the \<open>catch\<close> block of \<open>kick\<close> around it.\<close>

definition arm_write :: "fates \<Rightarrow> nat list \<Rightarrow> 'b core \<Rightarrow> 'b core" where
  "arm_write f staged s =
     (let s0 = s\<lparr>arming := None\<rparr>
      in if phase s0 \<noteq> Phase_open \<or> abandoned s0 then
           (let (retired, s1) = extract_staged staged s0;
                s2 = s1\<lparr>write_in_flight := False\<rparr>
            in maybe_finish_close
                 (if abandoned s0 then drop_cells retired s2
                  else fail_cells Operation_canceled retired s2))
         else if no_write_slot f then
           connection_lost Not_enough_memory (s0\<lparr>write_in_flight := False\<rparr>)
         else s0\<lparr>armed_write := Some (write_staging s0, staged)\<rparr>)"

section \<open>Completion\<close>

text \<open>The loop over the staged cells of a successful write on an open connection.\<close>

fun flush_staged :: "nat list \<Rightarrow> 'b core \<Rightarrow> cell list \<times> 'b core" where
  "flush_staged [] s = ([], s)"
| "flush_staged (i # ids) s =
     (case find_cell i s of
        None \<Rightarrow> flush_staged ids s
      | Some c0 \<Rightarrow>
          (let c = op_on_segment_flushed c0;
               s1 = update_cell i op_on_segment_flushed s;
               s2 = (if op_awaits_continuation c then s1\<lparr>continuation_target := Some i\<rparr> else s1)
           in if op_detached c \<and> op_is_written c then
                (case extract_from_queue_locked i s2 of
                   (None, s3) \<Rightarrow> flush_staged ids s3
                 | (Some c', s3) \<Rightarrow> (let (cs, s4) = flush_staged ids s3 in (c' # cs, s4)))
              else flush_staged ids s2))"

definition on_write_done :: "fates \<Rightarrow> error_code \<Rightarrow> nat list \<Rightarrow> 'b core \<Rightarrow> 'b core" where
  "on_write_done f ec staged s =
     (let s0 = s\<lparr>write_in_flight := False\<rparr>
      in if ec \<noteq> No_error then
           (let (retired, s1) = extract_staged staged s0
            in if abandoned s1 then maybe_finish_close (drop_cells retired s1)
               else maybe_finish_close (fail_cells ec retired (connection_lost ec s1)))
         else if abandoned s0 then
           (let (retired, s1) = extract_staged staged s0 in maybe_finish_close (drop_cells retired s1))
         else if phase s0 = Phase_open then
           (let (retired, s1) = flush_staged staged s0
            in kick (fold (post_complete_stopped f) retired s1))
         else
           (let (retired, s1) = extract_staged staged s0
            in maybe_finish_close (fail_cells Operation_canceled retired s1)))"

definition write_receiver :: "fates \<Rightarrow> error_code \<Rightarrow> 'b core \<Rightarrow> 'b core" where
  "write_receiver f ec s =
     (case armed_write s of
        None \<Rightarrow> s
      | Some (_, staged) \<Rightarrow> on_write_done f ec staged (s\<lparr>armed_write := None\<rparr>))"

section \<open>Staging\<close>

text \<open>How the staging loop changes the queue: cell by cell, marking the staged ones.\<close>

definition staged_into :: "nat list \<Rightarrow> cell \<Rightarrow> cell \<Rightarrow> bool" where
  "staged_into ids c c' \<longleftrightarrow>
     c' = c \<or> c' = op_on_segment_staged c \<and> op_id c \<in> set ids \<and> \<not> op_staged c"

lemma staged_into_refl [simp]: "staged_into ids c c"
  by (simp add: staged_into_def)

lemma staged_into_all_refl [simp]: "list_all2 (staged_into ids) cs cs"
  by (simp add: list.rel_refl)

lemma staged_into_more: "list_all2 (staged_into ids) cs cs' \<Longrightarrow> set ids \<subseteq> set ids' \<Longrightarrow> list_all2 (staged_into ids') cs cs'"
  by (erule list_all2_mono) (auto simp: staged_into_def)

lemma offering_unstaged: "op_next_segment c \<noteq> [] \<Longrightarrow> \<not> op_staged c"
  using op.offering_not_written by blast

lemma stage_cells_spec:
  "stage_cells q = (b, ids, t, q') \<Longrightarrow>
     list_all2 (staged_into ids) q q' \<and> (b = [] \<longleftrightarrow> ids = []) \<and> (ids = [] \<longrightarrow> q' = q \<and> t = None) \<and>
     (\<forall>i. t = Some i \<longrightarrow> i \<in> set ids \<and> (\<exists>c \<in> set q'. op_id c = i \<and> op_awaits_continuation c)) \<and>
     set ids \<subseteq> op_id ` set q"
proof (induction q arbitrary: b ids t q')
  case (Cons c cs)
  obtain b1 ids1 t1 cs1 where r: "stage_cells cs = (b1, ids1, t1, cs1)" by (metis prod_cases4)
  note ih = Cons.IH [OF r]
  have new: "staged_into is c (op_on_segment_staged c)" if "op_id c \<in> set is" "op_next_segment c \<noteq> []" for "is"
    using that offering_unstaged by (simp add: staged_into_def)
  show ?case
  proof (cases "op_is_written c \<or> op_next_segment c = []")
    case True
    with Cons.prems r ih show ?thesis
      by (auto simp: Let_def split: if_splits)
  next
    case False
    with Cons.prems r ih new show ?thesis
      by (auto simp: Let_def cell_frame split: if_splits intro: staged_into_more)
  qed
qed simp

lemma staged_into_frame:
  assumes "staged_into ids c c'"
  shows "op_id c' = op_id c" "op_tag c' = op_tag c" "op_finished c' = op_finished c"
    "op_detached c' = op_detached c" "op_awaits_continuation c' = op_awaits_continuation c"
    "op_staged c' \<Longrightarrow> op_staged c \<or> op_id c \<in> set ids"
  using assms by (auto simp: staged_into_def cell_frame)

lemma staged_into_ids: "list_all2 (staged_into ids) q q' \<Longrightarrow> map op_id q' = map op_id q"
  by (induction rule: list_all2_induct) (simp_all add: staged_into_frame(1))

lemma staged_into_ex:
  assumes "list_all2 (staged_into ids) q q'"
  shows "c \<in> set q \<Longrightarrow> \<exists>c' \<in> set q'. staged_into ids c c'" "c' \<in> set q' \<Longrightarrow> \<exists>c \<in> set q. staged_into ids c c'"
  using assms by (induction rule: list_all2_induct) auto

text \<open>The state behind the loop, for a kick that stages something and one that does not.\<close>

lemma kick_closed: "phase s \<noteq> Phase_open \<or> write_in_flight s \<Longrightarrow> kick s = s"
  by (simp add: kick_def)

lemma idle_no_flight: "pumps_ok s \<Longrightarrow> \<not> write_in_flight s \<Longrightarrow> armed_write s = None \<and> arming s = None"
  unfolding pumps_ok_def by blast

lemma kicked_ledger:
  "ledger s \<Longrightarrow> list_all2 (staged_into ids) (write_queue s) q \<Longrightarrow>
     ledger (s\<lparr>write_staging := b, write_queue := q, continuation_target := t\<rparr>)"
proof -
  assume l: "ledger s" and q: "list_all2 (staged_into ids) (write_queue s) q"
  have live: "\<not> op_finished c'" if m: "c' \<in> set q" for c'
  proof -
    obtain c where c: "c \<in> set (write_queue s)" "staged_into ids c c'"
      using staged_into_ex(2) [OF q m] by blast
    with l show ?thesis using staged_into_frame(3) [OF c(2)] by (simp add: ledger_def live_cells_def)
  qed
  show ?thesis
    using l live staged_into_ids [OF q] unfolding ledger_def account_def live_cells_def
    by (auto simp del: mset_map)
qed

lemma kicked_links:
  assumes l: "links_ok s" and o: "phase s = Phase_open"
    and q: "list_all2 (staged_into ids) (write_queue s) q"
    and t: "\<And>i. t = Some i \<Longrightarrow> continuation_target s = Some i \<or>
      (\<exists>c \<in> set q. op_id c = i \<and> op_awaits_continuation c)"
  shows "links_ok (s\<lparr>write_staging := b, write_queue := q, continuation_target := t\<rparr>)"
proof -
  have reg: "\<exists>c \<in> set q. op_id c = i \<and> op_tag c = tag \<and> \<not> op_detached c" if m: "(tag, i) \<in> set (registry s)" for tag i
  proof -
    obtain c where c: "c \<in> set (write_queue s)" "op_id c = i" "op_tag c = tag" "\<not> op_detached c"
      using l o m by (auto simp: links_ok_def)
    then obtain c' where "c' \<in> set q" "staged_into ids c c'" using staged_into_ex(1) [OF q] by blast
    then show ?thesis using c staged_into_frame by metis
  qed
  have tgt: "\<exists>c \<in> set q. op_id c = i \<and> op_awaits_continuation c" if i: "t = Some i" for i
    using t [OF i]
  proof
    assume "continuation_target s = Some i"
    then obtain c where c: "c \<in> set (write_queue s)" "op_id c = i" "op_awaits_continuation c"
      using l by (auto simp: links_ok_def)
    then obtain c' where "c' \<in> set q" "staged_into ids c c'" using staged_into_ex(1) [OF q] by blast
    then show ?thesis using c staged_into_frame by metis
  qed
  show ?thesis using o reg tgt by (auto simp: links_ok_def)
qed

interpretation kick_ok: consistent kick
proof
  fix s :: "'b core"
  assume s: "core_inv s"
  show "core_inv (kick s)"
  proof (cases "phase s \<noteq> Phase_open \<or> write_in_flight s")
    case True
    then show ?thesis using s by (simp add: kick_closed)
  next
    case False
    then have o: "phase s = Phase_open" and w: "\<not> write_in_flight s" by simp_all
    obtain b ids t q where st: "stage_cells (write_queue s) = (b, ids, t, q)" by (metis prod_cases4)
    note spec = stage_cells_spec [OF st]
    define t' where "t' = (if t = None then continuation_target s else t)"
    define s1 where "s1 = s\<lparr>write_staging := b, write_queue := q, continuation_target := t'\<rparr>"
    have k: "kick s = (if b = [] then s1 else s1\<lparr>write_in_flight := True, arming := Some ids\<rparr>)"
      using o w st by (simp add: kick_def s1_def t'_def)
    have idle: "armed_write s = None" "arming s = None"
      using idle_no_flight [OF _ w] s by (auto simp: core_inv_def)
    have l: "ledger s1" unfolding s1_def
      by (rule kicked_ledger) (use s spec in \<open>auto simp: core_inv_def\<close>)
    have n: "links_ok s1" unfolding s1_def
      by (rule kicked_links [OF _ o]) (use s spec in \<open>auto simp: core_inv_def routes_ok_def t'_def split: if_splits\<close>)
    have none: "\<not> op_staged c" if "c \<in> set (write_queue s)" for c
      using s o that idle by (auto simp: core_inv_def routes_defs inflight_def)
    have staged: "op_id c \<in> set ids" if "c \<in> set q" "op_staged c" for c
      using that spec none staged_into_ex(2) staged_into_frame(1,6) by metis
    have p: "pumps_ok s1" "settled s1" using s by (simp_all add: core_inv_def s1_def)
    have "core_inv s1" if "b = []"
      using l n p s spec that by (auto simp: core_inv_def routes_defs s1_def)
    moreover have "core_inv (s1\<lparr>write_in_flight := True, arming := Some ids\<rparr>)"
      using l n p s o staged idle
      by (auto simp: core_inv_def routes_defs pumps_ok_def settled_def s1_def inflight_def)
    ultimately show ?thesis using k by simp
  qed
qed

interpretation kick_receiver_ok: consistent "kick_receiver ec"
proof
  fix s :: "'b core"
  assume "core_inv s"
  then have "core_inv (s\<lparr>kick_posted := False\<rparr>)" by (simp add: core_inv_def)
  then show "core_inv (kick_receiver ec s)" by (simp add: kick_receiver_def kick_ok.keeps Let_def)
qed

section \<open>Arming and completion keep the state consistent\<close>

text \<open>The ledger while a handler holds several cells.\<close>

definition holding :: "cell list \<Rightarrow> 'b core \<Rightarrow> bool" where
  "holding cs s \<longleftrightarrow> live_cells s \<and> (\<forall>c \<in> set cs. \<not> op_finished c) \<and>
     account s + mset (map op_id cs) = mset [0 ..< next_id s]"

lemma holding_fail: "holding cs s \<Longrightarrow> ledger (fail_cells ec cs s)"
  by (simp add: holding_def ledger_def account_fail)

lemma holding_drop: "holding cs s \<Longrightarrow> ledger (drop_cells cs s)"
  by (simp add: holding_def ledger_def account_drop)

lemma holding_lost: "holding cs s \<Longrightarrow> holding cs (connection_lost ec s)"
  by (simp add: holding_def lost.account_eq lost.live)

lemma holding_frame [simp]:
  "holding cs (s\<lparr>write_in_flight := w\<rparr>) = holding cs s" "holding cs (s\<lparr>arming := g\<rparr>) = holding cs s"
  "holding cs (s\<lparr>armed_write := a\<rparr>) = holding cs s" "holding cs (s\<lparr>continuation_target := t\<rparr>) = holding cs s"
  by (simp_all add: holding_def)

lemma holding_nil: "holding [] s = ledger s"
  by (simp add: holding_def ledger_def)

lemma extract_staged_holding:
  "ledger s \<Longrightarrow> extract_staged ids s = (cs, s') \<Longrightarrow> holding cs s' \<and> (\<exists>q. s' = s\<lparr>write_queue := q\<rparr>)"
proof -
  assume l: "ledger s" and e: "extract_staged ids s = (cs, s')"
  obtain q where q: "s' = s\<lparr>write_queue := q\<rparr>" "mset (write_queue s) = mset cs + mset q"
    "set cs \<subseteq> set (write_queue s)" "set q \<subseteq> set (write_queue s)"
    using extract_staged_mset [OF e] by blast
  then show ?thesis using l
    by (auto simp: holding_def ledger_def account_def live_cells_def ac_simps)
qed

lemma holding_post:
  "holding cs s \<Longrightarrow> ledger (fold (post_complete_stopped f) cs s)"
proof (induction cs arbitrary: s)
  case Nil
  then show ?case by (simp add: holding_nil)
next
  case (Cons c cs)
  then have "holding cs (post_complete_stopped f c s)"
    by (simp add: holding_def account_post_stopped live_post_stopped)
  with Cons.IH show ?case by simp
qed

lemma fold_post_frame [simp]:
  "phase (fold (post_complete_stopped f) cs s) = phase s"
  "framer (fold (post_complete_stopped f) cs s) = framer s"
  "write_queue (fold (post_complete_stopped f) cs s) = write_queue s"
  "pumps_ok (fold (post_complete_stopped f) cs s) = pumps_ok s"
  "settled (fold (post_complete_stopped f) cs s) = settled s"
  "routes_ok (fold (post_complete_stopped f) cs s) = routes_ok s"
  by (induction cs arbitrary: s) simp_all

lemma not_open_routes: "routes_ok s \<Longrightarrow> phase s \<noteq> Phase_open \<Longrightarrow> routes_ok (s\<lparr>write_queue := q, arming := g, armed_write := a\<rparr>)"
  by (auto simp: routes_defs)

text \<open>Retiring the staged cells on a connection that is not open any more.\<close>

lemma retire_inv:
  assumes l: "ledger s0" and r: "continuation_target s0 = None" "phase s0 \<noteq> Phase_open" "response_end (framer s0) = 0"
    and e: "extract_staged staged s0 = (retired, s1)"
    and p: "pumps_ok (s0\<lparr>write_in_flight := False\<rparr>)"
  shows "core_inv (maybe_finish_close (drop_cells retired (s1\<lparr>write_in_flight := False\<rparr>)))"
    and "core_inv (maybe_finish_close (fail_cells ec retired (s1\<lparr>write_in_flight := False\<rparr>)))"
proof -
  obtain q where h: "holding retired s1" and q: "s1 = s0\<lparr>write_queue := q\<rparr>"
    using extract_staged_holding [OF l e] by blast
  let ?s = "s1\<lparr>write_in_flight := False\<rparr>"
  have p': "pumps_ok ?s" using p by (auto simp: q pumps_ok_def)
  have t: "routes_ok ?s" "response_end (framer ?s) = 0" using r by (simp_all add: q routes_defs)
  show "core_inv (maybe_finish_close (drop_cells retired ?s))"
    using h p' t by (intro core_invI finish.keeps_ledger holding_drop) simp_all
  show "core_inv (maybe_finish_close (fail_cells ec retired ?s))"
    using h p' t by (intro core_invI finish.keeps_ledger holding_fail) simp_all
qed

lemma arm_write_inv:
  assumes s: "core_inv s" and a: "arming s = Some staged"
  shows "core_inv (arm_write f staged s)"
proof -
  let ?s0 = "s\<lparr>arming := None\<rparr>"
  have w: "armed_write s = None" "write_in_flight s" using s a unfolding core_inv_def pumps_ok_def by auto
  have p: "pumps_ok (?s0\<lparr>write_in_flight := False\<rparr>)" using s w by (auto simp: core_inv_def pumps_ok_def)
  have l: "ledger ?s0" using s by (simp add: core_inv_def)
  show ?thesis
  proof (cases "phase s \<noteq> Phase_open \<or> abandoned s")
    case True
    then have ph: "phase s \<noteq> Phase_open" using s by (auto simp: core_inv_def pumps_ok_def)
    then have t: "continuation_target ?s0 = None" using s by (auto simp: core_inv_def routes_defs)
    obtain retired s1 where e: "extract_staged staged ?s0 = (retired, s1)" by fastforce
    show ?thesis
      using retire_inv [OF l t _ _ e p] ph s True e by (simp add: arm_write_def core_inv_def Let_def)
  next
    case False
    have oom: "core_inv (connection_lost Not_enough_memory (?s0\<lparr>write_in_flight := False\<rparr>))"
      using p l s False by (intro core_invI lost.keeps_ledger lost_pumps lost_routes) (simp_all add: core_inv_def)
    have arm: "core_inv (?s0\<lparr>armed_write := Some (b, staged)\<rparr>)" for b
      using s a w by (auto simp: core_inv_def pumps_ok_def routes_defs inflight_def)
    show ?thesis using False oom arm by (simp add: arm_write_def Let_def)
  qed
qed

text \<open>The flush loop.\<close>

lemma holding_distinct: "holding cs s \<Longrightarrow> distinct (map op_id (write_queue s))"
proof -
  assume "holding cs s"
  then have "mset (map op_id (write_queue s) @ map op_id (posted_stops s) @ terminals (trace s) @ map op_id cs)
      = mset [0 ..< next_id s]"
    by (simp add: holding_def account_def ac_simps)
  then have "distinct (map op_id (write_queue s) @ map op_id (posted_stops s) @ terminals (trace s) @ map op_id cs)"
    using mset_eq_imp_distinct_iff distinct_upt by blast
  then show ?thesis by simp
qed

lemma holding_update:
  "holding cs s \<Longrightarrow> (\<And>c. op_id (f c) = op_id c) \<Longrightarrow> (\<And>c. op_finished (f c) = op_finished c) \<Longrightarrow>
     holding cs (update_cell i f s)"
  using on_cell_ids [of f i "write_queue s"] live_on_cell [of f "write_queue s" i]
  unfolding holding_def account_def live_cells_def by (auto simp del: mset_map)

lemma holding_extract:
  "holding cs s \<Longrightarrow> extract_from_queue_locked i s = (Some c, s') \<Longrightarrow> holding (c # cs) s'"
  by (drule extract_Some) (auto simp: holding_def account_def live_cells_def)

lemma flush_retire_links:
  assumes l: "links_ok s" and d: "distinct (map op_id (write_queue s))"
    and e: "extract_from_queue_locked i s = (Some c, s')"
    and c: "op_detached c" "op_is_written c"
  shows "links_ok s'"
proof -
  obtain q where q: "s' = s\<lparr>write_queue := q\<rparr>" "c \<in> set (write_queue s)"
    "mset (write_queue s) = add_mset c (mset q)"
    using extract_Some [OF e] by blast
  have same: "b = c" if "b \<in> set (write_queue s)" "op_id b = op_id c" for b
    using distinct_cells [OF d that(1) q(2) that(2)] .
  have none: "j \<noteq> op_id c" if "phase s = Phase_open" "(t, j) \<in> set (registry s)" for t j
    using l that same c by (fastforce simp: links_ok_def)
  have target: "j \<noteq> op_id c" if "continuation_target s = Some j" for j
    using l that same c op.written_iff by (fastforce simp: links_ok_def)
  show ?thesis
  proof (cases "phase s = Phase_open")
    case True
    show ?thesis by (rule links_remove [OF l, of c]) (use q none [OF True] target in auto)
  next
    case False
    with l show ?thesis by (auto simp: links_ok_def q)
  qed
qed

lemma holding_mset: "holding cs s \<Longrightarrow> mset cs = mset ds \<Longrightarrow> holding ds s"
  by (auto simp: holding_def dest: mset_eq_setD)

text \<open>What the loop leaves: only the queue and the target change, and no flushed cell is staged.\<close>

definition flushed :: "nat list \<Rightarrow> 'b core \<Rightarrow> 'b core \<Rightarrow> bool" where
  "flushed ids s s' \<longleftrightarrow>
     s' = s\<lparr>write_queue := write_queue s', continuation_target := continuation_target s'\<rparr> \<and>
     (\<forall>c \<in> set (write_queue s'). op_staged c \<longrightarrow> op_id c \<notin> set ids \<and> c \<in> set (write_queue s))"

lemma flushed_step:
  assumes "flushed ids s2 s'" and
    "s2 = s\<lparr>write_queue := write_queue s2, continuation_target := continuation_target s2\<rparr>"
    and "\<And>c. c \<in> set (write_queue s2) \<Longrightarrow> op_staged c \<Longrightarrow> c \<in> set (write_queue s) \<and> op_id c \<noteq> i"
  shows "flushed (i # ids) s s'"
proof -
  have "s' = s2\<lparr>write_queue := write_queue s', continuation_target := continuation_target s'\<rparr>"
    using assms(1) by (simp add: flushed_def)
  also have "\<dots> = s\<lparr>write_queue := write_queue s', continuation_target := continuation_target s'\<rparr>"
    by (subst assms(2)) simp
  finally show ?thesis using assms(1,3) by (auto simp: flushed_def)
qed

lemma flush_staged_spec:
  assumes "flush_staged ids s = (cs, s')" "holding acc s" "links_ok s" "phase s = Phase_open"
  shows "flushed ids s s' \<and> holding (cs @ acc) s' \<and> links_ok s'"
  using assms
proof (induction ids arbitrary: s cs s' acc)
  case Nil
  then show ?case by (auto simp: flushed_def)
next
  case (Cons i ids)
  show ?case
  proof (cases "find_cell i s")
    case None
    then have "i \<notin> op_id ` set (write_queue s)" by (simp add: find_cell_None)
    then show ?thesis using Cons None by (fastforce intro: flushed_step)
  next
    case (Some c0)
    define c where "c = op_on_segment_flushed c0"
    define s1 where "s1 = update_cell i op_on_segment_flushed s"
    define s2 where "s2 = (if op_awaits_continuation c then s1\<lparr>continuation_target := Some i\<rparr> else s1)"
    have c0: "c0 \<in> set (write_queue s)" "op_id c0 = i" using find_cell_Some [OF Some] by simp_all
    have c: "c \<in> set (write_queue s2)" "op_id c = i"
      using c0 by (auto simp: c_def s2_def s1_def on_cell_def cell_frame)
    have h2: "holding acc s2" using Cons.prems(2) by (simp add: s2_def s1_def holding_update cell_frame)
    have l2: "links_ok s2"
    proof -
      have "links_ok s1" using Cons.prems(3) by (simp add: s1_def links_update cell_frame)
      then show ?thesis using c Cons.prems(4) by (auto simp: s2_def links_ok_def s1_def)
    qed
    have o2: "phase s2 = Phase_open" using Cons.prems(4) by (simp add: s2_def s1_def)
    have q2: "b \<in> set (write_queue s) \<and> op_id b \<noteq> i" if "b \<in> set (write_queue s2)" "op_staged b" for b
      using that by (auto simp: s2_def s1_def on_cell_def cell_frame split: if_splits)
    have upd: "s2 = s\<lparr>write_queue := write_queue s2, continuation_target := continuation_target s2\<rparr>"
      by (simp add: s2_def s1_def update_cell_def)
    have step: "flush_staged (i # ids) s =
        (if op_detached c \<and> op_is_written c then
           (case extract_from_queue_locked i s2 of
              (None, s3) \<Rightarrow> flush_staged ids s3
            | (Some c', s3) \<Rightarrow> (let (cs, s4) = flush_staged ids s3 in (c' # cs, s4)))
         else flush_staged ids s2)"
      using Some by (simp add: Let_def c_def s1_def s2_def)
    show ?thesis
    proof (cases "op_detached c \<and> op_is_written c")
      case False
      with step Cons.prems(1) have "flush_staged ids s2 = (cs, s')" by simp
      from Cons.IH [OF this h2 l2 o2] show ?thesis using flushed_step [OF _ upd q2] by blast
    next
      case True
      have "i \<in> op_id ` set (write_queue s2)" using c by force
      then obtain c' s3 where e: "extract_from_queue_locked i s2 = (Some c', s3)"
        using extract_None by (metis option.exhaust prod.exhaust)
      obtain q where q: "s3 = s2\<lparr>write_queue := q\<rparr>" "c' \<in> set (write_queue s2)" "op_id c' = i"
        "set q \<subseteq> set (write_queue s2)" using extract_Some [OF e] by blast
      have d: "distinct (map op_id (write_queue s2))" by (rule holding_distinct [OF h2])
      have c': "c' = c" using distinct_cells [OF d q(2) c(1)] q(3) c(2) by simp
      obtain cs1 where f1: "flush_staged ids s3 = (cs1, s')" and cs: "cs = c # cs1"
        using step True e Cons.prems(1) c' by (auto split: prod.splits)
      have h3: "holding (c # acc) s3" using holding_extract [OF h2 e] c' by simp
      have l3: "links_ok s3" using flush_retire_links [OF l2 d e] True c' by simp
      have "phase s3 = Phase_open" using q o2 by simp
      note ih = Cons.IH [OF f1 h3 l3 this]
      have "holding (cs @ acc) s'" using ih cs holding_mset [of "cs1 @ c # acc" s' "cs @ acc"] by simp
      moreover have "flushed (i # ids) s s'"
      proof (rule flushed_step [of ids s3])
        show "s3 = s\<lparr>write_queue := write_queue s3, continuation_target := continuation_target s3\<rparr>"
          unfolding q(1) by (subst upd) simp
      qed (use ih q q2 in auto)
      ultimately show ?thesis using ih by simp
    qed
  qed
qed

lemma on_write_done_inv:
  assumes s: "core_inv s" and a: "armed_write s = Some (b, staged)"
  shows "core_inv (on_write_done f ec staged (s\<lparr>armed_write := None\<rparr>))"
proof -
  let ?s0 = "s\<lparr>armed_write := None, write_in_flight := False\<rparr>"
  have g: "arming s = None" "write_in_flight s" using s a unfolding core_inv_def pumps_ok_def by auto
  have p: "pumps_ok ?s0" using s g by (auto simp: core_inv_def pumps_ok_def)
  have l: "ledger ?s0" and r: "response_end (framer ?s0) = 0" using s by (simp_all add: core_inv_def)
  obtain retired s1 where e: "extract_staged staged ?s0 = (retired, s1)" by fastforce
  obtain q where h: "holding retired s1" and q: "s1 = ?s0\<lparr>write_queue := q\<rparr>"
    using extract_staged_holding [OF l e] by blast
  have closed: "continuation_target ?s0 = None" if "phase s \<noteq> Phase_open"
    using s that by (auto simp: core_inv_def routes_defs)
  have ab: "phase s \<noteq> Phase_open" if "abandoned s" using s that by (auto simp: core_inv_def pumps_ok_def)
  have w: "s1\<lparr>write_in_flight := False\<rparr> = s1" by (simp add: q)
  have drop: "core_inv (maybe_finish_close (drop_cells retired s1))" if "phase s \<noteq> Phase_open"
    using retire_inv(1) [OF l closed [OF that] _ r e] p that by (simp add: w)
  have fail: "core_inv (maybe_finish_close (fail_cells Operation_canceled retired s1))" if "phase s \<noteq> Phase_open"
    using retire_inv(2) [OF l closed [OF that] _ r e] p that by (simp add: w)
  have lost: "core_inv (maybe_finish_close (fail_cells ec retired (connection_lost ec s1)))"
  proof (intro core_invI)
    show "ledger (maybe_finish_close (fail_cells ec retired (connection_lost ec s1)))"
      by (intro finish.keeps_ledger holding_fail holding_lost h)
    have "pumps_ok s1" using p by (simp add: q)
    then show "pumps_ok (maybe_finish_close (fail_cells ec retired (connection_lost ec s1)))"
      by (simp add: lost_pumps)
    have "continuation_target s1 = None \<or> phase s1 \<noteq> Phase_closed" using closed by (auto simp: q)
    then show "routes_ok (maybe_finish_close (fail_cells ec retired (connection_lost ec s1)))"
      by (simp add: lost_routes)
  qed (use r in \<open>simp_all add: q\<close>)
  obtain cs s2 where fl: "flush_staged staged ?s0 = (cs, s2)" by fastforce
  have chain: "core_inv (kick (fold (post_complete_stopped f) cs s2))" if o: "phase s = Phase_open"
  proof (rule kick_ok.keeps, intro core_invI)
    have sp: "flushed staged ?s0 s2" "holding cs s2" "links_ok s2"
      using flush_staged_spec [OF fl, of "[]"] l s o by (auto simp: holding_nil core_inv_def routes_defs)
    then show "ledger (fold (post_complete_stopped f) cs s2)" by (simp add: holding_post)
    define t where "t = continuation_target s2"
    define q2 where "q2 = write_queue s2"
    have s2: "s2 = ?s0\<lparr>write_queue := q2, continuation_target := t\<rparr>"
      using sp(1) by (simp add: flushed_def t_def q2_def)
    have "\<not> op_staged c" if "c \<in> set (write_queue s2)" for c
      using sp(1) that s o a by (fastforce simp: flushed_def core_inv_def routes_defs inflight_def)
    then have "routes_ok s2" using sp(3) by (simp add: routes_ok_def staged_ok_def)
    then show "routes_ok (fold (post_complete_stopped f) cs s2)" by simp
    show "pumps_ok (fold (post_complete_stopped f) cs s2)" "settled (fold (post_complete_stopped f) cs s2)"
      "response_end (framer (fold (post_complete_stopped f) cs s2)) = 0"
      using p r o by (simp_all add: s2 settled_def)
  qed
  show ?thesis
    using drop fail lost chain ab e fl q by (simp add: on_write_done_def Let_def)
qed

interpretation write_receiver_ok: consistent "write_receiver f ec"
  by unfold_locales (auto simp: write_receiver_def on_write_done_inv split: option.split)

section \<open>What a drain puts on the wire\<close>

text \<open>
  The reference: walk the queue up to the first operation that is parked on a continuation, or up
  to and including the first one behind which a wall drops, and take what these operations offer.
\<close>

definition offers :: "cell \<Rightarrow> bool" where
  "offers c \<longleftrightarrow> \<not> op_is_written c \<and> op_next_segment c \<noteq> []"

definition parked :: "cell \<Rightarrow> bool" where
  "parked c \<longleftrightarrow> \<not> op_is_written c \<and> op_next_segment c = [] \<and> op_awaits_continuation c"

definition walls :: "cell \<Rightarrow> bool" where
  "walls c \<longleftrightarrow> offers c \<and> (op_awaits_continuation c \<or> op_blocks_pipeline c)"

fun drainable :: "cell list \<Rightarrow> cell list" where
  "drainable [] = []"
| "drainable (c # cs) = (if parked c then [] else if walls c then [c] else c # drainable cs)"

definition waiter :: "cell list \<Rightarrow> nat option" where
  "waiter cs = (if cs \<noteq> [] \<and> op_awaits_continuation (last cs) then Some (op_id (last cs)) else None)"

lemma blocks_staged [simp]: "op_blocks_pipeline (op_on_segment_staged c) = op_blocks_pipeline c"
  by (simp add: op_blocks_pipeline_def op_on_segment_staged_def)

lemma waiter_Cons: "cs \<noteq> [] \<or> \<not> op_awaits_continuation c \<Longrightarrow> waiter (c # cs) = waiter cs"
  by (auto simp: waiter_def)

text \<open>
  C12. A drain writes exactly what the wire order allows: the staged octets are the segments of the
  operations that offer one, in queue order, up to the first operation parked on a continuation, or
  up to and including the first one that awaits a continuation or blocks the pipeline; the staged
  list names these operations, the continuation target is the last of them if it awaits, and they
  alone are marked as staged.
\<close>

theorem stage_refines_reference:
  "stage_cells q =
     (let cs = filter offers (drainable q); n = length (drainable q)
      in (concat (map op_next_segment cs), map op_id cs, waiter cs,
          map (\<lambda>c. if offers c then op_on_segment_staged c else c) (take n q) @ drop n q))"
proof (induction q)
  case Nil
  then show ?case by (simp add: waiter_def)
next
  case (Cons c cs)
  show ?case
  proof (cases "offers c")
    case True
    have a: "\<not> parked c" "\<not> op_is_written c" "op_next_segment c \<noteq> []" using True by (auto simp: offers_def parked_def)
    have "waiter (c # filter offers (drainable cs)) = waiter (filter offers (drainable cs))" if "\<not> walls c"
      by (rule waiter_Cons) (use that True in \<open>auto simp: walls_def\<close>)
    then show ?thesis using True a Cons by (auto simp: Let_def walls_def waiter_def cell_frame)
  next
    case False
    then have "\<not> walls c" by (simp add: walls_def)
    then show ?thesis using False Cons by (auto simp: Let_def offers_def parked_def waiter_def)
  qed
qed

end
