(* ===== verification/Read_Pump.thy ===== *)
theory Read_Pump
  imports Core
begin

text \<open>
  The permanent read pump of \<open>imap/detail/read_pump.h\<close>. A read completion commits its octets and
  then dispatches the complete responses one by one; other calls may come between two responses, so
  that the loop of \<open>on_read\<close> is split into its start, one round and its end, with the field
  \<open>reading\<close> in between.

  \<open>None\<close> is undefined behaviour or divergence: a pointer to a destroyed cell, a failed assertion of
  the framer, or a SEARCH reader that never returns.
\<close>

section \<open>Dispatch\<close>

text \<open>The Boolean is false on a violation that ends the connection.\<close>

definition dispatch_tagged :: "tagged_response \<Rightarrow> 'b core \<Rightarrow> bool \<times> 'b core" where
  "dispatch_tagged r s =
     (case map_of (registry s) (tr_tag r) of
        None \<Rightarrow> (True, s)
      | Some i \<Rightarrow>
          (let s1 = s\<lparr>registry := reg_erase (tr_tag r) (registry s),
                      continuation_target :=
                        (if continuation_target s = Some i then None else continuation_target s)\<rparr>
           in case extract_from_queue_locked i s1 of
                (None, s2) \<Rightarrow> (False, connection_lost (Errc Unexpected_response) s2)
              | (Some c, s2) \<Rightarrow> (True, emit (snd (op_on_tagged r c)) s2)))"

text \<open>Command-scoped data goes to the first operation of the queue that wants it.\<close>

definition command_scoped :: "untagged_kind \<Rightarrow> bool" where
  "command_scoped k \<longleftrightarrow> k \<in> {K_fetch, K_list, K_lsub, K_status, K_search, K_capability, K_flags}"

fun offer :: "untagged_response \<Rightarrow> cell list \<Rightarrow> cell list option" where
  "offer r [] = Some []"
| "offer r (c # cs) =
     (if op_wants_untagged (ur_kind r) c then map_option (\<lambda>c'. c' # cs) (op_on_untagged r c)
      else map_option (\<lambda>cs'. c # cs') (offer r cs))"

text \<open>Everything else goes to every registered operation.\<close>

fun broadcast :: "untagged_response \<Rightarrow> nat list \<Rightarrow> 'b core \<Rightarrow> 'b core option" where
  "broadcast r [] s = Some s"
| "broadcast r (i # is) s =
     (case find_cell i s of
        None \<Rightarrow> None
      | Some c \<Rightarrow>
          (case op_on_untagged r c of
             None \<Rightarrow> None
           | Some c' \<Rightarrow> broadcast r is (update_cell i (\<lambda>_. c') s)))"

definition dispatch_untagged :: "untagged_response \<Rightarrow> 'b core \<Rightarrow> (bool \<times> 'b core) option" where
  "dispatch_untagged r s =
     (let s1 = (if ur_kind r = K_bye then s\<lparr>bye_received := True\<rparr> else s);
          s2 = (case make_unsolicited_event r of
                  None \<Rightarrow> s1
                | Some e \<Rightarrow> emit (map (\<lambda>h. Notified h e) (notify_snapshot (unsolicited s1))) s1)
      in if command_scoped (ur_kind r)
         then map_option (\<lambda>q. (True, s2\<lparr>write_queue := q\<rparr>)) (offer r (write_queue s2))
         else map_option (\<lambda>s3. (True, s3)) (broadcast r (map snd (registry s2)) s2))"

definition dispatch_continuation :: "fates \<Rightarrow> octets \<Rightarrow> 'b core \<Rightarrow> (bool \<times> 'b core) option" where
  "dispatch_continuation f msg s =
     (case continuation_target s of
        None \<Rightarrow> Some (False, connection_lost (Errc Unexpected_response) s)
      | Some i \<Rightarrow>
          (if \<not> queue_contains_locked i s then None
           else Some (True, post_kick f (update_cell i (op_on_continuation msg)
                                           (s\<lparr>continuation_target := None\<rparr>)))))"

definition dispatch :: "fates \<Rightarrow> octets \<Rightarrow> 'b core \<Rightarrow> (bool \<times> 'b core) option" where
  "dispatch f msg s =
     (case parse_response msg of
        None \<Rightarrow> Some (False, connection_lost (Errc Unexpected_response) s)
      | Some (Tagged r) \<Rightarrow> Some (dispatch_tagged r s)
      | Some (Untagged r) \<Rightarrow> dispatch_untagged r s
      | Some (Continuation t) \<Rightarrow> dispatch_continuation f t s)"

section \<open>Arming\<close>

text \<open>\<open>arm\<close>; the Boolean says whether the allocation failed.\<close>

definition arm_pump :: "fates \<Rightarrow> 'b core \<Rightarrow> bool \<times> 'b core" where
  "arm_pump f s =
     (if phase s \<noteq> Phase_open \<or> abandoned s \<or> suspend_read s
      then (False, maybe_finish_close (s\<lparr>read_running := False\<rparr>))
      else if no_read_slot f then (True, s)
      else (False, s\<lparr>armed_read := True\<rparr>))"

definition arm_read :: "fates \<Rightarrow> 'b core \<Rightarrow> 'b core" where
  "arm_read f s =
     (case arm_pump f (s\<lparr>read_running := True\<rparr>) of
        (True, s1) \<Rightarrow> s1\<lparr>read_running := False, phase := Phase_closed\<rparr>
      | (False, s1) \<Rightarrow> s1)"

section \<open>Completion\<close>

definition on_read_lost :: "error_code \<Rightarrow> 'b core \<Rightarrow> 'b core" where
  "on_read_lost ec s =
     connection_lost
       (if bye_received s then Errc Server_bye
        else if ec = No_error then Errc Unexpected_response else ec)
       (s\<lparr>read_running := False\<rparr>)"

text \<open>The branches behind the loop: after a violation, and at the re-arm decision.\<close>

definition on_read_stop :: "'b core \<Rightarrow> 'b core" where
  "on_read_stop s = maybe_finish_close (s\<lparr>read_running := False\<rparr>)"

definition on_read_rearm :: "fates \<Rightarrow> 'b core \<Rightarrow> 'b core" where
  "on_read_rearm f s =
     (if phase s = Phase_open \<and> \<not> suspend_read s then
        (case arm_pump f s of
           (True, s1) \<Rightarrow> connection_lost Not_enough_memory (s1\<lparr>read_running := False\<rparr>)
         | (False, s1) \<Rightarrow> s1)
      else on_read_stop s)"

definition on_read :: "'b buffer_ops \<Rightarrow> error_code \<Rightarrow> octets \<Rightarrow> 'b core \<Rightarrow> 'b core" where
  "on_read ops ec chunk s =
     (if ec \<noteq> No_error \<or> chunk = [] then on_read_lost ec s
      else s\<lparr>read_buffer := commit_of ops (read_buffer s) chunk, reading := True\<rparr>)"

definition read_round :: "'b buffer_ops \<Rightarrow> fates \<Rightarrow> 'b core \<Rightarrow> 'b core option" where
  "read_round ops f s =
     (case next_complete_response (framer s) (data_of ops (read_buffer s)) of
        None \<Rightarrow> None
      | Some (lx, None) \<Rightarrow> Some (on_read_rearm f (s\<lparr>framer := lx, reading := False\<rparr>))
      | Some (lx, Some msg) \<Rightarrow>
          (case dispatch f msg (s\<lparr>framer := lx\<rparr>) of
             None \<Rightarrow> None
           | Some (ok, s1) \<Rightarrow>
               (case consume_response ops (framer s1) (read_buffer s1) of
                  None \<Rightarrow> None
                | Some (lx', b') \<Rightarrow>
                    (let s2 = s1\<lparr>framer := lx', read_buffer := b'\<rparr>
                     in Some (if ok then s2 else on_read_stop (s2\<lparr>reading := False\<rparr>))))))"

definition read_receiver :: "'b buffer_ops \<Rightarrow> error_code \<Rightarrow> octets \<Rightarrow> 'b core \<Rightarrow> 'b core" where
  "read_receiver ops ec chunk s =
     (let s0 = s\<lparr>armed_read := False\<rparr>
      in if abandoned s0 \<or> phase s0 = Phase_closed then on_read_stop s0
         else on_read ops ec chunk s0)"

section \<open>Every dispatch keeps the state consistent\<close>

text \<open>Inside a round the framer holds a response; the rest of the invariant stands.\<close>

definition sound :: "'b core \<Rightarrow> bool" where
  "sound s \<longleftrightarrow> ledger s \<and> pumps_ok s \<and> settled s \<and> routes_ok s"

lemma core_inv_sound: "core_inv s \<longleftrightarrow> sound s \<and> response_end (framer s) = 0"
  by (auto simp: core_inv_def sound_def)

lemma sound_lost: "sound s \<Longrightarrow> sound (connection_lost ec s)"
  by (auto simp: sound_def intro: lost.keeps_ledger lost_pumps lost_routes dest: routes_closed)

lemma sound_frame [simp]:
  "sound (s\<lparr>kick_posted := k\<rparr>) = sound s" "sound (s\<lparr>framer := l\<rparr>) = sound s"
  "sound (s\<lparr>read_buffer := b\<rparr>) = sound s" "sound (s\<lparr>bye_received := y\<rparr>) = sound s"
  by (simp_all add: sound_def)

lemma sound_kick: "sound s \<Longrightarrow> sound (post_kick f s)"
  by (simp add: post_kick_def sound_lost)

text \<open>Queues whose cells changed only in what their commands collected.\<close>

definition same_frame :: "cell \<Rightarrow> cell \<Rightarrow> bool" where
  "same_frame c c' \<longleftrightarrow>
     op_id c' = op_id c \<and> op_tag c' = op_tag c \<and> op_staged c' = op_staged c \<and>
     op_detached c' = op_detached c \<and> op_finished c' = op_finished c \<and>
     op_awaits_continuation c' = op_awaits_continuation c"

lemma same_frame_refl [simp]: "same_frame c c"
  by (simp add: same_frame_def)

lemma same_frame_ex:
  assumes "list_all2 same_frame q q'"
  shows "c \<in> set q \<Longrightarrow> \<exists>c' \<in> set q'. same_frame c c'" "c' \<in> set q' \<Longrightarrow> \<exists>c \<in> set q. same_frame c c'"
  using assms by (induction rule: list_all2_induct) auto

lemma same_frame_ids: "list_all2 same_frame q q' \<Longrightarrow> map op_id q' = map op_id q"
  by (induction rule: list_all2_induct) (simp_all add: same_frame_def)

lemma reshape_sound:
  assumes s: "sound s" and q: "list_all2 same_frame (write_queue s) q'"
  shows "sound (s\<lparr>write_queue := q'\<rparr>)"
proof -
  have "live_cells (s\<lparr>write_queue := q'\<rparr>)"
    using s same_frame_ex(2) [OF q] by (fastforce simp: sound_def ledger_def live_cells_def same_frame_def)
  then have l: "ledger (s\<lparr>write_queue := q'\<rparr>)"
    using s same_frame_ids [OF q] by (simp add: sound_def ledger_def account_def del: mset_map)
  have st: "staged_ok (s\<lparr>write_queue := q'\<rparr>)"
    using s same_frame_ex(2) [OF q] by (fastforce simp: sound_def routes_defs same_frame_def)
  have reg: "\<exists>c \<in> set q'. op_id c = i \<and> op_tag c = tag \<and> \<not> op_detached c"
    if "phase s = Phase_open" "(tag, i) \<in> set (registry s)" for tag i
    using s that same_frame_ex(1) [OF q] by (fastforce simp: sound_def routes_defs same_frame_def)
  have tgt: "phase s = Phase_open \<and> (\<exists>c \<in> set q'. op_id c = i \<and> op_awaits_continuation c)"
    if "continuation_target s = Some i" for i
    using s that same_frame_ex(1) [OF q] by (fastforce simp: sound_def routes_defs same_frame_def)
  have "links_ok (s\<lparr>write_queue := q'\<rparr>)" using reg tgt by (auto simp: links_ok_def)
  with l st s show ?thesis by (simp add: sound_def routes_ok_def)
qed

lemma on_untagged_same: "op_on_untagged r c = Some c' \<Longrightarrow> same_frame c c'"
  using on_untagged_frame by (simp add: same_frame_def)

lemma offer_same: "offer r q = Some q' \<Longrightarrow> list_all2 same_frame q q'"
  by (induction q arbitrary: q') (auto simp: on_untagged_same list.rel_refl split: if_splits)

lemma update_found_same:
  assumes "distinct (map op_id (write_queue s))" "find_cell i s = Some c" "same_frame c c'"
  shows "list_all2 same_frame (write_queue s) (write_queue (update_cell i (\<lambda>_. c') s))"
proof -
  have "same_frame b (if op_id b = i then c' else b)" if "b \<in> set (write_queue s)" for b
    using distinct_cells [OF assms(1) that, of c] find_cell_Some [OF assms(2)] assms(3) by auto
  then show ?thesis by (simp add: on_cell_def list_all2_map2 list.rel_refl_strong)
qed

lemma broadcast_sound: "sound s \<Longrightarrow> broadcast r is s = Some s' \<Longrightarrow> sound s' \<and> framer s' = framer s \<and> read_buffer s' = read_buffer s \<and> reading s' = reading s"
proof (induction r "is" s rule: broadcast.induct)
  case (2 r i "is" s)
  obtain c c' where f: "find_cell i s = Some c" and u: "op_on_untagged r c = Some c'"
    and b: "broadcast r is (update_cell i (\<lambda>_. c') s) = Some s'"
    using 2(3) by (auto split: option.splits)
  have "distinct (map op_id (write_queue s))" using 2(2) distinct_queue by (auto simp: sound_def)
  from update_found_same [OF this f on_untagged_same [OF u]] have "sound (update_cell i (\<lambda>_. c') s)"
    using reshape_sound [OF 2(2)] by (simp add: update_cell_def)
  from 2(1) [OF f u this b] show ?case by simp
qed simp

text \<open>What a dispatch leaves alone.\<close>

definition dispatched :: "'b core \<Rightarrow> 'b core \<Rightarrow> bool" where
  "dispatched s s' \<longleftrightarrow> sound s' \<and> framer s' = framer s \<and> read_buffer s' = read_buffer s \<and> reading s' = reading s"

lemma dispatched_lost: "sound s \<Longrightarrow> dispatched s (connection_lost ec s)"
  by (simp add: dispatched_def sound_lost)

lemma tagged_route:
  assumes s: "sound s" and m: "map_of (registry s) tag = Some i" and o: "phase s = Phase_open"
    and f: "c \<in> set (write_queue s)" "op_id c = i"
  shows "op_tag c = tag \<and> \<not> op_detached c"
proof -
  have "(tag, i) \<in> set (registry s)" using m by (rule map_of_SomeD)
  with s o obtain b where b: "b \<in> set (write_queue s)" "op_id b = i" "op_tag b = tag" "\<not> op_detached b"
    by (auto simp: sound_def routes_defs)
  moreover have "distinct (map op_id (write_queue s))" using s distinct_queue unfolding sound_def by blast
  ultimately have "b = c" using distinct_cells [of "write_queue s" b c] f by simp
  with b show ?thesis by simp
qed

lemma dispatch_tagged_sound:
  assumes s: "sound s" and d: "dispatch_tagged r s = (ok, s')"
  shows "dispatched s s'"
proof (cases "map_of (registry s) (tr_tag r)")
  case None
  with s d show ?thesis by (simp add: dispatch_tagged_def dispatched_def)
next
  case (Some i)
  let ?s1 = "s\<lparr>registry := reg_erase (tr_tag r) (registry s),
    continuation_target := (if continuation_target s = Some i then None else continuation_target s)\<rparr>"
  have l1: "ledger ?s1" using s by (simp add: sound_def)
  obtain res s2 where e: "extract_from_queue_locked i ?s1 = (res, s2)" by fastforce
  have st1: "sound ?s1" using s by (auto simp: sound_def routes_defs)
  show ?thesis
  proof (cases res)
    case None
    then have "s2 = ?s1" using extract_None e by blast
    with d Some e None have "s' = connection_lost (Errc Unexpected_response) ?s1"
      by (simp add: dispatch_tagged_def Let_def)
    then show ?thesis using dispatched_lost [OF st1] by (simp add: dispatched_def)
  next
    case r: (Some c)
    obtain q where q: "s2 = ?s1\<lparr>write_queue := q\<rparr>" "op_id c = i" "c \<in> set (write_queue s)"
      "mset (write_queue s) = add_mset c (mset q)" "set q \<subseteq> set (write_queue s)"
      using extract_Some e r by fastforce
    have own: "owing c s2" using owing_extract [OF l1] e r by simp
    have ln: "links_ok s2"
    proof (cases "phase s = Phase_open")
      case True
      show ?thesis
        by (rule links_remove [of s c])
          (use s q tagged_route [OF s Some True q(3,2)] in \<open>auto simp: sound_def routes_ok_def split: if_splits\<close>)
    next
      case False
      with s q show ?thesis by (auto simp: sound_def routes_defs)
    qed
    have "staged_ok s2" by (rule staged_remove [of s]) (use s q in \<open>auto simp: sound_def routes_ok_def\<close>)
    moreover have "ledger (emit (snd (op_on_tagged r c)) s2)"
      using own tagged_shot.terminals_first [of c r]
      by (simp add: owing_def ledger_def account_def live_cells_def)
    moreover have "pumps_ok s2" "settled s2" using s by (simp_all add: q sound_def)
    ultimately have "sound (emit (snd (op_on_tagged r c)) s2)"
      using ln by (simp add: sound_def routes_ok_def [of s2] pumps_emit no_close_tagged)
    moreover have "s' = emit (snd (op_on_tagged r c)) s2"
      using d Some e r by (simp add: dispatch_tagged_def Let_def)
    ultimately show ?thesis by (simp add: dispatched_def q)
  qed
qed

lemma dispatch_untagged_sound:
  assumes s: "sound s" and d: "dispatch_untagged r s = Some (ok, s')"
  shows "dispatched s s'"
proof -
  define s1 where "s1 = (if ur_kind r = K_bye then s\<lparr>bye_received := True\<rparr> else s)"
  define s2 where "s2 = (case make_unsolicited_event r of None \<Rightarrow> s1
    | Some e \<Rightarrow> emit (map (\<lambda>h. Notified h e) (notify_snapshot (unsolicited s1))) s1)"
  have eq: "dispatch_untagged r s =
      (if command_scoped (ur_kind r)
       then map_option (\<lambda>q. (True, s2\<lparr>write_queue := q\<rparr>)) (offer r (write_queue s2))
       else map_option (\<lambda>s3. (True, s3)) (broadcast r (map snd (registry s2)) s2))"
    unfolding dispatch_untagged_def Let_def s2_def s1_def ..
  have s1: "dispatched s s1" using s by (simp add: s1_def dispatched_def)
  have "ledger (emit (map (\<lambda>h. Notified h e) hs) s1) = ledger s1"
    "pumps_ok (emit (map (\<lambda>h. Notified h e) hs) s1) = pumps_ok s1" for e hs
    by (auto simp: ledger_emit pumps_emit image_iff)
  then have s2: "dispatched s s2" using s1 by (simp add: s2_def dispatched_def sound_def split: option.split)
  show ?thesis
  proof (cases "command_scoped (ur_kind r)")
    case True
    then obtain q where "offer r (write_queue s2) = Some q" "s' = s2\<lparr>write_queue := q\<rparr>"
      using d by (auto simp: eq)
    then show ?thesis using s2 reshape_sound [OF _ offer_same, of s2 r q] by (simp add: dispatched_def)
  next
    case False
    then have "broadcast r (map snd (registry s2)) s2 = Some s'"
      using d by (auto simp: eq)
    then show ?thesis using s2 broadcast_sound [of s2 r] by (auto simp: dispatched_def)
  qed
qed

lemma dispatch_continuation_sound:
  assumes s: "sound s" and d: "dispatch_continuation f msg s = Some (ok, s')"
  shows "dispatched s s'"
proof (cases "continuation_target s")
  case None
  with d s show ?thesis by (auto simp: dispatch_continuation_def dispatched_lost)
next
  case (Some i)
  let ?s1 = "update_cell i (op_on_continuation msg) (s\<lparr>continuation_target := None\<rparr>)"
  have "routes_ok (s\<lparr>continuation_target := None\<rparr>)" using s by (auto simp: sound_def routes_defs)
  then have "routes_ok ?s1" by (rule routes_update) (simp_all add: cell_frame)
  moreover have "ledger ?s1" by (rule ledger_update) (use s in \<open>simp_all add: cell_frame sound_def\<close>)
  ultimately have "sound ?s1" using s by (simp add: sound_def)
  then show ?thesis
    using d Some by (auto simp: dispatch_continuation_def dispatched_def sound_kick split: if_splits)
qed

lemma dispatch_sound: "sound s \<Longrightarrow> dispatch f msg s = Some (ok, s') \<Longrightarrow> dispatched s s'"
  using dispatch_tagged_sound dispatch_untagged_sound dispatch_continuation_sound dispatched_lost
  by (fastforce simp: dispatch_def split: option.splits server_response.splits)

section \<open>The read loop keeps the state consistent\<close>

lemma scan_response_end: "scan l buf = (l', r) \<Longrightarrow> (case r of None \<Rightarrow> response_end l' = response_end l | Some _ \<Rightarrow> response_end l' \<noteq> 0)"
proof (induction l buf arbitrary: l' r rule: scan.induct)
  case (1 l buf)
  show ?case
  proof (cases "mode l = Literal_scan")
    case True
    with 1(1) 1(3) show ?thesis
      by (fastforce simp: scan.simps [of l buf] Let_def split: if_splits option.splits)
  next
    case False
    with 1(2) 1(3) show ?thesis
      by (fastforce simp: scan.simps [of l buf] Let_def split: if_splits option.splits)
  qed
qed

text \<open>\<open>reading\<close> is cleared before the flag \<open>read_running\<close>; the states in between.\<close>

definition unwinding :: "'b core \<Rightarrow> bool" where
  "unwinding s \<longleftrightarrow> ledger s \<and> routes_ok s \<and> response_end (framer s) = 0 \<and>
     \<not> armed_read s \<and> \<not> reading s \<and> pumps_ok (s\<lparr>read_running := False\<rparr>)"

lemma on_read_stop_inv: "unwinding s \<Longrightarrow> core_inv (on_read_stop s)"
  by (auto simp: unwinding_def on_read_stop_def intro!: core_invI finish.keeps_ledger)

lemma unwinding_lost: "unwinding s \<Longrightarrow> core_inv (connection_lost ec (s\<lparr>read_running := False\<rparr>))"
  using routes_closed
  by (fastforce simp: unwinding_def intro!: core_invI lost.keeps_ledger lost_pumps lost_routes)

lemma on_read_lost_inv: "unwinding s \<Longrightarrow> core_inv (on_read_lost ec s)"
  by (simp add: on_read_lost_def unwinding_lost)

lemma on_read_rearm_inv: "unwinding s \<Longrightarrow> read_running s \<Longrightarrow> core_inv (on_read_rearm f s)"
proof -
  assume u: "unwinding s" and r: "read_running s"
  have "core_inv (s\<lparr>armed_read := True\<rparr>)" if "phase s = Phase_open"
    using u r that by (auto simp: unwinding_def core_inv_def pumps_ok_def settled_def)
  moreover have "core_inv (maybe_finish_close (s\<lparr>read_running := False\<rparr>))"
    using on_read_stop_inv [OF u] by (simp add: on_read_stop_def)
  ultimately show ?thesis
    using on_read_stop_inv [OF u] unwinding_lost [OF u] by (simp add: on_read_rearm_def arm_pump_def)
qed

lemma reading_unwinding:
  "sound s \<Longrightarrow> reading s \<Longrightarrow> response_end l = 0 \<Longrightarrow> unwinding (s\<lparr>framer := l, reading := False\<rparr>)"
  by (auto simp: sound_def unwinding_def pumps_ok_def)

lemma read_round_inv:
  assumes s: "core_inv s" and r: "reading s" and e: "read_round ops f s = Some s'"
  shows "core_inv s'"
proof -
  have sd: "sound s" and l0: "response_end (framer s) = 0" using s by (simp_all add: core_inv_sound)
  obtain lx res where sc: "scan (framer s) (data_of ops (read_buffer s)) = (lx, res)" by fastforce
  show ?thesis
  proof (cases res)
    case None
    have "unwinding (s\<lparr>framer := lx, reading := False\<rparr>)"
      using reading_unwinding [OF sd r] scan_response_end [OF sc] None l0 by simp
    moreover have "read_running s" using s r unfolding core_inv_def pumps_ok_def by blast
    ultimately have "core_inv (on_read_rearm f (s\<lparr>framer := lx, reading := False\<rparr>))"
      by (intro on_read_rearm_inv) simp_all
    then show ?thesis
      using e l0 sc None by (auto simp: read_round_def next_complete_response_def)
  next
    case (Some msg)
    then obtain ok s1 where d: "dispatch f msg (s\<lparr>framer := lx\<rparr>) = Some (ok, s1)"
      using e l0 sc by (auto simp: read_round_def next_complete_response_def split: option.splits)
    have "dispatched (s\<lparr>framer := lx\<rparr>) s1" using dispatch_sound [OF _ d] sd by simp
    then have s1: "sound s1" "framer s1 = lx" "reading s1" using r by (simp_all add: dispatched_def)
    have ne: "response_end lx \<noteq> 0" using scan_response_end [OF sc] Some by simp
    let ?s2 = "s1\<lparr>framer := reset lx, read_buffer := consume_of ops (read_buffer s1) (response_end lx)\<rparr>"
    have s': "s' = (if ok then ?s2 else on_read_stop (?s2\<lparr>reading := False\<rparr>))"
      using e l0 sc Some d s1(2) ne
      by (auto simp: read_round_def next_complete_response_def consume_response_def)
    have "core_inv ?s2" using s1 by (simp add: core_inv_sound)
    moreover have "core_inv (on_read_stop (?s2\<lparr>reading := False\<rparr>))"
      by (rule on_read_stop_inv) (use s1 in \<open>auto simp: sound_def unwinding_def pumps_ok_def\<close>)
    ultimately show ?thesis using s' by simp
  qed
qed

lemma read_receiver_inv:
  assumes s: "core_inv s" and a: "armed_read s"
  shows "core_inv (read_receiver ops ec chunk s)"
proof -
  let ?s0 = "s\<lparr>armed_read := False\<rparr>"
  have nr: "\<not> reading s" "read_running s" using s a unfolding core_inv_def pumps_ok_def by blast+
  have u: "unwinding ?s0" using s a nr by (auto simp: core_inv_def unwinding_def pumps_ok_def)
  have "core_inv (?s0\<lparr>read_buffer := b, reading := True\<rparr>)" for b
    using s a nr by (auto simp: core_inv_def pumps_ok_def settled_def)
  then show ?thesis
    using on_read_stop_inv [OF u] on_read_lost_inv [OF u] by (simp add: read_receiver_def on_read_def Let_def)
qed

text \<open>A fresh connection.\<close>

lemma new_core_inv: "core_inv (arm_read f (new_core b))"
  by (auto simp: core_inv_def ledger_def account_def live_cells_def pumps_ok_def settled_def routes_defs
      inflight_def arm_read_def arm_pump_def new_core_def)

section \<open>Attribution of untagged data\<close>


section \<open>The read loop ends\<close>

text \<open>
  The rounds of one read completion, with fuel: the loop runs while \<open>reading\<close> holds;
  \<open>Went_wrong\<close> is undefined behaviour inside a round.
\<close>

datatype 'b loop_result = Ended "'b core" | Went_wrong | Out_of_fuel

fun rounds :: "'b buffer_ops \<Rightarrow> fates \<Rightarrow> nat \<Rightarrow> 'b core \<Rightarrow> 'b loop_result" where
  "rounds ops f 0 s = (if reading s then Out_of_fuel else Ended s)"
| "rounds ops f (Suc n) s =
     (if reading s then (case read_round ops f s of None \<Rightarrow> Went_wrong | Some s1 \<Rightarrow> rounds ops f n s1)
      else Ended s)"

lemma rearm_not_reading: "\<not> reading s \<Longrightarrow> \<not> reading (on_read_rearm f s)"
  by (simp add: on_read_rearm_def on_read_stop_def arm_pump_def)

lemma scan_within: "scan l buf = (l', Some t) \<Longrightarrow> response_end l' \<le> length buf"
proof (induction l buf arbitrary: l' rule: scan.induct)
  case (1 l buf)
  then show ?case using find_eol_bounds [of buf "scan_pos l"]
    by (subst (asm) (3) scan.simps) (auto simp: Let_def split: if_splits option.splits)
qed

lemma read_round_consumes:
  assumes b: "buffer_ok ops" and s: "core_inv s" and e: "read_round ops f s = Some s'" and r: "reading s'"
  shows "length (data_of ops (read_buffer s')) < length (data_of ops (read_buffer s))"
proof -
  have l0: "response_end (framer s) = 0" and sd: "sound s" using s by (simp_all add: core_inv_sound)
  obtain lx res where sc: "scan (framer s) (data_of ops (read_buffer s)) = (lx, res)" by fastforce
  obtain msg where m: "res = Some msg"
    using e l0 sc r rearm_not_reading [of "s\<lparr>framer := lx, reading := False\<rparr>" f]
    by (cases res) (auto simp: read_round_def next_complete_response_def)
  then obtain ok s1 where d: "dispatch f msg (s\<lparr>framer := lx\<rparr>) = Some (ok, s1)"
    using e l0 sc by (auto simp: read_round_def next_complete_response_def split: option.splits)
  have s1: "framer s1 = lx" "read_buffer s1 = read_buffer s"
    using dispatch_sound [OF _ d] sd by (simp_all add: dispatched_def)
  have n: "response_end lx \<noteq> 0" "response_end lx \<le> length (data_of ops (read_buffer s))"
    using scan_response_end [OF sc] scan_within sc m by auto
  have "read_buffer s' = consume_of ops (read_buffer s) (response_end lx)"
    using e l0 sc m d s1 n(1)
    by (auto simp: read_round_def next_complete_response_def consume_response_def on_read_stop_def Let_def)
  then show ?thesis using b n by simp
qed


definition calm :: fates where
  "calm = \<lparr>no_registry_slot = False, no_kick_slot = False, no_write_slot = False,
     no_read_slot = False, no_stop_slot = (\<lambda>_. False)\<rparr>"

definition one_read :: "octets core" where
  "one_read = read_receiver list_buffer No_error (''* 1 EXISTS'' @ CRLF) (arm_read calm (new_core []))"


end
