(* ===== verification/Engine.thy ===== *)
theory Engine
  imports Imap_Context Write_Pump Read_Pump
begin

text \<open>
  The connection as a state machine: the public calls of \<open>imap_context\<close>, the posted completions
  and the completions of the transport are the actions, and every interleaving of them is a run.
  A call is one action; a drain is two (\<open>Run_kick\<close> or the chained drain of \<open>Finish_write\<close>, then
  \<open>Arm_write\<close>), and a read completion is one action per response (\<open>Finish_read\<close>, then
  \<open>Read_round\<close>s), since other calls can come in between.

  The transport may complete an armed read or write at any time, in any order, with any error. The
  shell makes no call after its destruction.
\<close>

section \<open>Actions\<close>

datatype action =
    Submit fates command_args
  | Submit_batch "(fates \<times> command_args) list"
  | Start fates command_args bool
  | Flush fates
  | Cancel fates octets
  | Request_stop fates nat
  | Add_handler_call
  | Reset_token_call nat
  | Close
  | Destroy
  | Suspend_read
  | Run_kick error_code
  | Arm_write fates
  | Finish_write fates error_code
  | Run_stop nat
  | Finish_read error_code octets
  | Read_round fates

fun enabled :: "action \<Rightarrow> 'b core \<Rightarrow> bool" where
  "enabled (Run_kick ec) s \<longleftrightarrow> kick_posted s"
| "enabled (Arm_write f) s \<longleftrightarrow> arming s \<noteq> None"
| "enabled (Finish_write f ec) s \<longleftrightarrow> armed_write s \<noteq> None"
| "enabled (Run_stop n) s \<longleftrightarrow> n < length (posted_stops s)"
| "enabled (Finish_read ec chunk) s \<longleftrightarrow> armed_read s"
| "enabled (Read_round f) s \<longleftrightarrow> reading s"
| "enabled (Request_stop f i) s \<longleftrightarrow> True"
| "enabled (Reset_token_call i) s \<longleftrightarrow> True"
| "enabled _ s \<longleftrightarrow> \<not> abandoned s"

fun perform :: "'b buffer_ops \<Rightarrow> action \<Rightarrow> 'b core \<Rightarrow> 'b core option" where
  "perform ops (Submit f a) s = map_option snd (submit f a s)"
| "perform ops (Submit_batch as) s = submit_batch as s"
| "perform ops (Start f a stop) s = map_option snd (start_operation f a stop s)"
| "perform ops (Flush f) s = Some (flush f s)"
| "perform ops (Cancel f tag) s = cancel f tag s"
| "perform ops (Request_stop f i) s = request_stop f i s"
| "perform ops Add_handler_call s = Some (snd (on_unsolicited s))"
| "perform ops (Reset_token_call i) s = Some (reset_registration i s)"
| "perform ops Close s = Some (close s)"
| "perform ops Destroy s = Some (abandon s)"
| "perform ops Suspend_read s = Some (suspend_read_for_relocation s)"
| "perform ops (Run_kick ec) s = Some (kick_receiver ec s)"
| "perform ops (Arm_write f) s = Some (case arming s of None \<Rightarrow> s | Some staged \<Rightarrow> arm_write f staged s)"
| "perform ops (Finish_write f ec) s = Some (write_receiver f ec s)"
| "perform ops (Run_stop n) s = Some (stopped_receiver n s)"
| "perform ops (Finish_read ec chunk) s = Some (read_receiver ops ec chunk s)"
| "perform ops (Read_round f) s = read_round ops f s"

inductive reachable :: "'b buffer_ops \<Rightarrow> 'b core \<Rightarrow> bool" for ops :: "'b buffer_ops" where
  fresh: "reachable ops (arm_read f (new_core b))"
| step: "reachable ops s \<Longrightarrow> enabled a s \<Longrightarrow> perform ops a s = Some s' \<Longrightarrow> reachable ops s'"

fun run :: "'b buffer_ops \<Rightarrow> action list \<Rightarrow> 'b core \<Rightarrow> 'b core option" where
  "run ops [] s = Some s"
| "run ops (a # as) s =
     (if enabled a s then (case perform ops a s of None \<Rightarrow> None | Some s1 \<Rightarrow> run ops as s1) else None)"

lemma run_reachable: "reachable ops s \<Longrightarrow> run ops as s = Some s' \<Longrightarrow> reachable ops s'"
proof (induction as arbitrary: s)
  case (Cons a as)
  then show ?case by (auto split: if_splits option.splits intro: reachable.step)
qed simp

lemma perform_inv: "core_inv s \<Longrightarrow> enabled a s \<Longrightarrow> perform ops a s = Some s' \<Longrightarrow> core_inv s'"
proof (cases a)
  case (Arm_write f)
  assume "core_inv s" "enabled a s" "perform ops a s = Some s'"
  with Arm_write show ?thesis by (auto simp: arm_write_inv)
qed (auto simp: flush_def posting_ok.keeps closing_ok.keeps abandoning_ok.keeps token_ok.keeps
    suspending_ok.keeps kick_receiver_ok.keeps write_receiver_ok.keeps stopping_ok.keeps
    read_receiver_inv on_unsolicited_inv
    intro: submit_inv start_inv submit_batch_inv cancel_inv request_stop_inv read_round_inv)

lemma reachable_inv: "reachable ops s \<Longrightarrow> core_inv s"
  by (induction rule: reachable.induct) (auto intro: new_core_inv perform_inv)

end
