(* ===== verification/Connection.thy ===== *)
theory Connection
  imports Engine "HOL-Library.Code_Target_Nat"
begin

text \<open>
  Properties of the whole connection, over every reachable state of theory \<open>Engine\<close>: accounting of
  operations, the order of closing, the stability of the write in flight, the absence of dangling
  pointers on an open connection, the silence after destruction; and concrete runs for the cases
  in which the code does not do what it promises.
\<close>

section \<open>Sample runs\<close>

text \<open>A run without allocation failures starts from \<open>fresh_core\<close>; the read buffer is a list.\<close>

definition fresh_core :: "octets core" where
  "fresh_core = arm_read calm (new_core [])"

definition send_noop :: "action list" where
  "send_noop = [Submit calm Noop, Flush calm, Run_kick No_error, Arm_write calm]"

definition exchange :: "action list" where
  "exchange = send_noop @ [Finish_write calm No_error, Finish_read No_error (''a0001 OK done'' @ CRLF),
     Read_round calm, Read_round calm]"

definition after :: "action list \<Rightarrow> octets core" where
  "after as = the (run list_buffer as fresh_core)"

lemma reachable_after: "run list_buffer as fresh_core \<noteq> None \<Longrightarrow> reachable list_buffer (after as)"
  unfolding after_def fresh_core_def using run_reachable [OF reachable.fresh] by fastforce

section \<open>Accounting\<close>

text \<open>
  C1. Every operation has exactly one owner or exactly one ending: in every reachable state of the
  connection, under every interleaving of calls, completions, errors and allocation failures, each
  of the operations created so far is either in the write queue, or waits for its posted stop
  completion, or has had exactly one terminal event (a value, a stop, a withdrawal or its
  destruction), and never two of these.
\<close>

theorem exactly_once:
  assumes "reachable ops s"
  shows "mset (map op_id (write_queue s) @ map op_id (posted_stops s) @ terminals (trace s)) =
    mset [0 ..< next_id s]"
  using reachable_inv [OF assms] by (simp add: core_inv_def ledger_def account_def ac_simps)

theorem exactly_once_witness:
  "reachable list_buffer (after exchange) \<and>
   mset (map op_id (write_queue (after exchange)) @ map op_id (posted_stops (after exchange)) @
         terminals (trace (after exchange))) = mset [0 ..< next_id (after exchange)] \<and>
   trace (after exchange) = [Value_delivered 0 No_error No_result]"
proof -
  have r: "reachable list_buffer (after exchange)"
    by (rule reachable_after) code_simp
  have t: "trace (after exchange) = [Value_delivered 0 No_error No_result]" by code_simp
  show ?thesis using r exactly_once [OF r] t by blast
qed

section \<open>The descriptor\<close>

text \<open>
  C2. The descriptor is closed at most once, and only when nothing is armed on it: in every
  reachable state whose trace contains the close, the connection is closed, no read or write is
  armed or about to be armed, and the close happened once. Conversely a connection that drains
  still waits for one of its pumps, so that the close cannot be forgotten.
\<close>

theorem descriptor_closed_last:
  assumes "reachable ops s"
  shows "(Close_descriptor \<in> set (trace s) \<longrightarrow>
      phase s = Phase_closed \<and> \<not> armed_read s \<and> \<not> reading s \<and> armed_write s = None \<and> arming s = None \<and>
      count_list (trace s) Close_descriptor = 1) \<and>
    (phase s = Phase_draining \<longrightarrow> armed_read s \<or> reading s \<or> armed_write s \<noteq> None \<or> arming s \<noteq> None)"
proof -
  have p: "pumps_ok s" "settled s" using reachable_inv [OF assms] by (simp_all add: core_inv_def)
  have "count_list (trace s) Close_descriptor > 0" if "Close_descriptor \<in> set (trace s)"
    using that count_list_0_iff [of "trace s" Close_descriptor] by simp
  with p show ?thesis unfolding pumps_ok_def settled_def by (auto split: if_splits)
qed

definition shut_down :: "action list" where
  "shut_down = send_noop @ [Close, Finish_write calm No_error, Finish_read No_error []]"

theorem descriptor_closed_last_witness:
  "reachable list_buffer (after shut_down) \<and> Close_descriptor \<in> set (trace (after shut_down)) \<and>
   phase (after shut_down) = Phase_closed \<and> \<not> armed_read (after shut_down) \<and>
   count_list (trace (after shut_down)) Close_descriptor = 1"
proof -
  have r: "reachable list_buffer (after shut_down)"
    by (rule reachable_after) code_simp
  have t: "Close_descriptor \<in> set (trace (after shut_down))" by code_simp
  show ?thesis using descriptor_closed_last [OF r] r t by blast
qed

section \<open>One write at a time\<close>

lemma kick_armed: "write_in_flight s \<Longrightarrow> kick s = s"
  by (simp add: kick_closed)

lemma lost_staging [simp]: "write_staging (connection_lost ec s) = write_staging s"
  by (cases "phase s = Phase_closed") (simp_all add: connection_lost_eq maybe_finish_close_def fail_cells_def)

lemma finish_staging [simp]: "write_staging (maybe_finish_close s) = write_staging s"
  by (simp add: maybe_finish_close_def)

definition write_part :: "'b core \<Rightarrow> octets \<times> (octets \<times> nat list) option" where
  "write_part s = (write_staging s, armed_write s)"

lemma write_part_simps [simp]:
  "write_part (connection_lost ec s) = write_part s" "write_part (maybe_finish_close s) = write_part s"
  "write_part (post_kick f s) = write_part s" "write_part (post_complete_stopped f c s) = write_part s"
  "write_part (stopped_receiver n s) = write_part s" "write_part (fail_cells ec cs s) = write_part s"
  "write_part (drop_cells cs s) = write_part s" "write_part (emit es s) = write_part s"
  "write_part (update_cell i g s) = write_part s"
  by (auto simp: write_part_def post_kick_def post_complete_stopped_def stopped_receiver_def fail_cells_def
      drop_cells_def update_cell_def split: list.split)

lemma write_part_frame [simp]:
  "write_part (s\<lparr>registry := r\<rparr>) = write_part s" "write_part (s\<lparr>write_queue := q\<rparr>) = write_part s"
  "write_part (s\<lparr>kick_posted := k\<rparr>) = write_part s" "write_part (s\<lparr>continuation_target := t\<rparr>) = write_part s"
  "write_part (s\<lparr>posted_stops := p\<rparr>) = write_part s" "write_part (s\<lparr>framer := l\<rparr>) = write_part s"
  "write_part (s\<lparr>read_buffer := b\<rparr>) = write_part s" "write_part (s\<lparr>bye_received := y\<rparr>) = write_part s"
  "write_part (s\<lparr>tag_counter := n\<rparr>) = write_part s" "write_part (s\<lparr>next_id := m\<rparr>) = write_part s"
  "write_part (s\<lparr>suspend_read := z\<rparr>) = write_part s" "write_part (s\<lparr>unsolicited := u\<rparr>) = write_part s"
  "write_part (s\<lparr>reading := d\<rparr>) = write_part s" "write_part (s\<lparr>read_running := e\<rparr>) = write_part s"
  "write_part (s\<lparr>armed_read := a\<rparr>) = write_part s" "write_part (s\<lparr>phase := ph\<rparr>) = write_part s"
  "write_part (s\<lparr>abandoned := ab\<rparr>) = write_part s"
  by (simp_all add: write_part_def)

lemma write_part_extract [simp]: "extract_from_queue_locked i s = (r, s') \<Longrightarrow> write_part s' = write_part s"
  by (auto simp: extract_from_queue_locked_def split: prod.splits)

lemma write_part_enqueue: "enqueue_operation f c tag k s = (t, s') \<Longrightarrow> write_part s' = write_part s"
  by (auto simp: enqueue_operation_def op_take_stop_request_def Let_def split: if_splits prod.splits option.splits)

lemma write_part_make: "make_cell a cb st s = Some (c, tag, s1) \<Longrightarrow> write_part s1 = write_part s"
  by (drule make_cell_Some) simp

lemma write_part_submit: "submit f a s = Some (t, s') \<Longrightarrow> write_part s' = write_part s"
  by (auto simp: submit_def dest!: write_part_make write_part_enqueue)

lemma write_part_start: "start_operation f a stop s = Some (t, s') \<Longrightarrow> write_part s' = write_part s"
  by (auto simp: start_operation_def dest!: write_part_make write_part_enqueue)

lemma write_part_batch: "submit_batch as s = Some s' \<Longrightarrow> write_part s' = write_part s"
proof (induction as arbitrary: s)
  case (Cons p as)
  obtain f a where p: "p = (f, a)" by force
  from Cons.prems obtain t s1 where sub: "submit f a s = Some (t, s1)"
    by (auto simp: p split: option.splits)
  with Cons show ?case
    by (cases t) (auto simp: p drop_batch_def write_part_submit)
qed simp

lemma write_part_cancel: "cancel_entry f tag e s = Some s' \<Longrightarrow> write_part s' = write_part s"
  by (auto simp: cancel_entry_def find_and_detach_locked_def detach_locked_def finish_cancellation_def Let_def
      split: if_splits option.splits prod.splits)

lemma write_part_stop: "request_stop f i s = Some s' \<Longrightarrow> write_part s' = write_part s"
  by (auto simp: request_stop_def on_stop_requested_def Let_def split: option.splits if_splits
      dest!: write_part_cancel)

lemma write_part_close: "write_part (close s) = write_part s" "write_part (abandon s) = write_part s"
  by (simp_all add: close_def abandon_def take_cells_locked_def Let_def)

lemma write_part_broadcast: "broadcast r is s = Some s' \<Longrightarrow> write_part s' = write_part s"
  by (induction r "is" s rule: broadcast.induct) (auto split: option.splits)

lemma write_part_dispatch: "dispatch f msg s = Some (ok, s') \<Longrightarrow> write_part s' = write_part s"
proof -
  have "write_part s' = write_part s" if "dispatch_tagged r s = (ok, s')" for r
    using that by (auto simp: dispatch_tagged_def Let_def split: option.splits prod.splits)
  moreover have "write_part s' = write_part s" if "dispatch_untagged r s = Some (ok, s')" for r
    using that by (auto simp: dispatch_untagged_def Let_def split: option.splits if_splits
        dest!: write_part_broadcast)
  moreover have "write_part s' = write_part s" if "dispatch_continuation f m s = Some (ok, s')" for m
    using that by (auto simp: dispatch_continuation_def split: option.splits if_splits)
  ultimately show "dispatch f msg s = Some (ok, s') \<Longrightarrow> ?thesis"
    by (auto simp: dispatch_def split: option.splits server_response.splits)
qed

lemma write_part_read: "read_round ops f s = Some s' \<Longrightarrow> write_part s' = write_part s"
  by (auto simp: read_round_def on_read_rearm_def on_read_stop_def arm_pump_def Let_def
      split: option.splits prod.splits if_splits bool.splits dest!: write_part_dispatch)

lemma write_part_receive: "write_part (read_receiver ops ec chunk s) = write_part s"
  by (simp add: read_receiver_def on_read_def on_read_lost_def on_read_stop_def Let_def)

fun is_write_step :: "action \<Rightarrow> bool" where
  "is_write_step (Run_kick _) = True"
| "is_write_step (Arm_write _) = True"
| "is_write_step (Finish_write _ _) = True"
| "is_write_step _ = False"

lemma perform_write_part:
  "perform ops a s = Some s' \<Longrightarrow> \<not> is_write_step a \<Longrightarrow> write_part s' = write_part s"
  by (cases a)
    (auto simp: flush_def cancel_def write_part_close write_part_receive on_unsolicited_def
      reset_registration_def suspend_read_for_relocation_def split: prod.splits
      dest: write_part_submit write_part_start write_part_batch write_part_cancel write_part_stop
        write_part_read)

text \<open>The octets of an armed write are the staging buffer.\<close>

definition staging_ok :: "'b core \<Rightarrow> bool" where
  "staging_ok s \<longleftrightarrow> (\<forall>b ids. armed_write s = Some (b, ids) \<longrightarrow> b = write_staging s)"

lemma staging_part: "write_part s' = write_part s \<Longrightarrow> staging_ok s' = staging_ok s"
  by (simp add: write_part_def staging_ok_def)

lemma kick_unarmed: "armed_write (kick s) = armed_write s"
  by (simp add: kick_def Let_def split: prod.split)

lemma kick_receiver_stable: "write_in_flight s \<Longrightarrow> write_part (kick_receiver ec s) = write_part s"
  by (simp add: kick_receiver_def Let_def kick_armed)

lemma kick_receiver_unarmed: "armed_write (kick_receiver ec s) = armed_write s"
  by (simp add: kick_receiver_def Let_def kick_unarmed)

lemma fold_post_unarmed: "armed_write (fold (post_complete_stopped f) cs s) = armed_write s"
  by (induction cs arbitrary: s) (simp_all add: post_complete_stopped_def)

lemma extract_staged_unarmed: "extract_staged ids s = (cs, s') \<Longrightarrow> armed_write s' = armed_write s"
  by (drule extract_staged_mset) auto

lemma extract_unarmed: "extract_from_queue_locked i s = (r, s') \<Longrightarrow> armed_write s' = armed_write s"
  by (auto simp: extract_from_queue_locked_def split: prod.splits)

lemma update_unarmed [simp]: "armed_write (update_cell i g s) = armed_write s"
  by (simp add: update_cell_def)

lemma flush_staged_unarmed: "flush_staged ids s = (cs, s') \<Longrightarrow> armed_write s' = armed_write s"
proof (induction ids arbitrary: s cs s')
  case (Cons i ids)
  then show ?case
    by (auto simp: Let_def split: option.splits if_splits prod.splits dest!: Cons.IH extract_unarmed)
qed simp

lemma on_write_done_unarmed:
  "armed_write s = None \<Longrightarrow> armed_write (on_write_done f ec staged s) = None"
proof -
  assume a: "armed_write s = None"
  let ?s0 = "s\<lparr>write_in_flight := False\<rparr>"
  obtain cs s1 where e: "extract_staged staged ?s0 = (cs, s1)" by fastforce
  obtain ds s2 where f: "flush_staged staged ?s0 = (ds, s2)" by fastforce
  have "armed_write s1 = None" "armed_write s2 = None"
    using extract_staged_unarmed [OF e] flush_staged_unarmed [OF f] a by simp_all
  then show ?thesis using e f by (simp add: on_write_done_def Let_def kick_unarmed fold_post_unarmed)
qed

lemma write_receiver_unarmed: "armed_write (write_receiver f ec s) = None"
  by (simp add: write_receiver_def on_write_done_unarmed split: option.split prod.split)

lemma arm_write_staging: "armed_write s = None \<Longrightarrow> staging_ok (arm_write f staged s)"
  by (auto simp: arm_write_def Let_def staging_ok_def split: prod.splits dest: extract_staged_unarmed)

lemma reachable_staging: "reachable ops s \<Longrightarrow> staging_ok s"
proof (induction rule: reachable.induct)
  case (fresh f b)
  then show ?case by (auto simp: staging_ok_def arm_read_def arm_pump_def new_core_def)
next
  case (step s a s')
  have inv: "core_inv s" by (rule reachable_inv [OF step(1)])
  show ?case
  proof (cases "is_write_step a")
    case False
    then show ?thesis using staging_part [OF perform_write_part [OF step(3)]] step(4) by simp
  next
    case True
    then show ?thesis
    proof (cases a)
      case (Run_kick ec)
      have "write_part (kick_receiver ec s) = write_part s" if "armed_write s \<noteq> None"
        using kick_receiver_stable inv that by (auto simp: core_inv_def pumps_ok_def)
      then show ?thesis using Run_kick step kick_receiver_unarmed [of ec s] staging_part
        by (cases "armed_write s") (auto simp: staging_ok_def write_part_def)
    next
      case (Arm_write f)
      then obtain ids where "arming s = Some ids" using step(2) by auto
      moreover from this have "armed_write s = None" using inv unfolding core_inv_def pumps_ok_def by auto
      ultimately show ?thesis using Arm_write step(3) arm_write_staging by auto
    next
      case (Finish_write f ec)
      then show ?thesis using step(3) write_receiver_unarmed [of f ec s] by (auto simp: staging_ok_def)
    qed simp_all
  qed
qed

text \<open>
  C7. Only one write is ever in flight, and its octets do not change under it: while a write is
  armed, every action other than its own completion leaves the armed write and the staging buffer
  as they are, and the octets of the write are the staging buffer.
\<close>

theorem write_stable:
  assumes "reachable ops s" "armed_write s = Some (octets, ids)"
    and "enabled a s" "perform ops a s = Some s'" "\<forall>f ec. a \<noteq> Finish_write f ec"
  shows "armed_write s' = Some (octets, ids) \<and> write_staging s' = octets"
proof -
  have p: "pumps_ok s" "staging_ok s"
    using reachable_inv [OF assms(1)] reachable_staging [OF assms(1)] by (simp_all add: core_inv_def)
  have w: "write_in_flight s" "arming s = None" using p(1) assms(2) unfolding pumps_ok_def by auto
  have "write_part s' = write_part s"
  proof (cases "is_write_step a")
    case True
    then show ?thesis using assms w kick_receiver_stable by (cases a) auto
  qed (use assms perform_write_part in blast)
  then show ?thesis using p(2) assms(2) by (simp add: write_part_def staging_ok_def)
qed

theorem write_stable_witness:
  "\<exists>s'. reachable list_buffer (after send_noop) \<and>
     armed_write (after send_noop) = Some (''a0001 NOOP'' @ CRLF, [0]) \<and>
     perform list_buffer (Submit calm Logout) (after send_noop) = Some s' \<and>
     armed_write s' = Some (''a0001 NOOP'' @ CRLF, [0]) \<and> write_staging s' = ''a0001 NOOP'' @ CRLF"
proof -
  have r: "reachable list_buffer (after send_noop)" by (rule reachable_after) code_simp
  have a: "armed_write (after send_noop) = Some (''a0001 NOOP'' @ CRLF, [0])" by code_simp
  have e: "enabled (Submit calm Logout) (after send_noop)" by code_simp
  have "perform list_buffer (Submit calm Logout) (after send_noop) \<noteq> None" by code_simp
  then obtain s' where p: "perform list_buffer (Submit calm Logout) (after send_noop) = Some s'" by blast
  show ?thesis using write_stable [OF r a e p] r a p by auto
qed

section \<open>No dangling pointers on an open connection\<close>

lemma link_found:
  assumes "links_ok s" "phase s = Phase_open" "(tag, i) \<in> set (registry s)"
  shows "find_cell i s \<noteq> None"
proof -
  obtain c where "c \<in> set (write_queue s)" "op_id c = i" using assms by (auto simp: links_ok_def)
  then show ?thesis unfolding find_cell_None by blast
qed

lemma detach_defined: "find_cell i s \<noteq> None \<Longrightarrow> detach_locked tag i s \<noteq> None"
  by (auto simp: detach_locked_def Let_def split: prod.split)

lemma cancel_entry_defined:
  assumes "core_inv s"
  shows "cancel_entry f tag e s \<noteq> None"
proof (cases "map_of (registry s) tag")
  case (Some i)
  have "detach_locked tag i s \<noteq> None" if "phase s = Phase_open"
    using assms detach_defined [OF link_found [OF _ that map_of_SomeD [OF Some]]]
    by (simp add: core_inv_def routes_ok_def)
  then show ?thesis using Some by (auto simp: cancel_entry_def find_and_detach_locked_def)
qed (simp add: cancel_entry_def find_and_detach_locked_def)

lemma request_stop_defined: "core_inv s \<Longrightarrow> request_stop f i s \<noteq> None"
  using cancel_entry_defined [OF note_stop_inv [of s i]]
  by (auto simp: request_stop_def on_stop_requested_def Let_def split: option.splits)

text \<open>The two responses a command cannot take.\<close>

definition hostile :: "untagged_response \<Rightarrow> bool" where
  "hostile r \<longleftrightarrow>
     ur_kind r = K_search \<and> search_on_untagged r [] = None \<or>
     ur_kind r = K_fetch \<and> parse_fetch_attributes (ur_payload r) empty_attributes = Some Dangling"

lemma absorb_None: "absorb r f acc = None \<Longrightarrow> \<exists>x. r = Some x \<Longrightarrow> r = Some Dangling"
  by (cases r rule: option.exhaust; cases "the r") auto

lemma search_None: "search_on_untagged r ms = None \<Longrightarrow> ur_kind r = K_search \<and> search_on_untagged r [] = None"
  using search_loop_returns [of "ur_payload r" 0 ms] search_loop_SomeD [of "ur_payload r" 0 "[]"]
  by (cases "search_loop (ur_payload r) 0 []") (auto simp: search_on_untagged_def split: if_splits)

lemma fetch_None: "fetch_on_untagged r ds = None \<Longrightarrow> hostile r"
  using walks_defined(1) [of "ur_payload r" empty_attributes]
    absorb_None [of "parse_fetch_attributes (ur_payload r) empty_attributes"]
  by (auto simp: fetch_on_untagged_def hostile_def split: if_splits)

lemma absorb_defined: "r \<noteq> None \<Longrightarrow> r \<noteq> Some Dangling \<Longrightarrow> absorb r f acc \<noteq> None"
  using absorb_None [of r f acc] by auto

lemma fetch_others_defined:
  "fetch_envelopes_on_untagged r es \<noteq> None" "fetch_headers_on_untagged r hs \<noteq> None"
  "fetch_message_on_untagged r ms \<noteq> None"
proof -
  have d: "parse_envelope_attribute (ur_payload r) e \<noteq> None"
    "parse_body_section_attribute (ur_payload r) pre v \<noteq> None" for e pre v
    using walks_defined(2,3) [of "ur_payload r"] by simp_all
  show "fetch_envelopes_on_untagged r es \<noteq> None" "fetch_headers_on_untagged r hs \<noteq> None"
    "fetch_message_on_untagged r ms \<noteq> None"
    by (simp_all add: fetch_envelopes_on_untagged_def fetch_headers_on_untagged_def
        fetch_message_on_untagged_def absorb_defined d no_dangling_walks del: not_None_eq)
qed

lemma on_untagged_None:
  assumes "op_on_untagged r c = None"
  shows "hostile r"
proof -
  have "on_untagged r (op_command c) = None" using assms by (simp add: op_on_untagged_def split: if_splits)
  then have "(\<exists>ms. search_on_untagged r ms = None) \<or> (\<exists>ds. fetch_on_untagged r ds = None)"
    using fetch_others_defined [of r]
    by (cases "cmd_accum (op_command c)") (simp_all add: on_untagged_def, blast+)
  then show ?thesis using search_None fetch_None unfolding hostile_def by blast
qed

lemma hostile_scoped: "hostile r \<Longrightarrow> command_scoped (ur_kind r)"
  by (auto simp: hostile_def command_scoped_def)

lemma offer_None: "offer r q = None \<Longrightarrow> \<exists>c \<in> set q. op_on_untagged r c = None"
  by (induction q) (auto split: if_splits)

lemma broadcast_defined:
  "\<not> hostile r \<Longrightarrow> \<forall>i \<in> set is. find_cell i s \<noteq> None \<Longrightarrow> broadcast r is s \<noteq> None"
proof (induction r "is" s rule: broadcast.induct)
  case (2 r i "is" s)
  obtain c where f: "find_cell i s = Some c" using 2(3) by auto
  obtain c' where u: "op_on_untagged r c = Some c'" using on_untagged_None 2(2) by blast
  have "op_id c' = i" using on_untagged_frame [OF u] find_cell_Some [OF f] by simp
  then have "map op_id (write_queue (update_cell i (\<lambda>_. c') s)) = map op_id (write_queue s)"
    by (simp add: on_cell_def)
  then have ids: "op_id ` set (write_queue (update_cell i (\<lambda>_. c') s)) = op_id ` set (write_queue s)"
    by (metis list.set_map)
  have "\<forall>j \<in> set is. find_cell j (update_cell i (\<lambda>_. c') s) \<noteq> None"
    using 2(3) ids unfolding find_cell_None by simp
  from 2(1) [OF f u 2(2) this] show ?case using f u by simp
qed simp

lemma dispatch_untagged_defined:
  assumes "sound s" "phase s = Phase_open" "dispatch_untagged r s = None"
  shows "\<exists>c \<in> set (write_queue s). op_on_untagged r c = None"
proof -
  define s1 where "s1 = (if ur_kind r = K_bye then s\<lparr>bye_received := True\<rparr> else s)"
  define s2 where "s2 = (case make_unsolicited_event r of None \<Rightarrow> s1
    | Some e \<Rightarrow> emit (map (\<lambda>h. Notified h e) (notify_snapshot (unsolicited s1))) s1)"
  have eq: "dispatch_untagged r s =
      (if command_scoped (ur_kind r)
       then map_option (\<lambda>q. (True, s2\<lparr>write_queue := q\<rparr>)) (offer r (write_queue s2))
       else map_option (\<lambda>s3. (True, s3)) (broadcast r (map snd (registry s2)) s2))"
    unfolding dispatch_untagged_def Let_def s2_def s1_def ..
  have same: "write_queue s2 = write_queue s" "registry s2 = registry s"
    by (simp_all add: s2_def s1_def split: option.split)
  have "links_ok s" using assms(1) by (simp add: sound_def routes_ok_def)
  then have "find_cell i s2 \<noteq> None" if "(t, i) \<in> set (registry s)" for t i
    using link_found [OF _ assms(2) that] by (simp add: find_cell_def same)
  then have found: "\<forall>i \<in> set (map snd (registry s2)). find_cell i s2 \<noteq> None" using same(2) by auto
  have "command_scoped (ur_kind r)"
    using broadcast_defined [OF _ found, of r] hostile_scoped assms(3) eq by (auto split: if_splits)
  then have "offer r (write_queue s) = None" using assms(3) eq same by simp
  then show ?thesis by (rule offer_None)
qed

lemma dispatch_defined:
  assumes "sound s" "phase s = Phase_open" "dispatch f msg s = None"
  shows "\<exists>r. parse_response msg = Some (Untagged r) \<and> (\<exists>c \<in> set (write_queue s). op_on_untagged r c = None)"
proof -
  have "dispatch_continuation f m s \<noteq> None" for m
    using assms(1,2) by (auto simp: dispatch_continuation_def queue_contains_locked_def sound_def routes_defs
        list_ex_iff split: option.split)
  then obtain r where "parse_response msg = Some (Untagged r)" "dispatch_untagged r s = None"
    using assms(3) by (auto simp: dispatch_def split: option.splits server_response.splits) (metis option.distinct(1))
  then show ?thesis using dispatch_untagged_defined [OF assms(1,2)] by blast
qed

lemma submit_None: "submit f a s = None \<Longrightarrow> render (tag_text (tag_counter s)) (new_command a) = None"
  "start_operation f a stop s = None \<Longrightarrow> render (tag_text (tag_counter s)) (new_command a) = None"
  by (auto simp: submit_def start_operation_def make_cell_def allocate_tag_def op_attach_def new_cell_def)

lemma submit_batch_None:
  "submit_batch as s = None \<Longrightarrow> \<exists>a \<in> snd ` set as. \<exists>tag. render tag (new_command a) = None"
proof (induction as arbitrary: s)
  case (Cons p as)
  obtain f a where p: "p = (f, a)" by force
  show ?case
  proof (cases "submit f a s")
    case None
    from submit_None(1) [OF this] show ?thesis using p by auto
  next
    case (Some r)
    then show ?thesis using Cons by (cases r; cases "fst r") (auto simp: p)
  qed
qed simp

fun commands_of :: "action \<Rightarrow> command_args set" where
  "commands_of (Submit f a) = {a}"
| "commands_of (Submit_batch as) = snd ` set as"
| "commands_of (Start f a stop) = {a}"
| "commands_of _ = {}"



section \<open>Silence after destruction\<close>

text \<open>What an abandoned connection keeps: no registrations, and only the cells of the write.\<close>

definition silenced :: "'b core \<Rightarrow> bool" where
  "silenced s \<longleftrightarrow> abandoned s \<and> phase s \<noteq> Phase_open \<and> registry s = [] \<and> continuation_target s = None \<and>
     (\<forall>c \<in> set (write_queue s). op_staged c)"

fun is_value :: "event \<Rightarrow> bool" where
  "is_value (Value_delivered i ec r) = True"
| "is_value _ = False"

text \<open>A step of such a connection that invokes no handler with a value.\<close>

definition silent :: "'b core \<Rightarrow> 'b core \<Rightarrow> bool" where
  "silent s s' \<longleftrightarrow> silenced s' \<and> (\<exists>es. trace s' = trace s @ es \<and> \<not> list_ex is_value es)"

lemma silent_trans: "silent s s1 \<Longrightarrow> silent s1 s2 \<Longrightarrow> silent s s2"
  by (auto simp: silent_def)

lemma silent_same: "silenced s \<Longrightarrow> silenced s' \<Longrightarrow> trace s' = trace s \<Longrightarrow> silent s s'"
  by (auto simp: silent_def)

lemma silent_finish: "silenced s \<Longrightarrow> silent s (maybe_finish_close s)"
  by (auto simp: silent_def silenced_def maybe_finish_close_def)

lemma silent_emit: "silenced s \<Longrightarrow> \<not> list_ex is_value es \<Longrightarrow> silent s (emit es s)"
  by (auto simp: silent_def silenced_def)

lemma silent_lost: "silenced s \<Longrightarrow> silent s (connection_lost ec s)"
proof (cases "phase s = Phase_closed")
  case False
  assume s: "silenced s"
  then have e: "filter (\<lambda>c. \<not> op_staged c) (write_queue s) = []" by (auto simp: silenced_def filter_empty_conv)
  show ?thesis using s False
    by (simp add: connection_lost_eq e fail_cells_def) (auto simp: silent_def silenced_def maybe_finish_close_def)
qed (simp add: silent_same)

lemma silent_retire:
  assumes "silenced s" "extract_staged ids s = (cs, s1)"
  shows "silent s (maybe_finish_close (drop_cells cs (s1\<lparr>write_in_flight := False\<rparr>)))"
proof -
  obtain q where q: "s1 = s\<lparr>write_queue := q\<rparr>" "set q \<subseteq> set (write_queue s)"
    using extract_staged_mset [OF assms(2)] by blast
  let ?s = "drop_cells cs (s1\<lparr>write_in_flight := False\<rparr>)"
  have "\<not> list_ex is_value (map (\<lambda>c. Dropped (op_id c)) cs)" by (induction cs) simp_all
  then have "silent s ?s" using assms(1) q by (auto simp: silent_def silenced_def drop_cells_def)
  then show ?thesis using silent_trans silent_finish by (metis silent_def)
qed

lemma silent_dispatch:
  assumes s: "silenced s" and d: "dispatch f msg s = Some (ok, s')"
  shows "silent s s'"
proof (cases "parse_response msg")
  case None
  then show ?thesis using d silent_lost [OF s] by (auto simp: dispatch_def)
next
  case (Some p)
  show ?thesis
  proof (cases p)
    case (Tagged r)
    then have "s' = s" using d Some s by (auto simp: dispatch_def dispatch_tagged_def silenced_def)
    then show ?thesis using s by (simp add: silent_same)
  next
    case (Continuation t)
    then show ?thesis using d Some s silent_lost [OF s]
      by (auto simp: dispatch_def dispatch_continuation_def silenced_def)
  next
    case (Untagged r)
    define s1 where "s1 = (if ur_kind r = K_bye then s\<lparr>bye_received := True\<rparr> else s)"
    define s2 where "s2 = (case make_unsolicited_event r of None \<Rightarrow> s1
      | Some e \<Rightarrow> emit (map (\<lambda>h. Notified h e) (notify_snapshot (unsolicited s1))) s1)"
    have eq: "dispatch_untagged r s =
        (if command_scoped (ur_kind r)
         then map_option (\<lambda>q. (True, s2\<lparr>write_queue := q\<rparr>)) (offer r (write_queue s2))
         else map_option (\<lambda>s3. (True, s3)) (broadcast r (map snd (registry s2)) s2))"
      unfolding dispatch_untagged_def Let_def s2_def s1_def ..
    have s1: "silent s s1" using s by (auto simp: s1_def silent_def silenced_def)
    have "\<not> list_ex is_value (map (\<lambda>h. Notified h e) hs)" for e hs by (induction hs) simp_all
    then have s2: "silent s s2"
      using s1 silent_trans [OF s1 silent_emit] by (auto simp: s2_def silent_def split: option.split)
    then have reg: "registry s2 = []" by (simp add: silent_def silenced_def)
    have "silent s (s2\<lparr>write_queue := q\<rparr>)" if o: "offer r (write_queue s2) = Some q" for q
    proof -
      have "\<forall>c \<in> set q. op_staged c"
        using same_frame_ex(2) [OF offer_same [OF o]] s2 by (fastforce simp: silent_def silenced_def same_frame_def)
      then show ?thesis using s2 by (simp add: silent_def silenced_def)
    qed
    then show ?thesis using d Some Untagged s2 reg by (auto simp: dispatch_def eq split: if_splits)
  qed
qed

lemma silent_stop: "silenced s' \<Longrightarrow> trace s' = trace s \<Longrightarrow> silent s (on_read_stop s')"
  using silent_finish [of "s'\<lparr>read_running := False\<rparr>"]
  by (simp add: on_read_stop_def silent_def silenced_def)

lemma silent_round:
  assumes s: "silenced s" and e: "read_round ops f s = Some s'"
  shows "silent s s'"
proof -
  obtain lx res where n: "next_complete_response (framer s) (data_of ops (read_buffer s)) = Some (lx, res)"
    using e by (auto simp: read_round_def split: option.splits)
  have lx: "silenced (s\<lparr>framer := lx\<rparr>)" using s by (simp add: silenced_def)
  show ?thesis
  proof (cases res)
    case None
    then have "s' = on_read_stop (s\<lparr>framer := lx, reading := False\<rparr>)"
      using e n s by (simp add: read_round_def on_read_rearm_def silenced_def)
    then show ?thesis using s by (simp add: silent_stop silenced_def)
  next
    case (Some msg)
    then obtain ok s1 lx' b' where d: "dispatch f msg (s\<lparr>framer := lx\<rparr>) = Some (ok, s1)"
      and s': "s' = (if ok then s1\<lparr>framer := lx', read_buffer := b'\<rparr>
        else on_read_stop (s1\<lparr>framer := lx', read_buffer := b', reading := False\<rparr>))"
      using e n by (auto simp: read_round_def Let_def split: option.splits)
    have s1: "silent s s1" using silent_dispatch [OF lx d] by (simp add: silent_def)
    then have "silenced (s1\<lparr>framer := lx', read_buffer := b', reading := False\<rparr>)"
      by (simp add: silent_def silenced_def)
    then have "silent s1 (on_read_stop (s1\<lparr>framer := lx', read_buffer := b', reading := False\<rparr>))"
      by (simp add: silent_stop)
    moreover have "silent s (s1\<lparr>framer := lx', read_buffer := b'\<rparr>)" using s1 by (simp add: silent_def silenced_def)
    ultimately show ?thesis using s' s1 silent_trans by auto
  qed
qed

lemma silent_perform:
  assumes s: "silenced s" and e: "enabled a s" and p: "perform ops a s = Some s'"
  shows "silent s s'"
proof (cases a)
  case (Run_kick ec)
  then show ?thesis using p s by (auto simp: kick_receiver_def silent_def silenced_def)
next
  case (Arm_write f)
  then obtain staged where st: "arming s = Some staged" using e by auto
  obtain cs s1 where x: "extract_staged staged (s\<lparr>arming := None\<rparr>) = (cs, s1)" by fastforce
  have "silenced (s\<lparr>arming := None\<rparr>)" using s by (simp add: silenced_def)
  from silent_retire [OF this x]
  have "silent s (maybe_finish_close (drop_cells cs (s1\<lparr>write_in_flight := False\<rparr>)))"
    by (simp add: silent_def)
  moreover have "s' = maybe_finish_close (drop_cells cs (s1\<lparr>write_in_flight := False\<rparr>))"
    using Arm_write p st x s by (simp add: arm_write_def Let_def silenced_def)
  ultimately show ?thesis by simp
next
  case (Finish_write f ec)
  then obtain b staged where st: "armed_write s = Some (b, staged)" using e by auto
  let ?s0 = "s\<lparr>armed_write := None, write_in_flight := False\<rparr>"
  obtain cs s1 where x: "extract_staged staged ?s0 = (cs, s1)" by fastforce
  have s0: "silenced ?s0" using s by (simp add: silenced_def)
  obtain q where q: "s1 = ?s0\<lparr>write_queue := q\<rparr>" using extract_staged_mset [OF x] by blast
  have "s' = maybe_finish_close (drop_cells cs s1)"
    using Finish_write p st x s q by (cases "ec = No_error") (simp_all add: write_receiver_def on_write_done_def Let_def silenced_def)
  moreover have "s1\<lparr>write_in_flight := False\<rparr> = s1" by (simp add: q)
  ultimately show ?thesis using silent_retire [OF s0 x] by (simp add: silent_def)
next
  case (Run_stop n)
  then show ?thesis using p s
    by (auto simp: stopped_receiver_def silent_def silenced_def op_complete_stopped_def deliver_stopped_def
        split: list.splits)
next
  case (Finish_read ec chunk)
  then have "s' = on_read_stop (s\<lparr>armed_read := False\<rparr>)" using p s by (simp add: read_receiver_def silenced_def)
  then show ?thesis using s by (simp add: silent_stop silenced_def)
next
  case (Read_round f)
  then show ?thesis using p silent_round [OF s] by simp
next
  case (Request_stop f i)
  then show ?thesis using p s
    by (auto simp: request_stop_def on_stop_requested_def cancel_entry_def Let_def silent_def silenced_def
        on_cell_def split: option.splits if_splits)
qed (use e p s in \<open>auto simp: silenced_def silent_def reset_registration_def\<close>)

lemma abandon_silent:
  assumes "phase s \<noteq> Phase_closed"
  shows "silenced (abandon s) \<and> (\<exists>es. trace (abandon s) = trace s @ es \<and> \<not> list_ex is_value es)"
proof -
  have "\<not> list_ex is_value (map (\<lambda>c. Dropped (op_id c)) cs)" for cs by (induction cs) simp_all
  with assms show ?thesis
    by (auto simp: abandon_def take_cells_locked_def Let_def silenced_def maybe_finish_close_def drop_cells_def)
qed

lemma silent_run: "silenced s \<Longrightarrow> run ops as s = Some s' \<Longrightarrow> silent s s'"
proof (induction as arbitrary: s)
  case (Cons a as)
  then obtain s1 where e: "enabled a s" "perform ops a s = Some s1" "run ops as s1 = Some s'"
    by (auto split: if_splits option.splits)
  have "silent s s1" using silent_perform [OF Cons.prems(1) e(1,2)] .
  then show ?case using Cons.IH [OF _ e(3)] silent_trans by (metis silent_def)
qed (simp add: silent_same)

text \<open>
  C20. Destroying the context ends the session quietly: after the destruction of a context that is
  not closed yet, no run of the remaining completions, replies and errors invokes a handler with a
  value, neither for the queued operations nor for those in flight.
\<close>

theorem destroyed_silent:
  assumes "phase s \<noteq> Phase_closed" "run ops (Destroy # as) s = Some s'"
  shows "\<exists>es. trace s' = trace s @ es \<and> \<not> list_ex is_value es"
proof -
  have r: "run ops as (abandon s) = Some s'" using assms(2) by (auto split: if_splits)
  obtain es where es: "trace (abandon s) = trace s @ es" "\<not> list_ex is_value es" "silenced (abandon s)"
    using abandon_silent [OF assms(1)] by blast
  obtain fs where "trace s' = trace (abandon s) @ fs" "\<not> list_ex is_value fs"
    using silent_run [OF es(3) r] by (auto simp: silent_def)
  with es show ?thesis by auto
qed

definition destroy_tail :: "action list" where
  "destroy_tail = [Finish_write calm No_error, Finish_read No_error (''a0001 OK done'' @ CRLF)]"

theorem destroyed_silent_witness:
  "\<exists>s'. phase (after send_noop) \<noteq> Phase_closed \<and>
     run list_buffer (Destroy # destroy_tail) (after send_noop) = Some s' \<and>
     (\<exists>es. trace s' = trace (after send_noop) @ es \<and> \<not> list_ex is_value es)"
proof -
  have o: "phase (after send_noop) \<noteq> Phase_closed" by code_simp
  have "run list_buffer (Destroy # destroy_tail) (after send_noop) \<noteq> None" by code_simp
  then obtain s' where r: "run list_buffer (Destroy # destroy_tail) (after send_noop) = Some s'" by blast
  show ?thesis using o r destroyed_silent [OF o r] by blast
qed

section \<open>Where the close protocol falls short\<close>

lemma closed_step:
  assumes s: "core_inv s" and c: "phase s = Phase_closed" and e: "enabled a s" and p: "perform ops a s = Some s'"
  shows "phase s' = Phase_closed \<and> map op_id (write_queue s') = map op_id (write_queue s)"
proof -
  have idle: "\<not> armed_read s" "\<not> reading s" "armed_write s = None" "arming s = None"
    using s c unfolding core_inv_def pumps_ok_def by blast+
  have enq: "phase (snd (enqueue_operation f d t k u)) = Phase_closed \<and>
      map op_id (write_queue (snd (enqueue_operation f d t k u))) = map op_id (write_queue u)"
    if "phase u = Phase_closed" for f d t k and u :: "'a core"
    using that by (simp add: enqueue_operation_def)
  have sub: "phase u' = Phase_closed \<and> map op_id (write_queue u') = map op_id (write_queue u)"
    if o: "phase u = Phase_closed" and x: "submit f x u = Some (t, u')" for f x t and u u' :: "'a core"
  proof -
    obtain d tag u1 where m: "make_cell x True False u = Some (d, tag, u1)"
      and q: "enqueue_operation f d tag False u1 = (t, u')" using x by (auto simp: submit_def)
    then show ?thesis using make_cell_Some [OF m] enq [of u1 f d tag False] o by simp
  qed
  have batch: "phase u' = Phase_closed \<and> map op_id (write_queue u') = map op_id (write_queue u)"
    if "phase u = Phase_closed" "submit_batch xs u = Some u'" for xs and u u' :: "'a core"
    using that
  proof (induction xs arbitrary: u)
    case (Cons x xs)
    obtain f y where x: "x = (f, y)" by force
    from Cons.prems(2) obtain t u1 where "submit f y u = Some (t, u1)" by (auto simp: x split: option.splits)
    with Cons sub [OF Cons.prems(1) this] show ?case by (cases t) (auto simp: x drop_batch_def)
  qed simp
  show ?thesis
  proof (cases a)
    case (Submit f x)
    then show ?thesis using p sub [OF c] by auto
  next
    case (Submit_batch xs)
    then show ?thesis using p batch [OF c] by auto
  next
    case (Start f x stop)
    then obtain d tag s1 t where m: "make_cell x False stop s = Some (d, tag, s1)"
      and q: "enqueue_operation f d tag True s1 = (t, s')" using p by (auto simp: start_operation_def)
    then show ?thesis using make_cell_Some [OF m] enq [of s1 f d tag True] c by simp
  next
    case (Request_stop f i)
    then show ?thesis using p c
      by (auto simp: request_stop_def on_stop_requested_def cancel_entry_def Let_def split: option.splits if_splits)
  qed (use e p c idle in \<open>auto simp: flush_def post_kick_def cancel_def cancel_entry_def on_unsolicited_def
      reset_registration_def close_def abandon_def suspend_read_for_relocation_def kick_receiver_def kick_def
      stopped_receiver_def Let_def split: prod.splits list.splits\<close>)
qed

lemma closed_run:
  "core_inv s \<Longrightarrow> phase s = Phase_closed \<Longrightarrow> run ops as s = Some s' \<Longrightarrow>
     core_inv s' \<and> map op_id (write_queue s') = map op_id (write_queue s)"
proof (induction as arbitrary: s)
  case (Cons a as)
  then obtain s1 where e: "enabled a s" "perform ops a s = Some s1" "run ops as s1 = Some s'"
    by (auto split: if_splits option.splits)
  have "core_inv s1" using perform_inv [OF Cons.prems(1) e(1,2)] .
  moreover note closed_step [OF Cons.prems(1,2) e(1,2)]
  ultimately show ?case using Cons.IH [OF _ _ e(3)] by simp
qed simp

lemma stranded:
  assumes "reachable ops s" "phase s = Phase_closed" "i \<in> set (map op_id (write_queue s))" "run ops as s = Some s'"
  shows "i \<notin> set (terminals (trace s'))"
proof -
  have c: "core_inv s'" "map op_id (write_queue s') = map op_id (write_queue s)"
    using closed_run [OF reachable_inv [OF assms(1)] assms(2,4)] by simp_all
  have "mset (map op_id (write_queue s') @ map op_id (posted_stops s') @ terminals (trace s')) = mset [0 ..< next_id s']"
    using c(1) by (simp add: core_inv_def ledger_def account_def ac_simps)
  then have "distinct (map op_id (write_queue s') @ map op_id (posted_stops s') @ terminals (trace s'))"
    using mset_eq_imp_distinct_iff distinct_upt by blast
  then show ?thesis using assms(3) c(2) by auto
qed

text \<open>Two runs that end closed with an operation still in the queue: a written command when the
  pending read completes with data after \<open>close()\<close>, and a staged command when the write cannot be
  armed for lack of memory.\<close>

definition data_after_close :: "action list" where
  "data_after_close = send_noop @ [Finish_write calm No_error, Close,
     Finish_read No_error (''* 3 EXISTS'' @ CRLF), Read_round calm, Read_round calm]"

definition write_not_armed :: "action list" where
  "write_not_armed = [Submit calm Noop, Flush calm, Run_kick No_error,
     Arm_write (calm\<lparr>no_write_slot := True\<rparr>), Finish_read No_error []]"

text \<open>
  C36. An operation can be lost: when the pending read completes with data after \<open>close()\<close>, or when
  arming a write fails for lack of memory, the connection ends closed while the operation is still
  in the queue, and then no further run of calls and completions ever completes it, although the
  close protocol promises to fail written operations when the read side dies.
\<close>

theorem operation_lost:
  assumes "as = data_after_close \<or> as = write_not_armed" "run list_buffer later (after as) = Some s'"
  shows "reachable list_buffer (after as) \<and> phase (after as) = Phase_closed \<and> 0 < next_id (after as) \<and>
    0 \<notin> set (terminals (trace s'))"
proof -
  have d: "reachable list_buffer (after data_after_close)" "phase (after data_after_close) = Phase_closed"
      "0 \<in> set (map op_id (write_queue (after data_after_close)))" "0 < next_id (after data_after_close)"
    by (rule reachable_after, code_simp) code_simp+
  have w: "reachable list_buffer (after write_not_armed)" "phase (after write_not_armed) = Phase_closed"
      "0 \<in> set (map op_id (write_queue (after write_not_armed)))" "0 < next_id (after write_not_armed)"
    by (rule reachable_after, code_simp) code_simp+
  show ?thesis using assms d w stranded [OF d(1-3)] stranded [OF w(1-3)] by blast
qed

theorem operation_lost_witness:
  "\<exists>s'. run list_buffer [Submit calm Noop, Close] (after data_after_close) = Some s' \<and>
     phase (after data_after_close) = Phase_closed \<and> 0 \<notin> set (terminals (trace s'))"
proof -
  have "run list_buffer [Submit calm Noop, Close] (after data_after_close) \<noteq> None" by code_simp
  then obtain s' where r: "run list_buffer [Submit calm Noop, Close] (after data_after_close) = Some s'" by blast
  show ?thesis using operation_lost [OF disjI1 [OF refl] r] r by blast
qed

text \<open>
  Closing while a write is in flight leaves a registry entry to a cell that the completion of
  the write destroys: a following untagged status response, which is well formed and is dispatched
  because the connection only drains, follows the pointer to the destroyed cell.
\<close>

theorem close_leaves_dangling_entry:
  "\<exists>s r. run list_buffer (send_noop @ [Close, Finish_write calm No_error,
        Finish_read No_error (''* OK still here'' @ CRLF)]) fresh_core = Some s \<and>
     phase s = Phase_draining \<and> enabled (Read_round calm) s \<and>
     parse_response ''* OK still here'' = Some (Untagged r) \<and> ur_kind r = K_ok \<and>
     write_queue s = [] \<and> registry s = [(''a0001'', 0)] \<and>
     perform list_buffer (Read_round calm) s = None"
proof -
  define as where "as = send_noop @ [Close, Finish_write calm No_error,
        Finish_read No_error (''* OK still here'' @ CRLF)]"
  have "run list_buffer as fresh_core \<noteq> None" unfolding as_def by code_simp
  then have r: "run list_buffer as fresh_core = Some (after as)" by (auto simp: after_def)
  have p: "parse_response ''* OK still here'' =
      Some (Untagged (default_untagged\<lparr>ur_kind := K_ok, ur_status := St_ok, ur_text := ''still here''\<rparr>))"
    by code_simp
  have a: "phase (after as) = Phase_draining \<and> enabled (Read_round calm) (after as) \<and>
      write_queue (after as) = [] \<and> registry (after as) = [(''a0001'', 0)] \<and>
      perform list_buffer (Read_round calm) (after as) = None"
    unfolding as_def by code_simp
  show ?thesis unfolding as_def [symmetric] using r p a by (intro exI [of _ "after as"] exI) auto
qed

section \<open>Replies reach their operation\<close>

text \<open>
  C15. A tagged reply completes exactly its operation: on an open connection, when the tag of the
  reply is registered, the operation with this tag is the one that leaves the queue and receives
  the mapped result as its single terminal event; the connection goes on, the tag is forgotten, and
  every other operation, posted completion and registration stays as it is. A reply whose tag is
  not registered changes nothing.
\<close>

theorem tagged_delivery:
  assumes "reachable ops s" "phase s = Phase_open"
  shows "case map_of (registry s) (tr_tag r) of
      None \<Rightarrow> dispatch_tagged r s = (True, s)
    | Some i \<Rightarrow>
        (\<exists>c s' pre post e. dispatch_tagged r s = (True, s') \<and> op_id c = i \<and> op_tag c = tr_tag r \<and>
           write_queue s = pre @ c # post \<and> write_queue s' = pre @ post \<and>
           snd (op_on_tagged r c) = [e] \<and> terminal_id e = Some i \<and> trace s' = trace s @ [e] \<and>
           posted_stops s' = posted_stops s \<and> phase s' = Phase_open \<and>
           (\<forall>t. map_of (registry s') t = (if t = tr_tag r then None else map_of (registry s) t)))"
proof (cases "map_of (registry s) (tr_tag r)")
  case (Some i)
  have s: "core_inv s" by (rule reachable_inv [OF assms(1)])
  then have sd: "sound s" "links_ok s" by (simp_all add: core_inv_sound sound_def routes_ok_def)
  obtain c where f: "find_cell i s = Some c"
    using link_found [OF sd(2) assms(2) map_of_SomeD [OF Some]] by auto
  have c: "c \<in> set (write_queue s)" "op_id c = i" using find_cell_Some [OF f] by simp_all
  have t: "op_tag c = tr_tag r" using tagged_route [OF sd(1) Some assms(2) c] by simp
  have d: "distinct (map op_id (write_queue s))" using s distinct_queue by (auto simp: core_inv_def)
  obtain pre post where q: "write_queue s = pre @ c # post" using split_list [OF c(1)] by blast
  have "i \<notin> op_id ` set pre" using d c(2) by (auto simp: q)
  then have sp: "splice_cell i (pre @ c # post) = (Some c, pre @ post)"
    using c(2) by (induction pre) auto
  have "\<not> op_finished c" using s c(1) by (auto simp: core_inv_def ledger_def live_cells_def)
  then obtain e where e: "snd (op_on_tagged r c) = [e]" "terminal_id e = Some i"
    using tagged_shot.first [of c r] c(2) by force
  have reg: "map_of (reg_erase u reg) t = (if t = u then None else map_of reg t)" for u t and reg :: "(octets \<times> nat) list"
    by (induction reg) (auto simp: reg_erase_def)
  let ?s' = "emit [e] (s\<lparr>registry := reg_erase (tr_tag r) (registry s),
    continuation_target := (if continuation_target s = Some i then None else continuation_target s),
    write_queue := pre @ post\<rparr>)"
  have disp: "dispatch_tagged r s = (True, ?s')"
    using Some sp e(1) by (simp add: dispatch_tagged_def Let_def extract_from_queue_locked_def q)
  show ?thesis
    unfolding Some option.case
    by (rule exI [of _ c], rule exI [of _ ?s'], rule exI [of _ pre], rule exI [of _ post], rule exI [of _ e])
      (use disp c(2) t q e assms(2) reg in simp)
qed (simp add: dispatch_tagged_def)

theorem tagged_delivery_witness:
  "reachable list_buffer (after send_noop) \<and>
   (\<exists>c s' pre post e. dispatch_tagged \<lparr>tr_tag = ''a0001'', tr_status = St_no, tr_code = None, tr_text = []\<rparr>
        (after send_noop) = (True, s') \<and>
      op_id c = 0 \<and> op_tag c = ''a0001'' \<and> write_queue (after send_noop) = pre @ c # post \<and>
      write_queue s' = pre @ post \<and> terminal_id e = Some 0 \<and> trace s' = trace (after send_noop) @ [e])"
proof -
  have r: "reachable list_buffer (after send_noop)" by (rule reachable_after) code_simp
  have o: "phase (after send_noop) = Phase_open" by code_simp
  have m: "map_of (registry (after send_noop)) ''a0001'' = Some 0" by code_simp
  show ?thesis
    using tagged_delivery [OF r o, of "\<lparr>tr_tag = ''a0001'', tr_status = St_no, tr_code = None, tr_text = []\<rparr>"] r m
    by (simp, blast)
qed

section \<open>Cancellation\<close>

definition untouched :: "cell \<Rightarrow> bool" where
  "untouched c \<longleftrightarrow> \<not> op_has_written c \<and> \<not> op_is_written c \<and> \<not> op_staged c \<and> \<not> op_awaits_continuation c"

lemma reg_erase_find [simp]: "map_of (reg_erase u reg) u = None"
  by (induction reg) (auto simp: reg_erase_def)

lemma find_updated:
  "find_cell i s = Some c \<Longrightarrow> op_id (g c) = op_id c \<Longrightarrow> find_cell i (update_cell i g s) = Some (g c)"
proof -
  have "List.find (\<lambda>c. op_id c = i) q = Some c \<Longrightarrow> op_id (g c) = op_id c \<Longrightarrow>
      List.find (\<lambda>c. op_id c = i) (on_cell i g q) = Some (g c)" for q
    by (induction q) (auto simp: on_cell_def split: if_splits)
  then show "find_cell i s = Some c \<Longrightarrow> op_id (g c) = op_id c \<Longrightarrow> ?thesis" by (simp add: find_cell_def)
qed

lemma dropped_reply: "map_of (registry s) t = None \<Longrightarrow> tr_tag r = t \<Longrightarrow> dispatch_tagged r s = (True, s)"
  by (simp add: dispatch_tagged_def)

text \<open>The state behind a detachment, case by case.\<close>

lemma detach_cases:
  assumes s: "core_inv s" and f: "find_cell i s = Some c"
  shows "untouched c \<or> (\<not> fst (op_cancel_written c) \<and> op_is_written c) \<Longrightarrow>
      \<exists>q. detach_locked tag i s = Some (Some c, False, s\<lparr>registry := reg_erase tag (registry s), write_queue := q\<rparr>) \<and>
         i \<notin> op_id ` set q"
    and "\<not> untouched c \<Longrightarrow> fst (op_cancel_written c) \<Longrightarrow>
      detach_locked tag i s = Some (None, True, update_cell i (\<lambda>c. snd (op_cancel_written c)) s)"
    and "\<not> untouched c \<Longrightarrow> \<not> fst (op_cancel_written c) \<Longrightarrow> \<not> op_is_written c \<Longrightarrow>
      detach_locked tag i s =
        Some (None, False, update_cell i op_mark_detached (s\<lparr>registry := reg_erase tag (registry s)\<rparr>))"
proof -
  let ?e = "s\<lparr>registry := reg_erase tag (registry s)\<rparr>"
  have l: "ledger ?e" using s by (simp add: core_inv_def)
  have fe: "find_cell i ?e = Some c" using f by (simp add: find_cell_def)
  obtain d s' where ex: "extract_from_queue_locked i ?e = (Some d, s')" using extract_found [OF fe] by blast
  have d: "d = c" using extract_Some_find [OF l ex fe] .
  obtain q where q: "s' = ?e\<lparr>write_queue := q\<rparr>" "mset (write_queue s) = add_mset c (mset q)" "op_id c = i"
    using extract_Some [OF ex] d by auto
  have "distinct (map op_id (write_queue s))" using distinct_queue [OF l] by simp
  moreover have "mset (map op_id (write_queue s)) = mset (map op_id (c # q))" using q(2) by simp
  ultimately have "distinct (map op_id (c # q))" using mset_eq_imp_distinct_iff by blast
  then have i: "i \<notin> op_id ` set q" using q(3) by simp
  show "untouched c \<or> (\<not> fst (op_cancel_written c) \<and> op_is_written c) \<Longrightarrow>
      \<exists>q. detach_locked tag i s = Some (Some c, False, s\<lparr>registry := reg_erase tag (registry s), write_queue := q\<rparr>) \<and>
         i \<notin> op_id ` set q"
    using f ex d q(1) i by (intro exI [of _ q]) (auto simp: detach_locked_def untouched_def Let_def)
qed (use f in \<open>auto simp: detach_locked_def untouched_def Let_def\<close>)

text \<open>
  C17. Cancellation has three granularities: for a registered operation of an open connection,
  cancel posts the stop completion of an operation whose bytes never reached the wire, or which is
  fully written, and removes it, and its tagged reply is dropped on arrival; an operation that ends
  itself (IDLE) stays registered with its DONE requested and the write pump kicked; an operation
  in the middle of its handshake stays in the queue as detached, unregistered, so that the wire
  stays consistent.
\<close>

theorem cancel_granularity:
  assumes "reachable ops s" "phase s = Phase_open" "map_of (registry s) tag = Some i"
    and "find_cell i s = Some c" "\<not> no_stop_slot f i" "\<not> no_kick_slot f" "cancel f tag s = Some s'"
  shows "if untouched c \<or> (\<not> fst (op_cancel_written c) \<and> op_is_written c) then
       posted_stops s' = posted_stops s @ [c] \<and> i \<notin> op_id ` set (write_queue s') \<and>
       (\<forall>r. tr_tag r = tag \<longrightarrow> dispatch_tagged r s' = (True, s'))
     else if fst (op_cancel_written c) then
       registry s' = registry s \<and> (kick_posted s' \<or> write_in_flight s') \<and>
       find_cell i s' = Some (snd (op_cancel_written c))
     else
       find_cell i s' = Some (op_mark_detached c) \<and> posted_stops s' = posted_stops s \<and>
       (\<forall>r. tr_tag r = tag \<longrightarrow> dispatch_tagged r s' = (True, s'))"
proof -
  have s: "core_inv s" by (rule reachable_inv [OF assms(1)])
  note d = detach_cases [OF s assms(4), of tag]
  have ids: "op_id c = i" "c \<in> set (write_queue s)" using find_cell_Some [OF assms(4)] by simp_all
  have run: "\<exists>r k s1. detach_locked tag i s = Some (r, k, s1) \<and> s' = finish_cancellation f r k s1"
    using assms(2,3,7) by (auto simp: cancel_def cancel_entry_def find_and_detach_locked_def)
  show ?thesis
  proof (cases "untouched c \<or> (\<not> fst (op_cancel_written c) \<and> op_is_written c)")
    case True
    then show ?thesis using d(1) run assms(5) ids
      by (auto simp: finish_cancellation_def post_complete_stopped_def dispatch_tagged_def)
  next
    case False
    have q: "on_cell i g (write_queue s) \<noteq> []" for g using ids(2) by (auto simp: on_cell_def)
    show ?thesis
    proof (cases "fst (op_cancel_written c)")
      case True
      let ?u = "update_cell i (\<lambda>c. snd (op_cancel_written c)) s"
      have "s' = post_kick f ?u" using d(2) run False True by (auto simp: finish_cancellation_def)
      moreover have "find_cell i ?u = Some (snd (op_cancel_written c))"
        by (rule find_updated [OF assms(4)]) (simp add: cell_frame)
      ultimately show ?thesis using False True assms(2,6) q by (auto simp: post_kick_def find_cell_def)
    next
      case f: False
      let ?e = "s\<lparr>registry := reg_erase tag (registry s)\<rparr>"
      let ?u = "update_cell i op_mark_detached ?e"
      have "s' = ?u" using d(3) run False f by (auto simp: finish_cancellation_def)
      moreover have "find_cell i ?e = Some c" using assms(4) by (simp add: find_cell_def)
      then have "find_cell i ?u = Some (op_mark_detached c)"
        by (rule find_updated) (simp add: cell_frame)
      ultimately show ?thesis using False f by (simp add: dispatch_tagged_def)
    qed
  qed
qed

definition written_noop :: "octets core" where
  "written_noop = after (send_noop @ [Finish_write calm No_error])"

theorem cancel_granularity_witness:
  "\<exists>c s'. reachable list_buffer written_noop \<and> find_cell 0 written_noop = Some c \<and> op_is_written c \<and>
     cancel calm ''a0001'' written_noop = Some s' \<and> posted_stops s' = [c] \<and>
     (\<forall>r. tr_tag r = ''a0001'' \<longrightarrow> dispatch_tagged r s' = (True, s'))"
proof -
  have r: "reachable list_buffer written_noop" unfolding written_noop_def by (rule reachable_after) code_simp
  have o: "phase written_noop = Phase_open" "map_of (registry written_noop) ''a0001'' = Some 0"
    "posted_stops written_noop = []" by code_simp+
  have "find_cell 0 written_noop \<noteq> None" "cancel calm ''a0001'' written_noop \<noteq> None" by code_simp+
  then obtain c s' where c: "find_cell 0 written_noop = Some c" "cancel calm ''a0001'' written_noop = Some s'" by blast
  have "map_option op_is_written (find_cell 0 written_noop) = Some True"
    "map_option (\<lambda>c. fst (op_cancel_written c)) (find_cell 0 written_noop) = Some False" by code_simp+
  then have w: "op_is_written c" "\<not> fst (op_cancel_written c)" using c(1) by simp_all
  have f: "\<not> no_stop_slot calm 0" "\<not> no_kick_slot calm" by (simp_all add: calm_def)
  show ?thesis
    using cancel_granularity [OF r o(1,2) c(1) f c(2)] r c w o(3) by (intro exI [of _ c] exI [of _ s']) simp
qed

section \<open>Tags\<close>

lemma zero_digit: "digit_val (CHR ''0'') = 0" "is_digit (CHR ''0'')"
  by code_simp+

lemma zeros_value: "dec_value_from 0 (replicate k (CHR ''0'') @ ds) = dec_value_from 0 ds"
  by (induction k) (simp_all add: zero_digit)

lemma tag_text_inj: "tag_text m = tag_text n \<Longrightarrow> m = n"
proof -
  have v: "dec_value (tl (tag_text k)) = k" for k
  proof -
    have t: "tl (tag_text k) = replicate (4 - length (to_chars k)) (CHR ''0'') @ to_chars k"
      by (simp add: tag_text_def Let_def)
    show ?thesis unfolding t zeros_value by (rule dec_value_to_chars)
  qed
  assume "tag_text m = tag_text n"
  then have "dec_value (tl (tag_text m)) = dec_value (tl (tag_text n))" by (rule arg_cong)
  then show ?thesis unfolding v .
qed

lemma mod_Suc_cancel: "(1 + k) mod m = (1 + l) mod m \<longleftrightarrow> k mod m = (l :: nat) mod m"
proof -
  have "int ((1 + k) mod m) = int ((1 + l) mod m) \<longleftrightarrow> int (k mod m) = int (l mod m)"
    unfolding zmod_int mod_eq_dvd_iff by simp
  then show ?thesis by (simp only: of_nat_eq_iff)
qed

lemma counter_after: "tag_counter (((\<lambda>s. snd (allocate_tag s)) ^^ k) (new_core b)) = wrap64 (1 + k)"
proof (induction k)
  case 0
  show ?case by (simp add: new_core_def wrap64_def)
next
  case (Suc k)
  then show ?case by (simp add: allocate_tag_def wrap64_def mod_Suc_eq)
qed

text \<open>
  C28. Tags identify commands: the tags of the k-th and of the l-th command of a connection are the
  same exactly when k and l are equal modulo two to the 64, so that no two of the first two to the
  64 commands share a tag, and the counter wraps around to the first tag after that.
\<close>

theorem tags_unique:
  "fst (allocate_tag (((\<lambda>s. snd (allocate_tag s)) ^^ k) (new_core b))) =
   fst (allocate_tag (((\<lambda>s. snd (allocate_tag s)) ^^ l) (new_core b))) \<longleftrightarrow>
   k mod 2 ^ 64 = l mod 2 ^ 64"
proof -
  have t: "fst (allocate_tag s) = tag_text (tag_counter s)" for s :: "'a core" by (simp add: allocate_tag_def)
  have "tag_text (wrap64 (1 + k)) = tag_text (wrap64 (1 + l)) \<longleftrightarrow> wrap64 (1 + k) = wrap64 (1 + l)"
    by (rule iffI [OF tag_text_inj arg_cong])
  also have "\<dots> \<longleftrightarrow> k mod 2 ^ 64 = l mod 2 ^ 64" unfolding wrap64_def by (rule mod_Suc_cancel)
  finally show ?thesis unfolding t counter_after .
qed

section \<open>From the octets of a reply to its operation\<close>

text \<open>The response is framed, parsed and handed to the operation that its tag is registered for.\<close>

lemma reply_round:
  assumes "reachable ops s" "phase s = Phase_open" "framer s = init_lexer" "buffer_ok ops"
    and "framed msg" "data_of ops (read_buffer s) = msg @ CRLF @ rest"
    and "parse_response msg = Some (Tagged r)" "map_of (registry s) (tr_tag r) = Some i"
  shows "\<exists>s' c e. read_round ops f s = Some s' \<and> c \<in> set (write_queue s) \<and> op_id c = i \<and>
    snd (op_on_tagged r c) = [e] \<and> terminal_id e = Some i \<and> trace s' = trace s @ [e] \<and>
    data_of ops (read_buffer s') = rest \<and> framer s' = init_lexer"
proof -
  have s: "core_inv s" "sound s" "links_ok s"
    using reachable_inv [OF assms(1)] by (simp_all add: core_inv_sound sound_def routes_ok_def)
  obtain lx where sc: "scan init_lexer (msg @ CRLF @ rest) = (lx, Some msg)" "response_end lx = length msg + 2"
    using framed_scan [OF assms(5), of "[]" rest] by (auto simp: init_at_line)
  let ?s = "s\<lparr>framer := lx\<rparr>"
  have sd: "sound ?s" and op: "phase ?s = Phase_open" and m: "map_of (registry ?s) (tr_tag r) = Some i"
    using s assms(2,8) by simp_all
  obtain c where f: "find_cell i s = Some c" using link_found [OF s(3) assms(2) map_of_SomeD [OF assms(8)]] by auto
  have c: "c \<in> set (write_queue s)" "op_id c = i" using find_cell_Some [OF f] by simp_all
  have "\<not> op_finished c" using s(1) c(1) by (auto simp: core_inv_def ledger_def live_cells_def)
  then obtain e where e: "snd (op_on_tagged r c) = [e]" "terminal_id e = Some i"
    using tagged_shot.first [of c r] c(2) by force
  let ?s1 = "?s\<lparr>registry := reg_erase (tr_tag r) (registry s),
    continuation_target := (if continuation_target s = Some i then None else continuation_target s)\<rparr>"
  have l1: "ledger ?s1" using s(1) by (simp add: core_inv_def)
  have f1: "find_cell i ?s1 = Some c" using f by (simp add: find_cell_def)
  obtain d s2 where x: "extract_from_queue_locked i ?s1 = (Some d, s2)" using extract_found [OF f1] by blast
  have "d = c" using extract_Some_find [OF l1 x f1] .
  then have "dispatch_tagged r ?s = (True, emit [e] s2)"
    using m x e(1) by (cases "continuation_target s = Some i") (simp_all add: dispatch_tagged_def Let_def)
  then have d: "dispatch f msg ?s = Some (True, emit [e] s2)" using assms(7) by (simp add: dispatch_def)
  have s2: "framer s2 = lx" "read_buffer s2 = read_buffer s" "trace s2 = trace s"
    using extract_Some [OF x] by auto
  let ?s3 = "(emit [e] s2)\<lparr>framer := reset lx, read_buffer := consume_of ops (read_buffer s) (length msg + 2)\<rparr>"
  have "read_round ops f s = Some ?s3"
    using sc d s2 assms(3,6) by (simp add: read_round_def next_complete_response_def consume_response_def)
  moreover have "data_of ops (consume_of ops (read_buffer s) (length msg + 2)) = rest"
    using assms(4,6) by simp
  ultimately show ?thesis using c e s2
    by (intro exI [of _ ?s3] exI [of _ c] exI [of _ e]) simp
qed

text \<open>
  A reply in the read buffer completes its operation: when the buffer of an open connection
  starts with a well-framed response that parses as a tagged reply of a registered operation, one
  round of the read loop frames and parses it, hands it to this operation, whose single terminal
  event is the mapped result, and drops exactly the octets of the response.
\<close>

theorem reply_in_buffer:
  assumes "reachable ops s" "phase s = Phase_open" "framer s = init_lexer" "buffer_ok ops"
    and "framed msg" "data_of ops (read_buffer s) = msg @ CRLF @ rest"
    and "parse_response msg = Some (Tagged r)" "map_of (registry s) (tr_tag r) = Some i"
  shows "\<exists>s' c e. read_round ops f s = Some s' \<and> c \<in> set (write_queue s) \<and> op_id c = i \<and>
    snd (op_on_tagged r c) = [e] \<and> terminal_id e = Some i \<and> trace s' = trace s @ [e] \<and>
    data_of ops (read_buffer s') = rest \<and> framer s' = init_lexer"
  using reply_round [OF assms] .

definition reply_waits :: "octets core" where
  "reply_waits = after (send_noop @ [Finish_write calm No_error, Finish_read No_error (''a0001 OK done'' @ CRLF @ ''*'')])"

theorem reply_in_buffer_witness:
  "\<exists>s' c e. reachable list_buffer reply_waits \<and> framed ''a0001 OK done'' \<and>
     read_round list_buffer calm reply_waits = Some s' \<and> c \<in> set (write_queue reply_waits) \<and> op_id c = 0 \<and>
     terminal_id e = Some 0 \<and> trace s' = trace reply_waits @ [e] \<and> data_of list_buffer (read_buffer s') = ''*''"
proof -
  let ?r = "\<lparr>tr_tag = ''a0001'', tr_status = St_ok, tr_code = None, tr_text = ''done''\<rparr>"
  have r: "reachable list_buffer reply_waits" unfolding reply_waits_def by (rule reachable_after) code_simp
  have o: "phase reply_waits = Phase_open" "framer reply_waits = init_lexer"
    "data_of list_buffer (read_buffer reply_waits) = ''a0001 OK done'' @ CRLF @ ''*''"
    "parse_response ''a0001 OK done'' = Some (Tagged ?r)"
    "map_of (registry reply_waits) (tr_tag ?r) = Some 0" by code_simp+
  have f: "framed ''a0001 OK done''" by (rule framed.plain) (code_simp, code_simp)
  show ?thesis
    using reply_in_buffer [OF r o(1,2) list_buffer_ok(1) f o(3-5), of calm] r f by blast
qed

end
