(* ===== verification/Encoded_Word.thy ===== *)
theory Encoded_Word
  imports Mail_Header Commands
begin

unbundle bit_operations_syntax

text \<open>
  The RFC 2047 decoder against the base64 encoder of the commands: what
  \<open>authenticate_command::append_base64\<close> would write inside an encoded word is what
  \<open>decode_encoded_words\<close> reads, words that are separated by white space only are joined, and
  text without encoded words is left as it is.
\<close>

lemma mime_values: "map mime_base64_value b64_alphabet = map int [0 ..< 64]"
  by code_simp

lemma mime_value_digit [simp]: "mime_base64_value (b64_digit n s) = int (n div 2 ^ s mod 64)"
proof -
  have i: "n div 2 ^ s mod 64 < 64" by simp
  then have "map mime_base64_value b64_alphabet ! (n div 2 ^ s mod 64) = int (n div 2 ^ s mod 64)"
    unfolding mime_values by simp
  then show ?thesis using i b64_alphabet_facts(2) by (simp add: b64_digit_def)
qed

lemma mime_value_pad [simp]: "mime_base64_value (CHR ''='') = - 2"
  by (simp add: mime_base64_value_def less_eq_char_def)

text \<open>The two halves of an octet do not overlap, so that the disjunction is a sum.\<close>

lemma or_plus:
  assumes "y < 2 ^ n" shows "push_bit n (int x) OR int y = int (x * 2 ^ n + y)"
proof -
  have "\<not> bit (push_bit n (int x)) k \<or> \<not> bit (int y) k" for k
  proof (cases "k < n")
    case False
    then have "(2 :: nat) ^ n \<le> 2 ^ k" by (intro power_increasing) simp_all
    then have "y < 2 ^ k" by (rule less_le_trans [OF assms])
    then have "\<not> bit y k" by (simp add: bit_nat_iff bit_iff_odd)
    then show ?thesis by (simp add: bit_of_nat_iff)
  qed (simp add: bit_push_bit_iff)
  then show ?thesis by (subst disjunctive_add [symmetric]) (simp_all add: push_bit_eq_mult)
qed

lemma group_bytes:
  fixes a b c :: nat
  assumes "a < 256" "b < 256" "c < 256"
  defines "v0 \<equiv> a div 4" and "v1 \<equiv> a mod 4 * 16 + b div 16" and "v2 \<equiv> b mod 16 * 4 + c div 64"
    and "v3 \<equiv> c mod 64"
  shows "push_bit 2 (int v0) OR drop_bit 4 (int v1) = int a"
    "push_bit 4 (int v1 AND 0xF) OR drop_bit 2 (int v2) = int b"
    "push_bit 6 (int v2 AND 0x3) OR int v3 = int c"
proof -
  have s: "v1 < 64" "v2 < 64" "v3 < 64"
    using assms less_mult_imp_div_less [of b 16 16] less_mult_imp_div_less [of c 4 64]
    by (auto simp: v1_def v2_def v3_def)
  have m: "int v1 AND 0xF = int (v1 mod 16)" "int v2 AND 0x3 = int (v2 mod 4)"
    using take_bit_eq_mask [of 4 "int v1"] take_bit_eq_mask [of 2 "int v2"]
    by (simp_all add: take_bit_eq_mod mask_eq_exp_minus_1 zmod_int)
  have d: "drop_bit 4 (int v1) = int (v1 div 16)" "drop_bit 2 (int v2) = int (v2 div 4)"
    by (simp_all add: drop_bit_eq_div zdiv_int)
  have lt: "v1 div 16 < 2 ^ 2" "v2 div 4 < 2 ^ 4" "v3 < 2 ^ 6"
    using s by (simp_all add: less_mult_imp_div_less)
  note o = b64_octets [OF assms(1-3), folded v0_def v1_def v2_def v3_def]
  show "push_bit 2 (int v0) OR drop_bit 4 (int v1) = int a"
    unfolding d or_plus [OF lt(1)] using o(1) by simp
  show "push_bit 4 (int v1 AND 0xF) OR drop_bit 2 (int v2) = int b"
    unfolding d m or_plus [OF lt(2)] using o(2) by simp
  show "push_bit 6 (int v2 AND 0x3) OR int v3 = int c"
    unfolding m or_plus [OF lt(3)] using o(3) by simp
qed

lemma char_of_int: "char_of (int (of_char c)) = c"
  by (metis char_of_char of_char_of of_nat_of_char)

lemma decode_b_base64: "decode_b (append_base64 v) = Some v"
proof (induction v rule: append_base64.induct)
  case (1 a b c rest)
  note g = group_bytes [of "of_char a" "of_char b" "of_char c", OF of_char_less of_char_less of_char_less]
  show ?case
    using 1 g b64_digits_of_group [of "of_char a" "of_char b" "of_char c"]
    by (simp add: Let_def base64_group_def char_of_int)
next
  case (2 a b)
  note g = group_bytes [of "of_char a" "of_char b" 0, OF of_char_less of_char_less]
  show ?case
    using g b64_digits_of_group [of "of_char a" "of_char b" 0]
    by (simp add: Let_def base64_group_def char_of_int)
next
  case (3 a)
  note g = group_bytes [of "of_char a" 0 0, OF of_char_less]
  show ?case
    using g b64_digits_of_group [of "of_char a" 0 0] by (simp add: Let_def base64_group_def char_of_int)
qed simp

definition b_word :: "octets \<Rightarrow> octets \<Rightarrow> octets" where
  "b_word cs d = word_of cs (CHR ''B'') (append_base64 d)"

lemma base64_no_mark: "CHR ''?'' \<notin> set (append_base64 d)"
proof -
  have "b64_digit n s \<in> set b64_alphabet" for n s
    unfolding b64_digit_def by (rule nth_mem) (simp add: b64_alphabet_facts)
  moreover have "CHR ''?'' \<notin> set b64_alphabet" by (simp add: b64_alphabet_def)
  ultimately have "CHR ''?'' \<noteq> b64_digit n s" for n s by metis
  then show ?thesis by (induction d rule: append_base64.induct) (auto simp: Let_def)
qed

lemma decode_one_b_word:
  "charset_ok cs \<Longrightarrow> decode_one_encoded_word (b_word cs d @ rest) = Some (d, rest)"
  unfolding b_word_def by (subst decode_one_word) (simp_all add: base64_no_mark decode_b_base64)

lemma b_word_head: "b_word cs d = CHR ''='' # CHR ''?'' # drop 2 (b_word cs d)"
  by (simp add: b_word_def word_of_def)

definition gap_ok :: "octets \<Rightarrow> bool" where
  "gap_ok s \<longleftrightarrow> s \<noteq> [] \<and> list_all is_lws s"

lemma adjacent_b_words:
  "list_all (\<lambda>(s, cs, d). gap_ok s \<and> charset_ok cs) ws \<Longrightarrow>
     adjacent_words (concat (map (\<lambda>(s, cs, d). s @ b_word cs d) ws)) out =
       (out @ concat (map (\<lambda>(s, cs, d). d) ws), [])"
proof (induction ws arbitrary: out)
  case Nil
  then show ?case by (subst adjacent_words.simps) simp
next
  case (Cons w ws)
  obtain s cs d where w: "w = (s, cs, d)" by (cases w) auto
  let ?t = "concat (map (\<lambda>(s, cs, d). s @ b_word cs d) ws)"
  have s: "s \<noteq> []" "list_all is_lws s" "charset_ok cs" using Cons.prems w by (auto simp: gap_ok_def)
  have "dropWhile is_lws (b_word cs d @ ?t) = b_word cs d @ ?t"
    by (subst (1 2) b_word_head) (simp add: is_lws_def)
  then have r: "dropWhile is_lws (s @ b_word cs d @ ?t) = b_word cs d @ ?t"
    using s(2) by (simp add: dropWhile_append2 list_all_iff)
  have h: "(b_word cs d @ ?t) ! 0 = CHR ''=''" "(b_word cs d @ ?t) ! 1 = CHR ''?''" "2 \<le> length (b_word cs d @ ?t)"
    by (subst b_word_head; simp)+
  have "adjacent_words (s @ b_word cs d @ ?t) out = adjacent_words ?t (out @ d)"
    using s(1) h decode_one_b_word [OF s(3), of d ?t]
    by (subst adjacent_words.simps) (simp add: r Let_def)
  then show ?case using Cons w by simp
qed

lemma decode_no_mark:
  "CHR ''='' \<notin> set pre \<Longrightarrow> decode_encoded_words (pre @ rest) out = decode_encoded_words rest (out @ pre)"
proof (induction pre arbitrary: out)
  case (Cons c cs)
  then have "decode_one_encoded_word (c # cs @ rest) = None" by (auto simp: decode_one_encoded_word_def)
  then show ?case using Cons decode_plain [of c "cs @ rest" out] by simp
qed simp

text \<open>
  C32. Encoded words are decoded: base64 words in any character set, separated by white space of any
  kind and preceded by plain text, become the text followed by the joined payloads; a text without
  an equals sign is returned as it is.
\<close>

theorem encoded_words_decoded:
  assumes "CHR ''='' \<notin> set pre" "charset_ok cs0" "list_all (\<lambda>(s, cs, d). gap_ok s \<and> charset_ok cs) ws"
  shows "decode_encoded_words
      (pre @ b_word cs0 d0 @ concat (map (\<lambda>(s, cs, d). s @ b_word cs d) ws)) [] =
    pre @ d0 @ concat (map (\<lambda>(s, cs, d). d) ws) \<and> decode_encoded_words pre [] = pre"
proof -
  let ?t = "concat (map (\<lambda>(s, cs, d). s @ b_word cs d) ws)"
  have ne: "b_word cs0 d0 \<noteq> []" by (subst b_word_head) simp
  have e: "decode_encoded_words [] out = out" for out by (subst decode_encoded_words.simps) simp
  have "decode_encoded_words (b_word cs0 d0 @ ?t) pre = (pre @ d0) @ concat (map (\<lambda>(s, cs, d). d) ws)"
    using ne decode_one_b_word [OF assms(2), of d0 ?t] adjacent_b_words [OF assms(3), of "pre @ d0"] e
    by (subst decode_encoded_words.simps) simp
  then show ?thesis
    using decode_no_mark [OF assms(1), of "b_word cs0 d0 @ ?t" "[]"] decode_no_mark [OF assms(1), of "[]" "[]"] e
    by simp
qed

theorem encoded_words_decoded_witness:
  "decode_encoded_words
     (''Re: '' @ b_word ''utf-8'' ''Hi '' @ concat (map (\<lambda>(s, cs, d). s @ b_word cs d) [(CRLF @ '' '', ''utf-8'', ''you'')])) [] =
     ''Re: '' @ ''Hi '' @ concat (map (\<lambda>(s, cs, d). d) [(CRLF @ '' '', ''utf-8'', ''you'')]) \<and>
   decode_encoded_words ''Re: '' [] = ''Re: ''"
proof (rule encoded_words_decoded)
  show "charset_ok ''utf-8''" by code_simp
  show "list_all (\<lambda>(s, cs, d). gap_ok s \<and> charset_ok cs) [(CRLF @ '' '', ''utf-8'', ''you'')]" by code_simp
qed simp

end
