(* ===== verification/Io_Box.thy ===== *)
theory Io_Box
  imports Main
begin

text \<open>
  The self-owning boxes of \<open>imap/operation_base.h\<close> in which the pumps keep the operation state of an armed
  read, write or posted task: allocated and started at once by \<open>start_io_box\<close>, freed by the receiver as
  the last action of its terminal callback.

  The factories of the sender and the receiver are arguments, as in the code. They run on the state
  of the calling site, such as the shared pointer to the core that the receiver takes over; None of
  the sender factory is an access through a pointer that is gone.
\<close>

section \<open>Boxes\<close>

record ('s, 'r) io_heap =
  box_cells :: "nat \<rightharpoonup> ('s \<times> 'r) option"
  box_started :: "nat list"

text \<open>
  The memory is there (\<open>Some None\<close>) before the receiver is made, whose factory is given the address; an
  exception of the construction gives it back.
\<close>

definition make_io_box ::
  "bool \<Rightarrow> bool \<Rightarrow> nat \<Rightarrow> 's \<Rightarrow> (nat \<Rightarrow> 'c \<Rightarrow> 'r \<times> 'c) \<Rightarrow> 'c \<Rightarrow> ('s, 'r) io_heap \<Rightarrow>
     nat option \<times> 'c \<times> ('s, 'r) io_heap" where
  "make_io_box alloc_throws connect_throws mem sender make_receiver site h =
     (if alloc_throws then (None, site, h)
      else
        (let h1 = h\<lparr>box_cells := (box_cells h)(mem \<mapsto> None)\<rparr>;
             (receiver, site') = make_receiver mem site
         in if connect_throws then (None, site', h1\<lparr>box_cells := (box_cells h1)(mem := None)\<rparr>)
            else (Some mem, site', h1\<lparr>box_cells := (box_cells h1)(mem \<mapsto> Some (sender, receiver))\<rparr>)))"

definition box_start :: "nat \<Rightarrow> ('s, 'r) io_heap \<Rightarrow> ('s, 'r) io_heap" where
  "box_start mem h = h\<lparr>box_started := mem # box_started h\<rparr>"

definition box_dispose :: "nat \<Rightarrow> ('s, 'r) io_heap \<Rightarrow> ('s, 'r) io_heap option" where
  "box_dispose mem h =
     (if box_cells h mem = None then None
      else Some (h\<lparr>box_cells := (box_cells h)(mem := None), box_started := removeAll mem (box_started h)\<rparr>))"

text \<open>The sender first, as a statement of its own.\<close>

definition start_io_box ::
  "bool \<Rightarrow> bool \<Rightarrow> nat \<Rightarrow> ('c \<Rightarrow> 's option) \<Rightarrow> (nat \<Rightarrow> 'c \<Rightarrow> 'r \<times> 'c) \<Rightarrow> 'c \<Rightarrow> ('s, 'r) io_heap \<Rightarrow>
     (nat option \<times> 'c \<times> ('s, 'r) io_heap) option" where
  "start_io_box alloc_throws connect_throws mem make_sender make_receiver site h =
     (case make_sender site of
        None \<Rightarrow> None
      | Some sender \<Rightarrow>
          (case make_io_box alloc_throws connect_throws mem sender make_receiver site h of
             (None, site', h') \<Rightarrow> Some (None, site', h')
           | (Some box, site', h') \<Rightarrow> Some (Some box, site', box_start box h')))"

section \<open>The arming sequence\<close>

text \<open>What is allocated is a whole box, and exactly the boxes are started.\<close>

definition box_inv :: "('s, 'r) io_heap \<Rightarrow> bool" where
  "box_inv h \<longleftrightarrow> (\<forall>a. box_cells h a \<noteq> Some None) \<and> distinct (box_started h) \<and> set (box_started h) = dom (box_cells h)"

lemma start_io_box_cases:
  assumes "make_sender site = Some sender" "box_cells h mem = None"
  shows "start_io_box at ct mem make_sender make_receiver site h =
    Some (if at then (None, site, h)
      else if ct then (None, snd (make_receiver mem site), h)
      else (Some mem, snd (make_receiver mem site),
        h\<lparr>box_cells := (box_cells h)(mem \<mapsto> Some (sender, fst (make_receiver mem site))), box_started := mem # box_started h\<rparr>))"
proof -
  have "(box_cells h)(mem := None) = box_cells h" using assms(2) by (simp add: fun_upd_idem)
  then show ?thesis
    using assms(1) by (simp add: start_io_box_def make_io_box_def box_start_def Let_def split: prod.split)
qed

text \<open>
  Arming keeps the invariant on every path, and a failure leaves no memory behind; the callback of a
  box frees it once.
\<close>

lemma start_io_box_inv:
  assumes "box_inv h" "box_cells h mem = None" "start_io_box at ct mem make_sender make_receiver site h = Some (r, site', h')"
  shows "box_inv h' \<and> (if r = None then h' = h else r = Some mem \<and> mem \<in> set (box_started h'))"
proof -
  obtain sender where s: "make_sender site = Some sender"
    using assms(3) by (cases "make_sender site") (simp_all add: start_io_box_def)
  show ?thesis
    using assms start_io_box_cases [of make_sender site sender h mem at ct make_receiver, OF s assms(2)] by (auto simp: box_inv_def split: if_splits)
qed

lemma box_dispose_once:
  assumes "box_inv h" "mem \<in> set (box_started h)"
  shows "\<exists>h'. box_dispose mem h = Some h' \<and> box_inv h' \<and> mem \<notin> set (box_started h') \<and> box_dispose mem h' = None"
  using assms by (auto simp: box_inv_def box_dispose_def distinct_removeAll)

text \<open>
  The hazard the order removes: a receiver factory that takes the shared pointer over empties the
  calling site, and the sender factory looks through that pointer. In the order of the code the
  sender always exists; the other way round it would follow a null pointer.
\<close>

definition take_core :: "nat \<Rightarrow> 'c option \<Rightarrow> 'c option \<times> 'c option" where
  "take_core box core = (core, None)"

lemma sender_before_receiver:
  "start_io_box at ct mem (map_option f) take_core (Some core) h \<noteq> None"
  "map_option f (snd (take_core mem (Some core))) = None"
  by (simp_all add: start_io_box_def take_core_def split: prod.split option.split)

end
