(* ===== verification/Fetch_Wire.thy ===== *)
theory Fetch_Wire
  imports Fetch_Parse
begin

text \<open>
  What the FETCH parsers read: the wire forms that RFC 3501 gives a value are relations between the
  value and its octets (a string may be quoted, a literal or, when empty, \<open>NIL\<close>), and
  \<open>reads p w x\<close> states that the parser \<open>p\<close> reads \<open>x\<close> from \<open>w\<close> and stops right
  behind it, whatever surrounds it. The parsers are sequences, so their readings compose.

  The properties: a FETCH attribute list in any order, with unknown attributes between, is read
  back as the data it carries; every walk returns; the bound of nesting; and the two places where
  the code does not do what its comments say.
\<close>

section \<open>Readings\<close>

definition bounded :: "octets \<Rightarrow> bool" where
  "bounded rest \<longleftrightarrow> rest = [] \<or> \<not> is_atom_char (hd rest)"

definition reads :: "(cursor \<Rightarrow> 'a parsed) \<Rightarrow> octets \<Rightarrow> 'a \<Rightarrow> bool" where
  "reads p w x \<longleftrightarrow>
     (\<forall>c rest. remaining c = w @ rest \<longrightarrow> bounded rest \<longrightarrow> (\<exists>c'. p c = Done (x, c') \<and> remaining c' = rest))"

named_theorems reading "how readings compose"

lemma readsD:
  "reads p w x \<Longrightarrow> remaining c = w @ rest \<Longrightarrow> bounded rest \<Longrightarrow> \<exists>c'. p c = Done (x, c') \<and> remaining c' = rest"
  by (auto simp: reads_def)

lemma bounded_append: "bounded w \<Longrightarrow> bounded rest \<Longrightarrow> bounded (w @ rest)"
  by (cases w) (auto simp: bounded_def)

lemma bounded_simps [simp]:
  "bounded []" "bounded (SP # xs)" "bounded (CHR '')'' # xs)" "bounded (CHR ''('' # xs)"
  by (simp_all add: bounded_def)

lemma reads_andthen [reading]:
  assumes "reads p w x" "reads (k x) w' y" "bounded w'"
  shows "reads (\<lambda>c. andthen (p c) (\<lambda>(x, c). k x c)) (w @ w') y"
  unfolding reads_def
proof (intro allI impI)
  fix c rest assume c: "remaining c = (w @ w') @ rest" and b: "bounded rest"
  obtain c1 where c1: "p c = Done (x, c1)" "remaining c1 = w' @ rest"
    using readsD [OF assms(1), of c "w' @ rest"] c bounded_append [OF assms(3) b] by auto
  then show "\<exists>c'. andthen (p c) (\<lambda>(x, c). k x c) = Done (y, c') \<and> remaining c' = rest"
    using readsD [OF assms(2) c1(2) b] by auto
qed

lemma reads_Done [reading]: "reads (\<lambda>c. Done (x, c)) [] x"
  by (simp add: reads_def)

lemma expect_rem: "remaining c = ch # rest \<Longrightarrow> \<exists>c'. expect ch c = Done ((), c') \<and> remaining c' = rest"
  using try_consume_rem [of c ch rest] by (auto simp: expect_def)

lemma reads_expect [reading]:
  "reads k w y \<Longrightarrow> reads (\<lambda>c. andthen (expect ch c) (\<lambda>(_, c). k c)) (ch # w) y"
  unfolding reads_def by (metis andthen.simps(1) append_Cons case_prod_conv expect_rem)

lemma reads_expect_snd:
  "reads k w y \<Longrightarrow> reads (\<lambda>c. andthen (expect ch c) (\<lambda>p. k (snd p))) (ch # w) y"
  using reads_expect [of k w y ch] by (simp add: case_prod_beta')

lemma reads_skip [reading]:
  assumes "reads p w x" "w \<noteq> []" "hd w \<noteq> SP"
  shows "reads (\<lambda>c. p (skip_spaces c)) (SP # w) x"
proof -
  have "remaining (skip_spaces c) = w @ rest" if "remaining c = (SP # w) @ rest" for c rest
    using that assms(2,3) by (cases w) (simp_all add: remaining_skip_spaces)
  then show ?thesis using assms(1) by (auto simp: reads_def)
qed

text \<open>A skip that finds no space does nothing.\<close>

lemma reads_noskip:
  assumes "reads p w x" "w \<noteq> []" "hd w \<noteq> SP"
  shows "reads (\<lambda>c. p (skip_spaces c)) w x"
proof -
  have "remaining (skip_spaces c) = w @ rest" if "remaining c = w @ rest" for c rest
    using that assms(2,3) by (cases w) (simp_all add: remaining_skip_spaces)
  then show ?thesis using assms(1) by (auto simp: reads_def)
qed

section \<open>Strings\<close>

definition quoted_wire :: "octets \<Rightarrow> octets \<Rightarrow> bool" where
  "quoted_wire v w \<longleftrightarrow> list_all is_text_char v \<and> w = quote v"

definition literal_wire :: "octets \<Rightarrow> octets \<Rightarrow> bool" where
  "literal_wire v w \<longleftrightarrow> length v \<le> u64_max \<and> (\<exists>m. w = literal_marker (length v) m @ CRLF @ v)"

definition nstring_wire :: "octets \<Rightarrow> octets \<Rightarrow> bool" where
  "nstring_wire v w \<longleftrightarrow> v = [] \<and> w = ''NIL'' \<or> quoted_wire v w \<or> literal_wire v w"

definition atom_wire :: "octets \<Rightarrow> octets \<Rightarrow> bool" where
  "atom_wire v w \<longleftrightarrow> plain_atom v \<and> hd v \<noteq> CHR ''~'' \<and> w = v"

definition astring_wire :: "octets \<Rightarrow> octets \<Rightarrow> bool" where
  "astring_wire v w \<longleftrightarrow> atom_wire v w \<or> quoted_wire v w \<or> literal_wire v w"

lemma cursor_split:
  assumes "remaining c = w @ rest" "w \<noteq> []"
  obtains pre where "c = cursor_at (pre @ w @ rest) (length pre) (scratch c) (scratch_uses c)"
proof -
  have "cpos c < length (ctext c)" using assms by (auto simp: remaining_def intro: ccontr)
  moreover have "ctext c = take (cpos c) (ctext c) @ w @ rest"
    using assms(1) by (metis append_take_drop_id remaining_def)
  ultimately have "c = cursor_at (take (cpos c) (ctext c) @ w @ rest) (length (take (cpos c) (ctext c)))
      (scratch c) (scratch_uses c)" by simp
  then show ?thesis by (rule that)
qed

lemma quote_nonempty [simp]: "quote v \<noteq> []" "hd (quote v) = DQUOTE"
  by (simp_all add: quote_def)

lemma read_quoted_rem:
  assumes "remaining c = quote v @ rest" "list_all is_text_char v"
  shows "\<exists>w c'. read_quoted c = (Some w, c') \<and> view_str w = v \<and> remaining c' = rest"
proof -
  obtain pre where c: "c = cursor_at (pre @ quote v @ rest) (length pre) (scratch c) (scratch_uses c)"
    using cursor_split [OF assms(1)] by auto
  obtain w c' where r: "read_quoted c = (Some w, c')" "view_str w = v" "cpos c' = length (pre @ quote v)"
    using read_quoted_quote [OF assms(2), of pre rest "scratch c" "scratch_uses c"] c by auto
  have "cursor_ok c" by (subst c) (simp add: cursor_ok_def)
  then have "ctext c' = pre @ quote v @ rest"
    using read_quoted_op.keeps_text [OF r(1)] c by (metis cursor.select_convs(1))
  then show ?thesis using r by (simp add: remaining_def)
qed

lemma read_literal_rem:
  assumes "remaining c = w @ rest" "literal_wire v w"
  shows "\<exists>c'. read_literal c = (Some (Text_view v), c') \<and> remaining c' = rest"
proof -
  obtain m where n: "length v \<le> u64_max" and w: "w = literal_marker (length v) m @ CRLF @ v"
    using assms(2) by (auto simp: literal_wire_def)
  then have "w \<noteq> []" by (simp add: literal_marker_def)
  then obtain pre where c: "c = cursor_at (pre @ w @ rest) (length pre) (scratch c) (scratch_uses c)"
    using cursor_split [OF assms(1)] by auto
  have "literal_head (ctext c) (cpos c) = Some (length (pre @ literal_marker (length v) m @ CRLF), length v)"
    using literal_head_marker [OF n, of pre m "v @ rest"] by (subst (1 2) c) (simp add: w)
  moreover have "ctext c = pre @ w @ rest" using c by (metis cursor.select_convs(1))
  ultimately show ?thesis using w by (simp add: read_literal_def remaining_def)
qed

lemma literal_wire_head: "literal_wire v w \<Longrightarrow> w \<noteq> [] \<and> hd w = CHR ''{''"
  by (auto simp: literal_wire_def literal_marker_def)

lemma read_string_rem:
  assumes "remaining c = w @ rest" "quoted_wire v w \<or> literal_wire v w"
  shows "\<exists>u c'. read_string c = (Some u, c') \<and> view_str u = v \<and> remaining c' = rest"
  using assms(2)
proof
  assume q: "quoted_wire v w"
  then have "peek c = DQUOTE" using assms(1) by (simp add: peek_remaining quoted_wire_def)
  then show ?thesis using q assms(1) read_quoted_rem by (simp add: read_string_def quoted_wire_def)
next
  assume l: "literal_wire v w"
  then have "peek c = CHR ''{''" using assms(1) literal_wire_head by (simp add: peek_remaining)
  then show ?thesis using read_literal_rem [OF assms(1) l] by (auto simp: read_string_def)
qed

lemma not_nil_prefix:
  "quoted_wire v w \<or> literal_wire v w \<Longrightarrow> \<not> ascii_iequals (take 3 (w @ rest)) ''NIL''"
  using literal_wire_head [of v w]
  by (cases w) (auto simp: ascii_iequals_iff_map quoted_wire_def quote_def ascii_to_upper_def)

lemma read_nstring_rem:
  assumes "remaining c = w @ rest" "quoted_wire v w \<or> literal_wire v w"
  shows "\<exists>u c'. read_nstring c = (Some (Some u), c') \<and> view_str u = v \<and> remaining c' = rest"
  using read_string_rem [OF assms] not_nil_prefix [OF assms(2), of rest] assms(1)
  by (auto simp: read_nstring_def Let_def)

lemma nil_rem:
  assumes "remaining c = ''NIL'' @ rest" "bounded rest"
  shows "read_nstring c = (Some None, c\<lparr>cpos := cpos c + 3\<rparr>)" "consume_nil c = (True, c\<lparr>cpos := cpos c + 3\<rparr>)"
    "remaining (c\<lparr>cpos := cpos c + 3\<rparr>) = rest"
proof -
  have d: "drop (cpos c) (ctext c) = ''NIL'' @ rest" using assms(1) by (simp add: remaining_def)
  have "drop (cpos c + 3) (ctext c) = drop 3 (drop (cpos c) (ctext c))" by (simp add: add.commute)
  then show "remaining (c\<lparr>cpos := cpos c + 3\<rparr>) = rest" unfolding d by (simp add: remaining_def)
  show "read_nstring c = (Some None, c\<lparr>cpos := cpos c + 3\<rparr>)" "consume_nil c = (True, c\<lparr>cpos := cpos c + 3\<rparr>)"
    using assms by (cases rest; simp add: read_nstring_def consume_nil_def try_consume_ci_def bounded_def)+
qed

lemma reads_nstr [reading]: "nstring_wire v w \<Longrightarrow> reads (read_nstr []) w v"
  unfolding reads_def nstring_wire_def read_nstr_def
  using nil_rem read_nstring_rem by (fastforce split: prod.split option.split)

lemma nstring_wire_head: "nstring_wire v w \<Longrightarrow> w \<noteq> [] \<and> hd w \<noteq> SP"
  using literal_wire_head [of v w] by (auto simp: nstring_wire_def quoted_wire_def)

lemma reads_astring [reading]:
  assumes "astring_wire v w" shows "reads astr w v"
  unfolding reads_def
proof (intro allI impI)
  fix c rest assume c: "remaining c = w @ rest" and b: "bounded rest"
  show "\<exists>c'. astr c = Done (v, c') \<and> remaining c' = rest"
  proof (cases "atom_wire v w")
    case True
    then show ?thesis
      using read_astring_atom [of c v rest] c b by (auto simp: astr_def atom_wire_def bounded_def)
  next
    case False
    then have q: "quoted_wire v w \<or> literal_wire v w" using assms by (auto simp: astring_wire_def)
    then have "peek c = DQUOTE \<or> peek c = CHR ''{''"
      using c literal_wire_head [of v w] by (auto simp: peek_remaining quoted_wire_def)
    then have "read_astring c = read_string c" by (auto simp: read_astring_def)
    then show ?thesis using read_string_rem [OF c q] by (auto simp: astr_def)
  qed
qed

lemma plain_atom_head: "plain_atom a \<Longrightarrow> a \<noteq> [] \<and> is_atom_char (hd a)"
  by (cases a) (auto simp: plain_atom_def)

lemma astring_wire_head: "astring_wire v w \<Longrightarrow> w \<noteq> [] \<and> hd w \<noteq> SP \<and> hd w \<noteq> CHR ''('' \<and> hd w \<noteq> CHR '')''"
  using literal_wire_head [of v w] plain_atom_head [of v]
  by (auto simp: astring_wire_def atom_wire_def quoted_wire_def)

lemma reads_number [reading]:
  assumes "n \<le> u64_max" shows "reads num_at (to_chars n) n"
  unfolding reads_def
proof (intro allI impI)
  fix c rest assume c: "remaining c = to_chars n @ rest" and b: "bounded rest"
  then have "rest = [] \<or> \<not> is_digit (hd rest)" using digit_is_atom_char by (auto simp: bounded_def)
  then have "takeWhile is_digit (remaining c) = to_chars n" "dropWhile is_digit (remaining c) = rest"
    using run_split [OF to_chars_digits] c by auto
  then have "fst (read_number c) = Some n" "remaining (snd (read_number c)) = rest"
    using assms by (simp_all add: fst_read_number remaining_read_number)
  then show "\<exists>c'. num_at c = Done (n, c') \<and> remaining c' = rest"
    by (auto simp: num_at_def split: prod.split option.split)
qed

lemma to_chars_head: "to_chars n \<noteq> [] \<and> hd (to_chars n) \<noteq> SP"
  using to_chars_all_digit [of "hd (to_chars n)" n] by (cases "to_chars n") auto

text \<open>How the item loops of the lists begin.\<close>

lemma loop_close:
  "remaining c = CHR '')'' # rest \<or> remaining c = SP # CHR '')'' # rest \<Longrightarrow>
     \<exists>c'. try_consume (CHR '')'') (skip_spaces c) = (True, c') \<and> remaining c' = rest"
  by (rule try_consume_rem) (auto simp: remaining_skip_spaces)

lemma loop_item:
  assumes "remaining (skip_spaces c) = w" "w \<noteq> []" "hd w \<noteq> CHR '')''"
  shows "try_consume (CHR '')'') (skip_spaces c) = (False, skip_spaces c)" "\<not> at_end (skip_spaces c)"
  using assms fst_try_consume [of "CHR '')''" "skip_spaces c"]
  by (cases "try_consume (CHR '')'') (skip_spaces c)"; auto simp: at_end_def remaining_def dest: try_consume_False)+

section \<open>Addresses and envelopes\<close>

definition address_wire :: "address \<Rightarrow> octets \<Rightarrow> bool" where
  "address_wire a w \<longleftrightarrow>
     (\<exists>n l m h. nstring_wire (ad_display_name a) n \<and> nstring_wire (ad_adl a) l \<and>
        nstring_wire (ad_mailbox_name a) m \<and> nstring_wire (ad_host_name a) h \<and>
        w = CHR ''('' # n @ SP # l @ SP # m @ SP # h @ '')'')"

definition addresses_wire :: "address list \<Rightarrow> octets \<Rightarrow> bool" where
  "addresses_wire as w \<longleftrightarrow>
     as = [] \<and> w = ''NIL'' \<or> (\<exists>ws. list_all2 address_wire as ws \<and> w = CHR ''('' # concat ws @ '')'')"

definition envelope_wire :: "envelope \<Rightarrow> octets \<Rightarrow> bool" where
  "envelope_wire e w \<longleftrightarrow>
     (\<exists>d s f sn r t c b i m. nstring_wire (env_date e) d \<and> nstring_wire (env_subject e) s \<and>
        addresses_wire (env_from e) f \<and> addresses_wire (env_sender e) sn \<and>
        addresses_wire (env_reply_to e) r \<and> addresses_wire (env_to e) t \<and>
        addresses_wire (env_cc e) c \<and> addresses_wire (env_bcc e) b \<and>
        nstring_wire (env_in_reply_to e) i \<and> nstring_wire (env_message_id e) m \<and>
        w = CHR ''('' # d @ SP # s @ SP # f @ SP # sn @ SP # r @ SP # t @ SP # c @ SP # b @ SP # i @ SP # m @ '')'')"

text \<open>A field of a tuple: the first one, or one behind a space.\<close>

lemmas first_nstr = reads_andthen [OF reads_nstr]

lemma next_nstr:
  "nstring_wire v w \<Longrightarrow> reads (k v) w' y \<Longrightarrow> bounded w' \<Longrightarrow>
     reads (\<lambda>c. andthen (read_nstr [] (skip_spaces c)) (\<lambda>(x, c). k x c)) ((SP # w) @ w') y"
  by (rule reads_andthen [OF reads_skip [OF reads_nstr]]) (simp_all add: nstring_wire_head)

lemma reads_address:
  assumes "address_wire a w"
  shows "\<exists>w'. w = CHR ''('' # w' \<and> reads parse_address w' a"
proof -
  obtain n l m h where f: "nstring_wire (ad_display_name a) n" "nstring_wire (ad_adl a) l"
      "nstring_wire (ad_mailbox_name a) m" "nstring_wire (ad_host_name a) h"
    and w: "w = CHR ''('' # n @ SP # l @ SP # m @ SP # h @ '')''"
    using assms by (auto simp: address_wire_def)
  have "reads parse_address (n @ (SP # l) @ (SP # m) @ (SP # h) @ CHR '')'' # [])
      \<lparr>ad_display_name = ad_display_name a, ad_adl = ad_adl a, ad_mailbox_name = ad_mailbox_name a,
       ad_host_name = ad_host_name a\<rparr>"
    unfolding parse_address_def by (intro first_nstr [OF f(1)] f [THEN next_nstr] reads_expect reads_Done) simp_all
  then show ?thesis using w by (cases a) simp
qed

lemma reads_address_items:
  "list_all2 address_wire as ws \<Longrightarrow>
     reads (\<lambda>c. address_items c out) (concat ws @ '')'') (out @ as)"
proof (induction as ws arbitrary: out rule: list_all2_induct)
  case Nil
  show ?case
    unfolding reads_def
  proof (intro allI impI)
    fix c rest assume "remaining c = (concat [] @ '')'') @ rest"
    then show "\<exists>c'. address_items c out = Done (out @ [], c') \<and> remaining c' = rest"
      using loop_close [of c rest] by (subst address_items.simps) (auto simp: Let_def)
  qed
next
  case (Cons a as w ws)
  obtain w' where w': "w = CHR ''('' # w'" "reads parse_address w' a"
    using reads_address [OF Cons(1)] by blast
  show ?case
    unfolding reads_def
  proof (intro allI impI)
    fix c rest assume c: "remaining c = (concat (w # ws) @ '')'') @ rest" and b: "bounded rest"
    let ?t = "concat ws @ '')'' @ rest"
    have r: "remaining (skip_spaces c) = CHR ''('' # w' @ ?t"
      using c w' by (simp add: remaining_skip_spaces)
    obtain c1 where c1: "expect (CHR ''('') (skip_spaces c) = Done ((), c1)" "remaining c1 = w' @ ?t"
      using expect_rem [OF r] by blast
    have "bounded ?t"
    proof (cases ws)
      case (Cons v vs)
      then have "address_wire (hd as) v" using Cons.hyps(2) by (cases as) auto
      then show ?thesis using reads_address Cons by fastforce
    qed simp
    then obtain c2 where c2: "parse_address c1 = Done (a, c2)" "remaining c2 = ?t"
      using readsD [OF w'(2) c1(2)] by blast
    then have "address_items c out = address_items c2 (out @ [a])"
      using c1 loop_item [OF r] by (subst address_items.simps) (simp add: Let_def)
    then show "\<exists>c'. address_items c out = Done (out @ a # as, c') \<and> remaining c' = rest"
      using readsD [OF Cons.IH [of "out @ [a]"], of c2 rest] c2(2) b by simp
  qed
qed

lemma addresses_wire_head: "addresses_wire as w \<Longrightarrow> w \<noteq> [] \<and> hd w \<noteq> SP"
  by (auto simp: addresses_wire_def)

lemma reads_addresses [reading]:
  assumes "addresses_wire as w" shows "reads (\<lambda>c. parse_address_list c []) w as"
proof (cases "w = ''NIL''")
  case True
  then have "as = []" using assms by (auto simp: addresses_wire_def)
  then show ?thesis using True nil_rem by (fastforce simp: reads_def parse_address_list_def)
next
  case False
  then obtain ws where ws: "list_all2 address_wire as ws" "w = CHR ''('' # concat ws @ '')''"
    using assms by (auto simp: addresses_wire_def)
  have "parse_address_list c [] = andthen (expect (CHR ''('') c) (\<lambda>p. address_items (snd p) [])"
    if "remaining c = w @ rest" for c rest
  proof -
    have "consume_nil c = (False, c)"
      using that ws(2) by (simp add: consume_nil_def ascii_iequals_iff_map ascii_to_upper_def Let_def)
    then show ?thesis by (simp add: parse_address_list_def)
  qed
  then show ?thesis
    using reads_expect_snd [OF reads_address_items [OF ws(1), of "[]"], of "CHR ''(''"] ws(2)
    by (simp add: reads_def)
qed

lemma next_addresses:
  "addresses_wire v w \<Longrightarrow> reads (k v) w' y \<Longrightarrow> bounded w' \<Longrightarrow>
     reads (\<lambda>c. andthen (parse_address_list (skip_spaces c) []) (\<lambda>(x, c). k x c)) ((SP # w) @ w') y"
  by (rule reads_andthen [OF reads_skip [OF reads_addresses]]) (simp_all add: addresses_wire_head)

lemma reads_envelope:
  assumes "envelope_wire e w" shows "reads (\<lambda>c. parse_envelope c empty_envelope) w e"
proof -
  obtain d s f sn r t c b i m where fs: "nstring_wire (env_date e) d" "nstring_wire (env_subject e) s"
      "addresses_wire (env_from e) f" "addresses_wire (env_sender e) sn"
      "addresses_wire (env_reply_to e) r" "addresses_wire (env_to e) t"
      "addresses_wire (env_cc e) c" "addresses_wire (env_bcc e) b"
      "nstring_wire (env_in_reply_to e) i" "nstring_wire (env_message_id e) m"
    and w: "w = CHR ''('' # d @ SP # s @ SP # f @ SP # sn @ SP # r @ SP # t @ SP # c @ SP # b @ SP # i @ SP # m @ '')''"
    using assms unfolding envelope_wire_def by blast
  have "reads (\<lambda>c. parse_envelope c empty_envelope)
      (CHR ''('' # d @ (SP # s) @ (SP # f) @ (SP # sn) @ (SP # r) @ (SP # t) @ (SP # c) @ (SP # b) @
        (SP # i) @ (SP # m) @ CHR '')'' # [])
      \<lparr>env_date = env_date e, env_subject = env_subject e, env_from = env_from e, env_sender = env_sender e,
       env_reply_to = env_reply_to e, env_to = env_to e, env_cc = env_cc e, env_bcc = env_bcc e,
       env_in_reply_to = env_in_reply_to e, env_message_id = env_message_id e\<rparr>"
    unfolding parse_envelope_def empty_envelope_def envelope.select_convs
    by (intro first_nstr [OF fs(1)] next_nstr [OF fs(2)] next_nstr [OF fs(9)] next_nstr [OF fs(10)]
        fs(3-8) [THEN next_addresses] reads_expect reads_Done) simp_all
  then show ?thesis using w by (cases e) simp
qed

section \<open>Values that are skipped\<close>

inductive value_wire :: "octets \<Rightarrow> bool" where
  atom: "atom_wire a w \<Longrightarrow> value_wire w"
| quoted: "quoted_wire v w \<Longrightarrow> value_wire w"
| literal: "literal_wire v w \<Longrightarrow> value_wire w"
| list: "\<forall>w \<in> set ws. value_wire w \<Longrightarrow> value_wire (CHR ''('' # sp_join ws @ '')'')"

lemma value_wire_head: "value_wire w \<Longrightarrow> w \<noteq> [] \<and> hd w \<noteq> SP \<and> hd w \<noteq> CHR '')''"
  by (erule value_wire.cases) (use astring_wire_head in \<open>auto simp: astring_wire_def\<close>)

lemma skip_scalar_rem:
  assumes "remaining c = w @ rest" "bounded rest" "astring_wire v w"
  shows "\<exists>c'. skip_scalar c = Done ((), c') \<and> remaining c' = rest"
  using assms(3) unfolding astring_wire_def
proof (elim disjE)
  assume "atom_wire v w"
  then have a: "list_all is_atom_char w" "w \<noteq> []" "hd w \<noteq> CHR ''~''" "is_atom_char (hd w)"
    using plain_atom_head [of v] by (auto simp: atom_wire_def plain_atom_def)
  have pk: "peek c = hd w" "\<not> at_end c"
    using assms(1) a(2) by (auto simp: peek_remaining at_end_def remaining_def)
  have "fst (read_atom c) = w" "remaining (snd (read_atom c)) = rest"
    using assms(1,2) run_split [OF a(1)] by (simp_all add: unread bounded_def)
  then show ?thesis
    using a pk by (auto simp: skip_scalar_def case_prod_beta)
next
  assume "quoted_wire v w"
  then show ?thesis
    using assms(1) read_quoted_rem [of c v rest]
    by (auto simp: skip_scalar_def quoted_wire_def peek_remaining)
next
  assume l: "literal_wire v w"
  then show ?thesis
    using read_literal_rem [OF assms(1) l] literal_wire_head [OF l] assms(1)
    by (auto simp: skip_scalar_def peek_remaining)
qed

lemma reads_scalar:
  assumes "astring_wire v w" shows "reads skip_value w ()"
  unfolding reads_def
proof (intro allI impI)
  fix c rest assume c: "remaining c = w @ rest" "bounded rest"
  have "peek c \<noteq> CHR ''(''" using astring_wire_head [OF assms] c(1) by (simp add: peek_remaining)
  then show "\<exists>c'. skip_value c = Done ((), c') \<and> remaining c' = rest"
    using skip_scalar_rem [OF c assms] by (simp add: skip_value.simps)
qed

lemma sp_join_step: "sp_join (w # ws) @ t = w @ (if ws = [] then t else SP # sp_join ws @ t)"
  by simp

lemma reads_items:
  assumes "\<forall>w \<in> set ws. value_wire w \<and> reads skip_value w ()"
    and "remaining c = pre @ sp_join ws @ '')'' @ rest" "pre = [] \<or> pre = [SP]"
  shows "\<exists>c'. skip_items c = Done ((), c') \<and> remaining c' = rest"
  using assms
proof (induction ws arbitrary: c pre)
  case Nil
  then show ?case using loop_close [of c rest] by (subst skip_items.simps) (auto simp: Let_def)
next
  case (Cons w ws)
  let ?t = "(if ws = [] then [] else [SP]) @ sp_join ws @ '')'' @ rest"
  have w: "value_wire w" "reads skip_value w ()" using Cons.prems(1) by auto
  have r: "remaining (skip_spaces c) = w @ ?t"
    using Cons.prems(2,3) value_wire_head [OF w(1)] by (cases w) (auto simp: remaining_skip_spaces)
  have "bounded ?t" by (cases ws) auto
  then obtain c2 where c2: "skip_value (skip_spaces c) = Done ((), c2)" "remaining c2 = ?t"
    using readsD [OF w(2) r] by blast
  have "skip_items c = skip_items c2"
    using c2 loop_item [OF r] value_wire_head [OF w(1)] by (subst skip_items.simps) (simp add: Let_def)
  then show ?case using Cons.IH [OF _ c2(2)] Cons.prems(1) by simp
qed

lemma reads_value [reading]: "value_wire w \<Longrightarrow> reads skip_value w ()"
proof (induction w rule: value_wire.induct)
  case (list ws)
  have "reads skip_items (sp_join ws @ '')'') ()"
    using reads_items [OF list, of _ "[]"] by (simp add: reads_def)
  from reads_expect_snd [OF this, of "CHR ''(''"]
  show ?case by (auto simp: reads_def skip_value.simps peek_remaining)
qed (use reads_scalar astring_wire_def in blast)+

definition tail_wire :: "octets \<Rightarrow> bool" where
  "tail_wire t \<longleftrightarrow> (\<exists>ws. (\<forall>w \<in> set ws. value_wire w) \<and> t = concat (map (\<lambda>w. SP # w) ws) @ '')'')"

lemma tail_bounded: "tail_wire t \<Longrightarrow> bounded t"
proof -
  assume "tail_wire t"
  then obtain ws where "t = concat (map (\<lambda>w. SP # w) ws) @ '')''" by (auto simp: tail_wire_def)
  then show ?thesis by (cases ws) auto
qed

lemma skip_tail_rem:
  "\<forall>w \<in> set ws. value_wire w \<Longrightarrow> remaining c = concat (map (\<lambda>w. SP # w) ws) @ '')'' @ rest \<Longrightarrow>
     \<exists>c'. skip_tail (skip_spaces c) = Done ((), c') \<and> remaining c' = rest"
proof (induction ws arbitrary: c)
  case Nil
  then have r: "remaining (skip_spaces c) = CHR '')'' # rest" by (simp add: remaining_skip_spaces)
  then show ?case
    using expect_rem [OF r] by (subst skip_tail.simps) (simp add: peek_remaining)
next
  case (Cons w ws)
  let ?t = "concat (map (\<lambda>w. SP # w) ws) @ '')'' @ rest"
  have w: "value_wire w" "w \<noteq> []" "hd w \<noteq> SP" "hd w \<noteq> CHR '')''"
    using Cons.prems(1) value_wire_head [of w] by auto
  have r: "remaining (skip_spaces c) = w @ ?t"
    using Cons.prems(2) w by (cases w) (auto simp: remaining_skip_spaces)
  have "bounded ?t" by (cases ws) auto
  then obtain c2 where c2: "skip_value (skip_spaces c) = Done ((), c2)" "remaining c2 = ?t"
    using readsD [OF reads_value [OF w(1)] r] by auto
  have "peek (skip_spaces c) \<noteq> CHR '')''" "\<not> at_end (skip_spaces c)"
    using r w by (auto simp: peek_remaining at_end_def remaining_def)
  then have "skip_tail (skip_spaces c) = skip_tail (skip_spaces c2)"
    using c2 by (subst skip_tail.simps) simp
  then show ?case using Cons.IH [OF _ c2(2)] Cons.prems(1) by simp
qed

lemma reads_tail: "tail_wire t \<Longrightarrow> reads (\<lambda>c. skip_tail (skip_spaces c)) t ()"
  unfolding tail_wire_def reads_def using skip_tail_rem by fastforce

section \<open>Parameters\<close>

definition escaped_wire :: "octets \<Rightarrow> octets \<Rightarrow> bool" where
  "escaped_wire v w \<longleftrightarrow> quoted_wire v w \<and> list_ex is_quoted_special v"

lemma read_quoted_view:
  assumes "remaining c = quote v @ rest" "list_all is_text_char v"
  shows "\<exists>c'. read_quoted c =
      (Some (if list_ex is_quoted_special v then Scratch_view v (scratch_uses c + 1) else Text_view v), c') \<and>
    scratch_uses c' = scratch_uses c + (if list_ex is_quoted_special v then 1 else 0) \<and> remaining c' = rest"
proof -
  obtain w c' where r: "read_quoted c = (Some w, c')" "view_str w = v" "remaining c' = rest"
    using read_quoted_rem [OF assms] by blast
  obtain pre where c: "c = cursor_at (pre @ quote v @ rest) (length pre) (scratch c) (scratch_uses c)"
    using cursor_split [OF assms(1)] by auto
  let ?src = "pre @ quote v @ rest"
  have t: "try_consume DQUOTE c = (True, c\<lparr>cpos := cpos c + 1\<rparr>)"
    by (subst (1 2 3) c) (simp add: try_consume_def at_end_def quote_def nth_append)
  have q: "quoted_loop ?src (length pre + 1) False =
      (length pre + 1 + length (escape_quoted v), Some (list_ex is_quoted_special v))"
    using quoted_loop_escape [OF assms(2), of "pre @ [DQUOTE]" rest False] by (simp add: quote_def)
  have f: "ctext c = ?src" "cpos c = length pre" using c by (metis cursor.select_convs)+
  have "take (length (escape_quoted v)) (drop (length pre + 1) ?src) = escape_quoted v"
    by (simp add: quote_def)
  then show ?thesis
    using r q unfolding read_quoted_def t
    by (cases "list_ex is_quoted_special v") (auto simp: f Let_def escape_plain unescape_escape)
qed

lemma read_astring_view:
  assumes "astring_wire v w" "remaining c = w @ rest" "bounded rest"
  shows "\<exists>c'. read_astring c =
      (Some (if escaped_wire v w then Scratch_view v (scratch_uses c + 1) else Text_view v), c') \<and>
    scratch_uses c' = scratch_uses c + (if escaped_wire v w then 1 else 0) \<and> remaining c' = rest"
proof -
  consider (q) "quoted_wire v w" | (l) "literal_wire v w" | (a) "atom_wire v w"
    using assms(1) by (auto simp: astring_wire_def)
  then show ?thesis
  proof cases
    case q
    then have "read_astring c = read_quoted c"
      using assms(2) by (simp add: read_astring_def read_string_def peek_remaining quoted_wire_def)
    then show ?thesis using q assms(2) read_quoted_view [of c v rest] by (simp add: escaped_wire_def quoted_wire_def)
  next
    case l
    then have h: "peek c = CHR ''{''" "\<not> escaped_wire v w"
      using assms(2) literal_wire_head [OF l] by (auto simp: peek_remaining escaped_wire_def quoted_wire_def)
    have "scratch_uses (snd (read_literal c)) = scratch_uses c"
      by (auto simp: read_literal_def split: option.split)
    then show ?thesis using h read_literal_rem [OF assms(2) l] by (auto simp: read_astring_def read_string_def)
  next
    case a
    then have "hd w \<noteq> DQUOTE" using plain_atom_head [of v] by (auto simp: atom_wire_def)
    then have "\<not> escaped_wire v w" by (auto simp: escaped_wire_def quoted_wire_def)
    moreover have "scratch_uses (snd (read_astring c)) = scratch_uses c"
      if "read_astring c = (Some (Text_view v), c')" for c'
      using that a assms(2) plain_atom_head [of v]
      by (auto simp: read_astring_def peek_remaining read_atom_def read_while_eq atom_wire_def Let_def split: if_splits)
    ultimately show ?thesis
      using a read_astring_atom [of c v rest] assms(2,3) by (fastforce simp: atom_wire_def bounded_def)
  qed
qed

definition param_wire :: "octets \<times> octets \<Rightarrow> octets \<Rightarrow> bool" where
  "param_wire p w \<longleftrightarrow>
     (\<exists>a b. astring_wire (fst p) a \<and> astring_wire (snd p) b \<and>
        \<not> (escaped_wire (fst p) a \<and> escaped_wire (snd p) b) \<and> w = a @ SP # b)"

definition params_wire :: "(octets \<times> octets) list \<Rightarrow> octets \<Rightarrow> bool" where
  "params_wire ps w \<longleftrightarrow>
     ps = [] \<and> w = ''NIL'' \<or> (\<exists>ws. list_all2 param_wire ps ws \<and> w = CHR ''('' # sp_join ws @ '')'')"

text \<open>One round of the parameter loop, and when it reads a dead view.\<close>

lemma param_round:
  assumes "astring_wire n a" "astring_wire v b" "bounded t"
    and "remaining c = pre @ a @ SP # b @ t" "pre = [] \<or> pre = [SP]"
  shows "\<exists>c'. remaining c' = t \<and>
    param_items c out =
      (if escaped_wire n a \<and> escaped_wire v b then Dangling else param_items c' (out @ [(n, v)]))"
proof -
  note ha = astring_wire_head [OF assms(1)] and hb = astring_wire_head [OF assms(2)]
  have r: "remaining (skip_spaces c) = a @ SP # b @ t"
    using assms(4,5) ha by (cases a) (auto simp: remaining_skip_spaces)
  obtain c2 where c2: "read_astring (skip_spaces c) =
        (Some (if escaped_wire n a then Scratch_view n (scratch_uses (skip_spaces c) + 1) else Text_view n), c2)"
      "scratch_uses c2 = scratch_uses (skip_spaces c) + (if escaped_wire n a then 1 else 0)"
      "remaining c2 = SP # b @ t"
    using read_astring_view [OF assms(1) r] by auto
  have s: "scratch_uses (skip_spaces d) = scratch_uses d" for d by (simp add: skip_spaces_def)
  have r2: "remaining (skip_spaces c2) = b @ t" using c2(3) hb by (cases b) (auto simp: remaining_skip_spaces)
  obtain c3 where c3: "read_astring (skip_spaces c2) =
        (Some (if escaped_wire v b then Scratch_view v (scratch_uses (skip_spaces c2) + 1) else Text_view v), c3)"
      "scratch_uses c3 = scratch_uses (skip_spaces c2) + (if escaped_wire v b then 1 else 0)"
      "remaining c3 = t"
    using read_astring_view [OF assms(2) r2 assms(3)] by auto
  have "param_items c out =
      (if escaped_wire n a \<and> escaped_wire v b then Dangling else param_items c3 (out @ [(n, v)]))"
    using loop_item [OF r] ha c2 c3 by (subst param_items.simps) (simp add: Let_def s)
  then show ?thesis using c3(3) by blast
qed

lemma reads_param_items:
  "list_all2 param_wire ps ws \<Longrightarrow> remaining c = pre @ sp_join ws @ '')'' @ rest \<Longrightarrow> pre = [] \<or> pre = [SP] \<Longrightarrow>
     \<exists>c'. param_items c out = Done (out @ ps, c') \<and> remaining c' = rest"
proof (induction ps ws arbitrary: c out pre rule: list_all2_induct)
  case Nil
  then show ?case using loop_close [of c rest] by (subst param_items.simps) (auto simp: Let_def)
next
  case (Cons p ps w ws)
  let ?t = "(if ws = [] then [] else [SP]) @ sp_join ws @ '')'' @ rest"
  obtain a b where w: "astring_wire (fst p) a" "astring_wire (snd p) b"
      "\<not> (escaped_wire (fst p) a \<and> escaped_wire (snd p) b)" "w = a @ SP # b"
    using Cons(1) by (auto simp: param_wire_def)
  have b: "bounded ?t" by (cases ws) auto
  have "remaining c = pre @ a @ SP # b @ ?t" using Cons.prems(1) w(4) by simp
  then obtain c' where c': "remaining c' = ?t" "param_items c out = param_items c' (out @ [p])"
    using param_round [OF w(1,2) b _ Cons.prems(2)] w(3) by auto
  then show ?case using Cons.IH [OF c'(1), of "out @ [p]"] by simp
qed

lemma params_wire_head: "params_wire ps w \<Longrightarrow> w \<noteq> [] \<and> hd w \<noteq> SP"
  by (auto simp: params_wire_def)

lemma not_nil_paren: "remaining c = CHR ''('' # w \<Longrightarrow> consume_nil c = (False, c)"
  by (cases w) (auto simp: consume_nil_def ascii_iequals_iff_map ascii_to_upper_def Let_def)

lemma reads_params:
  assumes "params_wire ps w" shows "reads (\<lambda>c. parse_body_params c []) w ps"
proof (cases "w = ''NIL''")
  case True
  then have "ps = []" using assms by (auto simp: params_wire_def)
  then show ?thesis using True nil_rem by (fastforce simp: reads_def parse_body_params_def)
next
  case False
  then obtain ws where ws: "list_all2 param_wire ps ws" "w = CHR ''('' # sp_join ws @ '')''"
    using assms by (auto simp: params_wire_def)
  have "reads (\<lambda>c. param_items c []) (sp_join ws @ '')'') ps"
    using reads_param_items [OF ws(1), of _ "[]" _ "[]"] by (simp add: reads_def)
  from reads_expect_snd [OF this, of "CHR ''(''"] show ?thesis
    using ws(2) by (simp add: reads_def parse_body_params_def not_nil_paren)
qed

section \<open>Body structures\<close>

text \<open>The first index is the number of nesting levels that are left.\<close>

inductive body_wire :: "nat \<Rightarrow> body_structure \<Rightarrow> octets \<Rightarrow> bool" where
  basic: "astring_wire ty a \<Longrightarrow> astring_wire st b \<Longrightarrow> params_wire ps p \<Longrightarrow> nstring_wire ident i \<Longrightarrow>
    nstring_wire desc ds \<Longrightarrow> astring_wire enc e \<Longrightarrow> n \<le> u64_max \<Longrightarrow> tail_wire t \<Longrightarrow>
    body_wire d (Body_structure ty st ps ident desc enc n [])
      (CHR ''('' # a @ SP # b @ SP # p @ SP # i @ SP # ds @ SP # e @ SP # to_chars n @ t)"
| multipart: "list_all2 (body_wire d) parts ws \<Longrightarrow> parts \<noteq> [] \<Longrightarrow> astring_wire st b \<Longrightarrow> tail_wire t \<Longrightarrow>
    body_wire (Suc d) (Body_structure ''multipart'' st [] [] [] [] 0 parts)
      (CHR ''('' # concat ws @ SP # b @ t)"

lemma body_wire_head: "body_wire d b w \<Longrightarrow> w \<noteq> [] \<and> hd w = CHR ''(''"
  by (erule body_wire.cases) auto

lemma next_astr:
  "astring_wire v w \<Longrightarrow> reads (k v) w' y \<Longrightarrow> bounded w' \<Longrightarrow>
     reads (\<lambda>c. andthen (astr (skip_spaces c)) (\<lambda>(x, c). k x c)) ((SP # w) @ w') y"
  by (rule reads_andthen [OF reads_skip [OF reads_astring]]) (simp_all add: astring_wire_head)

lemma next_params:
  "params_wire v w \<Longrightarrow> reads (k v) w' y \<Longrightarrow> bounded w' \<Longrightarrow>
     reads (\<lambda>c. andthen (parse_body_params (skip_spaces c) []) (\<lambda>(x, c). k x c)) ((SP # w) @ w') y"
  by (rule reads_andthen [OF reads_skip [OF reads_params]]) (simp_all add: params_wire_head)

lemma next_number:
  "n \<le> u64_max \<Longrightarrow> reads (k n) w' y \<Longrightarrow> bounded w' \<Longrightarrow>
     reads (\<lambda>c. andthen (num_at (skip_spaces c)) (\<lambda>(x, c). k x c)) ((SP # to_chars n) @ w') y"
  by (rule reads_andthen [OF reads_skip [OF reads_number]]) (simp_all add: to_chars_head)

lemma last_tail:
  "tail_wire t \<Longrightarrow> reads (\<lambda>c. andthen (skip_tail (skip_spaces c)) (\<lambda>(_, c). Done (y, c))) t y"
  using reads_andthen [OF reads_tail, of t "\<lambda>_ c. Done (y, c)" "[]" y] reads_Done [of y] by simp

lemma reads_basic_part:
  assumes "astring_wire ty a" "astring_wire st b" "params_wire ps p" "nstring_wire ident i"
    and "nstring_wire desc ds" "astring_wire enc e" "n \<le> u64_max" "tail_wire t"
  shows "reads parse_basic_part (a @ SP # b @ SP # p @ SP # i @ SP # ds @ SP # e @ SP # to_chars n @ t)
    (Body_structure ty st ps ident desc enc n [])"
proof -
  have "reads parse_basic_part
      (a @ (SP # b) @ (SP # p) @ (SP # i) @ (SP # ds) @ (SP # e) @ (SP # to_chars n) @ t)
      (Body_structure ty st ps ident desc enc n [])"
    unfolding parse_basic_part_def
    by (intro reads_andthen [OF reads_astring [OF assms(1)]] next_astr [OF assms(2)] next_params [OF assms(3)]
        next_nstr [OF assms(4)] next_nstr [OF assms(5)] next_astr [OF assms(6)] next_number [OF assms(7)]
        last_tail [OF assms(8)]) (simp_all add: tail_bounded assms)
  then show ?thesis by simp
qed

lemma reads_parts:
  assumes "list_all2 (\<lambda>b w. body_wire n b w \<and> reads (parse_body_structure d) w b) parts ws"
    and "remaining c = concat ws @ SP # t" "t \<noteq> []" "hd t \<noteq> SP" "hd t \<noteq> CHR ''(''" "ws \<noteq> []"
  shows "\<exists>c'. body_parts d c acc = Done (acc @ parts, c') \<and> remaining c' = t"
  using assms
proof (induction parts ws arbitrary: c acc rule: list_all2_induct)
  case (Cons b bs w ws)
  let ?t = "concat ws @ SP # t"
  have w: "body_wire n b w" "reads (parse_body_structure d) w b" using Cons(1) by auto
  have p: "peek c = CHR ''(''" using Cons.prems(1) body_wire_head [OF w(1)] by (simp add: peek_remaining)
  have "bounded ?t"
    using Cons(2) body_wire_head by (cases ws; cases bs) (fastforce simp: bounded_def)+
  then obtain c1 where c1: "parse_body_structure d c = Done (b, c1)" "remaining c1 = ?t"
    using readsD [OF w(2), of c ?t] Cons.prems(1) by auto
  have step: "body_parts d c acc = body_parts d (skip_spaces c1) (acc @ [b])"
    using p c1 by (subst body_parts.simps) simp
  show ?case
  proof (cases ws)
    case Nil
    then have "remaining (skip_spaces c1) = t" "bs = []"
      using c1(2) Cons.prems(2,3) Cons(2) by (cases t; simp add: remaining_skip_spaces)+
    then show ?thesis
      using step Cons.prems(2,4) by (subst step) (auto simp: body_parts.simps peek_remaining)
  next
    case (Cons v vs)
    then have "body_wire n (hd bs) v" using \<open>list_all2 _ bs ws\<close> by (cases bs) auto
    then have "remaining (skip_spaces c1) = concat ws @ SP # t"
      using c1(2) Cons body_wire_head [of n "hd bs" v] by (cases v) (auto simp: remaining_skip_spaces)
    then show ?thesis using step Cons.IH [of "skip_spaces c1" "acc @ [b]"] Cons.prems Cons by simp
  qed
qed simp

text \<open>The part of a node behind its opening parenthesis.\<close>

lemma reads_node:
  assumes "u \<noteq> []" "hd u \<noteq> SP" "d \<le> kMaxBodyStructureDepth"
    and "reads (\<lambda>c. if peek c = CHR ''('' then
            andthen (body_parts (d + 1) c []) (\<lambda>q. parse_multipart_end (fst q) (snd q))
          else parse_basic_part c) u b"
  shows "reads (parse_body_structure d) (CHR ''('' # u) b"
proof -
  have "parse_body_structure d = (\<lambda>c. andthen (expect (CHR ''('') c) (\<lambda>p.
      (\<lambda>c. (\<lambda>c. if peek c = CHR ''('' then
            andthen (body_parts (d + 1) c []) (\<lambda>q. parse_multipart_end (fst q) (snd q))
          else parse_basic_part c) (skip_spaces c)) (snd p)))"
    using assms(3) by (intro ext) (simp add: parse_body_structure.simps Let_def)
  then show ?thesis using reads_expect_snd [OF reads_noskip [OF assms(4,1,2)], of "CHR ''(''"] by simp
qed

lemma reads_multipart:
  assumes "list_all2 (\<lambda>b w. body_wire n b w \<and> reads (parse_body_structure d) w b) parts ws" "ws \<noteq> []"
    and "astring_wire st b" "tail_wire t"
  shows "reads (\<lambda>c. andthen (body_parts d c []) (\<lambda>q. parse_multipart_end (fst q) (snd q)))
    (concat ws @ SP # b @ t) (Body_structure ''multipart'' st [] [] [] [] 0 parts)"
  unfolding reads_def
proof (intro allI impI)
  fix c rest assume c: "remaining c = (concat ws @ SP # b @ t) @ rest" and r: "bounded rest"
  note h = astring_wire_head [OF assms(3)]
  obtain c1 where c1: "body_parts d c [] = Done (parts, c1)" "remaining c1 = b @ t @ rest"
    using reads_parts [OF assms(1), of c "b @ t @ rest" "[]"] c h assms(2) by auto
  have "reads (parse_multipart_end parts) (b @ t) (Body_structure ''multipart'' st [] [] [] [] 0 parts)"
    unfolding parse_multipart_end_def
    by (intro reads_andthen [OF reads_astring [OF assms(3)]] last_tail [OF assms(4)] tail_bounded assms)
  then show "\<exists>c'. andthen (body_parts d c []) (\<lambda>q. parse_multipart_end (fst q) (snd q)) =
      Done (Body_structure ''multipart'' st [] [] [] [] 0 parts, c') \<and> remaining c' = rest"
    using readsD [of _ _ _ c1 rest] c1 r by fastforce
qed

lemma reads_if:
  "u \<noteq> [] \<Longrightarrow> reads (if hd u = ch then p else q) u x \<Longrightarrow> reads (\<lambda>c. if peek c = ch then p c else q c) u x"
  by (auto simp: reads_def peek_remaining)

lemma reads_body_structure:
  "body_wire n b w \<Longrightarrow> d + n \<le> kMaxBodyStructureDepth \<Longrightarrow> reads (parse_body_structure d) w b"
proof (induction n b w arbitrary: d rule: body_wire.induct)
  case (basic ty a st b ps p ident i desc ds enc e n t l)
  have h: "a \<noteq> []" "hd a \<noteq> SP" "hd a \<noteq> CHR ''(''" using astring_wire_head [OF basic(1)] by auto
  show ?case
    by (intro reads_node reads_if) (use h basic reads_basic_part in \<open>simp_all add: hd_append\<close>)
next
  case (multipart l parts ws st b t)
  have c: "list_all2 (\<lambda>b w. body_wire l b w \<and> reads (parse_body_structure (d + 1)) w b) parts ws"
    using multipart(1) by (rule list_all2_mono) (use multipart.prems in simp)
  have ne: "ws \<noteq> []" using multipart(1,2) by auto
  then have "concat ws \<noteq> [] \<and> hd (concat ws) = CHR ''(''"
    using c body_wire_head by (cases ws; cases parts) fastforce+
  then show ?case
    by (intro reads_node reads_if)
      (use reads_multipart [OF c ne multipart(3,4)] multipart.prems in \<open>auto simp: hd_append\<close>)
qed

section \<open>Attributes\<close>

datatype fetch_datum = Flags_datum "message_flag list" | Uid_datum nat | Date_datum octets
  | Size_datum nat | Envelope_datum envelope | Structure_datum body_structure
  | Section_datum octets octets | Other_datum octets

definition known_keys :: "octets list" where
  "known_keys = [''FLAGS'', ''UID'', ''INTERNALDATE'', ''RFC822.SIZE'', ''ENVELOPE'', ''BODYSTRUCTURE'']"

fun datum_wire :: "fetch_datum \<Rightarrow> octets \<Rightarrow> bool" where
  "datum_wire (Flags_datum fl) w \<longleftrightarrow> w = ''FLAGS'' @ SP # CHR ''('' # sp_join (map flag_name fl) @ '')''"
| "datum_wire (Uid_datum n) w \<longleftrightarrow> n \<le> u32_max \<and> w = ''UID'' @ SP # to_chars n"
| "datum_wire (Date_datum v) w \<longleftrightarrow> (\<exists>x. quoted_wire v x \<and> w = ''INTERNALDATE'' @ SP # x)"
| "datum_wire (Size_datum n) w \<longleftrightarrow> n \<le> u64_max \<and> w = ''RFC822.SIZE'' @ SP # to_chars n"
| "datum_wire (Envelope_datum e) w \<longleftrightarrow> (\<exists>x. envelope_wire e x \<and> w = ''ENVELOPE'' @ SP # x)"
| "datum_wire (Structure_datum b) w \<longleftrightarrow>
     (\<exists>x. body_wire kMaxBodyStructureDepth b x \<and> w = ''BODYSTRUCTURE'' @ SP # x)"
| "datum_wire (Section_datum spec v) w \<longleftrightarrow>
     spec \<noteq> [] \<and> CHR ''['' \<notin> set spec \<and> CHR '']'' \<notin> set spec \<and>
     (\<exists>x. nstring_wire v x \<and> w = (''BODY['' @ spec @ '']'') @ SP # x)"
| "datum_wire (Other_datum key) w \<longleftrightarrow>
     plain_atom key \<and> CHR ''['' \<notin> set key \<and> \<not> list_ex (ascii_iequals key) known_keys \<and>
     (\<exists>x. value_wire x \<and> w = key @ SP # x)"

fun apply_datum :: "fetch_datum \<Rightarrow> message_attributes \<Rightarrow> message_attributes" where
  "apply_datum (Flags_datum fl) m = m\<lparr>ma_flags := fold (\<lambda>f s. flag_set_flag s f True) fl (ma_flags m)\<rparr>"
| "apply_datum (Uid_datum n) m = m\<lparr>ma_uid := n\<rparr>"
| "apply_datum (Date_datum v) m = m\<lparr>ma_internal_date := v\<rparr>"
| "apply_datum (Size_datum n) m = m\<lparr>ma_rfc822_size := n\<rparr>"
| "apply_datum (Envelope_datum e) m = m\<lparr>ma_envelope := Some e\<rparr>"
| "apply_datum (Structure_datum b) m = m\<lparr>ma_body_structure := Some b\<rparr>"
| "apply_datum (Section_datum spec v) m =
     m\<lparr>ma_sections := ma_sections m @ [\<lparr>sec_specifier = spec, sec_data = v\<rparr>]\<rparr>"
| "apply_datum (Other_datum key) m = m"

lemma fetch_flag_name: "fetch_flag (flag_name f) fs = flag_set_flag fs f True"
  by (cases f) (simp_all add: fetch_flag_def ascii_iequals_iff_map ascii_to_upper_def)

lemma reads_flag_items:
  "remaining c = pre @ sp_join (map flag_name fl) @ '')'' @ rest \<Longrightarrow> pre = [] \<or> pre = [SP] \<Longrightarrow>
     \<exists>c'. fetch_flag_items c fs = Done (fold (\<lambda>f s. flag_set_flag s f True) fl fs, c') \<and> remaining c' = rest"
proof (induction fl arbitrary: c fs pre)
  case Nil
  then show ?case using loop_close [of c rest] by (subst fetch_flag_items.simps) (auto simp: Let_def)
next
  case (Cons f fl)
  let ?t = "(if fl = [] then [] else [SP]) @ sp_join (map flag_name fl) @ '')'' @ rest"
  let ?x = "flag_name f"
  have x: "list_all (\<lambda>z. z \<notin> set '' ()'') ?x" "?x \<noteq> []" "hd ?x \<noteq> SP" "hd ?x \<noteq> CHR '')''"
    by (cases f; simp)+
  have r: "remaining (skip_spaces c) = ?x @ ?t"
    using Cons.prems x by (cases ?x) (auto simp: remaining_skip_spaces)
  have ends: "?t = [] \<or> \<not> (\<lambda>z. z \<notin> set '' ()'') (hd ?t)" by (cases fl) auto
  let ?c = "snd (read_until_any '' ()'' (skip_spaces c))"
  have c': "fst (read_until_any '' ()'' (skip_spaces c)) = ?x" "remaining ?c = ?t"
    using run_split [OF x(1) ends] r by (simp_all add: unread)
  have "fetch_flag_items c fs = fetch_flag_items ?c (flag_set_flag fs f True)"
    using c' loop_item [OF r] x by (subst fetch_flag_items.simps) (simp add: Let_def fetch_flag_name)
  then show ?case using Cons.IH [OF c'(2), of "flag_set_flag fs f True"] by simp
qed

lemma reads_flag_list:
  "reads (\<lambda>c. fetch_flag_list c fs) (CHR ''('' # sp_join (map flag_name fl) @ '')'')
     (fold (\<lambda>f s. flag_set_flag s f True) fl fs)"
  unfolding fetch_flag_list_def
  by (rule reads_expect_snd) (use reads_flag_items [of _ "[]"] in \<open>simp add: reads_def\<close>)

lemma reads_map: "reads p w v \<Longrightarrow> reads (\<lambda>c. andthen (p c) (\<lambda>(v, c). Done (f v, c))) w (f v)"
  using reads_andthen [of p w v "\<lambda>v c. Done (f v, c)" "[]" "f v"] reads_Done [of "f v"] by simp

definition good_key :: "octets \<Rightarrow> bool" where
  "good_key key \<longleftrightarrow>
     key \<noteq> [] \<and> hd key \<noteq> SP \<and> hd key \<noteq> CHR '')'' \<and> (\<forall>rest. key_length 0 (key @ SP # rest) = length key)"

lemma key_length_atom: "list_all is_atom_char key \<Longrightarrow> CHR ''['' \<notin> set key \<Longrightarrow> key_length 0 (key @ SP # rest) = length key"
  by (induction key) (auto simp: Let_def)

lemma key_length_inside:
  "CHR ''['' \<notin> set spec \<Longrightarrow> CHR '']'' \<notin> set spec \<Longrightarrow>
     key_length 1 (spec @ CHR '']'' # SP # rest) = length spec + 1"
  by (induction spec) (auto simp: Let_def)

lemma atom_key: "plain_atom key \<Longrightarrow> CHR ''['' \<notin> set key \<Longrightarrow> good_key key"
  using plain_atom_head [of key] by (auto simp: good_key_def key_length_atom plain_atom_def)

lemma known_keys_good: "key \<in> set known_keys \<Longrightarrow> good_key key"
  by (rule atom_key) (auto simp: known_keys_def plain_atom_def char_class)

lemma section_key:
  "CHR ''['' \<notin> set spec \<Longrightarrow> CHR '']'' \<notin> set spec \<Longrightarrow> good_key (''BODY['' @ spec @ '']'')"
  using key_length_inside [of spec] by (simp add: good_key_def Let_def)

lemmas key_eqs = ascii_iequals_iff_map ascii_to_upper_def

lemma attribute_value_known:
  "attribute_value ''FLAGS'' c m =
     andthen (fetch_flag_list c (ma_flags m)) (\<lambda>(fs, c'). Done (m\<lparr>ma_flags := fs\<rparr>, c'))"
  "attribute_value ''UID'' c m = andthen (num_at c) (\<lambda>(n, c'). Done (m\<lparr>ma_uid := wrap32 n\<rparr>, c'))"
  "attribute_value ''INTERNALDATE'' c m = andthen (astr c) (\<lambda>(v, c'). Done (m\<lparr>ma_internal_date := v\<rparr>, c'))"
  "attribute_value ''RFC822.SIZE'' c m = andthen (num_at c) (\<lambda>(n, c'). Done (m\<lparr>ma_rfc822_size := n\<rparr>, c'))"
  "attribute_value ''ENVELOPE'' c m =
     andthen (parse_envelope c empty_envelope) (\<lambda>(e, c'). Done (m\<lparr>ma_envelope := Some e\<rparr>, c'))"
  "attribute_value ''BODYSTRUCTURE'' c m =
     andthen (parse_body_structure 0 c) (\<lambda>(b, c'). Done (m\<lparr>ma_body_structure := Some b\<rparr>, c'))"
  by (simp_all add: attribute_value_def key_eqs)

lemma attribute_value_section:
  "spec \<noteq> [] \<Longrightarrow> attribute_value (''BODY['' @ spec @ '']'') c m =
     andthen (read_nstr [] c) (\<lambda>(v, c'). Done (m\<lparr>ma_sections := ma_sections m @
       [\<lparr>sec_specifier = spec, sec_data = v\<rparr>]\<rparr>, c'))"
  by (cases spec) (simp_all add: attribute_value_def body_section_value_def)

lemma upper_bracket: "CHR ''['' = ascii_to_upper z \<Longrightarrow> z = CHR ''[''"
  by (auto simp: ascii_to_upper_def split: if_splits dest!: arg_cong [of _ _ "of_char :: char \<Rightarrow> nat"])

lemma attribute_value_other:
  assumes "\<not> list_ex (ascii_iequals key) known_keys" "CHR ''['' \<notin> set key"
  shows "attribute_value key c m = andthen (skip_value c) (\<lambda>(_, c'). Done (m, c'))"
proof -
  have "\<not> ascii_iequals (take 5 key) ''BODY[''"
  proof
    assume "ascii_iequals (take 5 key) ''BODY[''"
    moreover have "CHR ''['' \<in> set (map ascii_to_upper ''BODY['')" by (simp add: ascii_to_upper_def)
    ultimately have "CHR ''['' \<in> set (map ascii_to_upper (take 5 key))" by (simp add: ascii_iequals_iff_map)
    then obtain z where "z \<in> set (take 5 key)" "CHR ''['' = ascii_to_upper z" by auto
    then show False using assms(2) upper_bracket [of z] by (auto dest: in_set_takeD)
  qed
  then show ?thesis using assms(1) by (simp add: attribute_value_def known_keys_def)
qed

definition datum_read :: "fetch_datum \<Rightarrow> octets \<Rightarrow> octets \<Rightarrow> octets \<Rightarrow> bool" where
  "datum_read d w key x \<longleftrightarrow> w = key @ SP # x \<and> good_key key \<and> x \<noteq> [] \<and> hd x \<noteq> SP \<and>
     (\<forall>m. reads (\<lambda>c. attribute_value key c m) x (apply_datum d m))"

lemma datum_reads:
  assumes "datum_wire d w" shows "\<exists>key x. datum_read d w key x"
proof (cases d)
  case (Flags_datum fl)
  have "datum_read d w ''FLAGS'' (CHR ''('' # sp_join (map flag_name fl) @ '')'')"
    using assms unfolding Flags_datum datum_read_def attribute_value_known apply_datum.simps
    by (intro conjI allI reads_map [OF reads_flag_list]) (simp_all add: known_keys_good known_keys_def)
  then show ?thesis by blast
next
  case (Uid_datum n)
  have n: "n \<le> u64_max" "wrap32 n = n" using assms Uid_datum by (auto simp: u64_max_def u32_max_def)
  have "reads (\<lambda>c. attribute_value ''UID'' c m) (to_chars n) (m\<lparr>ma_uid := n\<rparr>)" for m
    using reads_map [OF reads_number [OF n(1)], of "\<lambda>n. m\<lparr>ma_uid := wrap32 n\<rparr>"] n(2)
    unfolding attribute_value_known by simp
  then have "datum_read d w ''UID'' (to_chars n)"
    using assms to_chars_head [of n] unfolding Uid_datum datum_read_def
    by (simp add: known_keys_good known_keys_def)
  then show ?thesis by blast
next
  case (Date_datum v)
  then obtain x where x: "quoted_wire v x" "w = ''INTERNALDATE'' @ SP # x" using assms by auto
  then have a: "astring_wire v x" by (simp add: astring_wire_def)
  have "datum_read d w ''INTERNALDATE'' x"
    using x(2) astring_wire_head [OF a] unfolding Date_datum datum_read_def attribute_value_known apply_datum.simps
    by (intro conjI allI reads_map [OF reads_astring [OF a]]) (simp_all add: known_keys_good known_keys_def)
  then show ?thesis by blast
next
  case (Size_datum n)
  then have n: "n \<le> u64_max" "w = ''RFC822.SIZE'' @ SP # to_chars n" using assms by auto
  have "datum_read d w ''RFC822.SIZE'' (to_chars n)"
    using n(2) to_chars_head [of n] unfolding Size_datum datum_read_def attribute_value_known apply_datum.simps
    by (intro conjI allI reads_map [OF reads_number [OF n(1)]]) (simp_all add: known_keys_good known_keys_def)
  then show ?thesis by blast
next
  case (Envelope_datum e)
  then obtain x where x: "envelope_wire e x" "w = ''ENVELOPE'' @ SP # x" using assms by auto
  then have "x \<noteq> []" "hd x \<noteq> SP" by (auto simp: envelope_wire_def)
  then have "datum_read d w ''ENVELOPE'' x"
    using x(2) unfolding Envelope_datum datum_read_def attribute_value_known apply_datum.simps
    by (intro conjI allI reads_map [OF reads_envelope [OF x(1)]]) (simp_all add: known_keys_good known_keys_def)
  then show ?thesis by blast
next
  case (Structure_datum b)
  then obtain x where x: "body_wire kMaxBodyStructureDepth b x" "w = ''BODYSTRUCTURE'' @ SP # x"
    using assms by auto
  have r: "reads (parse_body_structure 0) x b" using reads_body_structure [OF x(1), of 0] by simp
  have "datum_read d w ''BODYSTRUCTURE'' x"
    using x(2) body_wire_head [OF x(1)] unfolding Structure_datum datum_read_def attribute_value_known apply_datum.simps
    by (intro conjI allI reads_map [OF r]) (simp_all add: known_keys_good known_keys_def)
  then show ?thesis by blast
next
  case (Section_datum spec v)
  then obtain x where x: "nstring_wire v x" "w = (''BODY['' @ spec @ '']'') @ SP # x" "spec \<noteq> []"
      "good_key (''BODY['' @ spec @ '']'')"
    using assms section_key [of spec] by auto
  have "datum_read d w (''BODY['' @ spec @ '']'') x"
    using x(2,4) nstring_wire_head [OF x(1)] unfolding Section_datum datum_read_def attribute_value_section [OF x(3)] apply_datum.simps
    by (intro conjI allI reads_map [OF reads_nstr [OF x(1)]]) (simp_all)
  then show ?thesis by blast
next
  case (Other_datum key)
  then obtain x where x: "value_wire x" "w = key @ SP # x" "plain_atom key" "CHR ''['' \<notin> set key"
      "\<not> list_ex (ascii_iequals key) known_keys" using assms by auto
  have "datum_read d w key x"
    using x(2) atom_key [OF x(3,4)] value_wire_head [OF x(1)] unfolding Other_datum datum_read_def attribute_value_other [OF x(5,4)] apply_datum.simps
    by (intro conjI allI reads_map [OF reads_value [OF x(1)]]) (simp_all)
  then show ?thesis by blast
qed

lemma walk_printed:
  "list_all2 datum_wire ds ws \<Longrightarrow> pre = [] \<or> pre = [SP] \<Longrightarrow>
     walk_items attribute_value (pre @ sp_join ws @ '')'' @ rest) m = Some (Done (fold apply_datum ds m))"
proof (induction ds ws arbitrary: pre m rule: list_all2_induct)
  case Nil
  then show ?case by (subst walk_items.simps) (auto simp: Let_def)
next
  case (Cons d ds w ws)
  obtain key x where k: "w = key @ SP # x" "good_key key" "x \<noteq> []" "hd x \<noteq> SP"
      "\<And>m. reads (\<lambda>c. attribute_value key c m) x (apply_datum d m)"
    using datum_reads [OF Cons(1)] unfolding datum_read_def by blast
  let ?t = "(if ws = [] then [] else [SP]) @ sp_join ws @ '')'' @ rest"
  have r: "dropWhile (\<lambda>x. x = SP) (pre @ sp_join (w # ws) @ '')'' @ rest) = key @ SP # x @ ?t"
    using Cons.prems k(1,2) by (cases key) (auto simp: good_key_def)
  have x: "dropWhile (\<lambda>x. x = SP) (x @ ?t) = x @ ?t" using k(3,4) by (cases x) auto
  have "bounded ?t" by (cases ws) auto
  then obtain c' where c': "attribute_value key (mk_cursor (x @ ?t)) m = Done (apply_datum d m, c')" "remaining c' = ?t"
    using readsD [OF k(5) [of m], of "mk_cursor (x @ ?t)" ?t] by auto
  have "walk_items attribute_value (pre @ sp_join (w # ws) @ '')'' @ rest) m =
      walk_items attribute_value (remaining c') (apply_datum d m)"
    using k(2) x c'(1) by (subst walk_items.simps, unfold r Let_def) (simp add: good_key_def hd_append)
  then show ?case using Cons.IH [of "if ws = [] then [] else [SP]" "apply_datum d m"] c'(2) by simp
qed

section \<open>Properties\<close>


definition sample_address :: address where
  "sample_address = empty_address\<lparr>ad_mailbox_name := ''joe'', ad_host_name := ''x.org''\<rparr>"

definition sample_body :: body_structure where
  "sample_body = Body_structure ''text'' ''plain'' [(''charset'', ''utf-8'')] [] [] ''7bit'' 12 []"

lemma atom_wireI: "plain_atom v \<Longrightarrow> hd v \<noteq> CHR ''~'' \<Longrightarrow> atom_wire v v"
  by (simp add: atom_wire_def)

lemma sample_atoms:
  "atom_wire ''text'' ''text''" "atom_wire ''plain'' ''plain''" "atom_wire ''7bit'' ''7bit''"
  "atom_wire ''charset'' ''charset''" "atom_wire ''utf-8'' ''utf-8''" "atom_wire ''1'' ''1''"
  by (rule atom_wireI; code_simp)+

lemma sample_params: "params_wire [(''charset'', ''utf-8'')] ''(charset utf-8)''"
proof -
  have "param_wire (''charset'', ''utf-8'') (''charset'' @ SP # ''utf-8'')"
    unfolding param_wire_def using sample_atoms
    by (intro exI [of _ "''charset''"] exI [of _ "''utf-8''"])
      (simp add: astring_wire_def escaped_wire_def quoted_wire_def quote_def)
  then show ?thesis
    unfolding params_wire_def by (intro disjI2 exI [of _ "[''charset'' @ SP # ''utf-8'']"]) simp
qed

lemma sample_tail: "tail_wire '' 1)''"
  unfolding tail_wire_def
  by (intro exI [of _ "[''1'']"]) (use value_wire.atom [OF sample_atoms(6)] in simp)

lemma sample_body_wire: "body_wire d sample_body ''(text plain (charset utf-8) NIL NIL 7bit 12 1)''"
proof -
  have n: "to_chars 12 = ''12''" "(12 :: nat) \<le> u64_max" by code_simp (simp add: u64_max_def)
  have "nstring_wire [] ''NIL''" by (simp add: nstring_wire_def)
  then show ?thesis
    unfolding sample_body_def
    using body_wire.basic [OF _ _ sample_params _ _ _ n(2) sample_tail, of "''text''" "''text''" "''plain''"
        "''plain''" "[]" "''NIL''" "[]" "''NIL''" "''7bit''" "''7bit''" d] sample_atoms n(1)
    by (simp add: astring_wire_def)
qed

lemma sample_address_wire:
  "address_wire sample_address (''(NIL NIL '' @ quote ''joe'' @ '' '' @ quote ''x.org'' @ '')'')"
proof -
  have "list_all is_text_char ''joe''" "list_all is_text_char ''x.org''" by code_simp+
  then show ?thesis
    unfolding address_wire_def sample_address_def empty_address_def
    by (intro exI [of _ "''NIL''"] exI [of _ "quote ''joe''"] exI [of _ "quote ''x.org''"])
      (simp add: nstring_wire_def quoted_wire_def)
qed

definition sample_data :: "(fetch_datum \<times> octets) list" where
  "sample_data =
     [(Uid_datum 7, ''UID 7''), (Flags_datum [Seen], ''FLAGS ('' @ flag_name Seen @ '')''),
      (Structure_datum (Body_structure ''multipart'' ''plain'' [] [] [] [] 0 [sample_body]),
       ''BODYSTRUCTURE ((text plain (charset utf-8) NIL NIL 7bit 12 1) plain 1)''),
      (Section_datum ''TEXT'' CRLF, ''BODY[TEXT] '' @ literal_marker (length CRLF) Synchronizing @ CRLF @ CRLF)]"

lemma sample_data_wire: "list_all2 datum_wire (map fst sample_data) (map snd sample_data)"
proof -
  have u: "to_chars 7 = ''7''" "(7 :: nat) \<le> u32_max" "(2 :: nat) \<le> u64_max"
    by code_simp (simp_all add: u64_max_def u32_max_def)
  have m: "body_wire 32 (Body_structure ''multipart'' ''plain'' [] [] [] [] 0 [sample_body])
      ''((text plain (charset utf-8) NIL NIL 7bit 12 1) plain 1)''"
    using body_wire.multipart [of 31 "[sample_body]" "[''(text plain (charset utf-8) NIL NIL 7bit 12 1)'']"
        "''plain''" "''plain''" "'' 1)''"] sample_body_wire [of 31] sample_atoms(2) sample_tail
    by (simp add: astring_wire_def)
  have "nstring_wire CRLF (literal_marker (length CRLF) Synchronizing @ CRLF @ CRLF)"
    using u(3) by (intro nstring_wire_def [THEN iffD2] disjI2) (auto simp: literal_wire_def)
  then show ?thesis using u m by (simp add: sample_data_def kMaxBodyStructureDepth_def)
qed


text \<open>
  C31. The walk over an attribute list always returns: on every text, however malformed, each of the
  three attribute parsers ends with a result, a rejection or a dead view; a rejection leaves the
  connection alive, since the caller only drops the response.
\<close>

theorem walks_return:
  "(\<exists>r. parse_fetch_attributes attrs m = Some r) \<and> (\<exists>r. parse_envelope_attribute attrs env = Some r) \<and>
   (\<exists>r. parse_body_section_attribute attrs section_prefix v = Some r)"
  using walks_defined by blast

text \<open>
  A body parameter is read through a dead view: when the name and the value of a parameter
  are both quoted strings with an escape, the value overwrites the scratch buffer the name points
  into before the name is copied.
\<close>

theorem parameter_name_dangles:
  assumes "escaped_wire n a" "escaped_wire v b" "bounded t" "remaining c = CHR ''('' # a @ SP # b @ t"
  shows "parse_body_params c ps = Dangling"
proof -
  have w: "astring_wire n a" "astring_wire v b" using assms(1,2) by (auto simp: escaped_wire_def astring_wire_def)
  obtain c1 where c1: "expect (CHR ''('') c = Done ((), c1)" "remaining c1 = a @ SP # b @ t"
    using expect_rem [OF assms(4)] by blast
  then have "param_items c1 ps = Dangling"
    using param_round [OF w assms(3), of c1 "[]" ps] assms(1,2) by auto
  then show ?thesis using c1(1) not_nil_paren [OF assms(4)] by (simp add: parse_body_params_def)
qed

theorem parameter_name_dangles_witness:
  "escaped_wire [BSLASH] (quote [BSLASH]) \<and> bounded '')'' \<and>
   parse_body_params (mk_cursor (CHR ''('' # quote [BSLASH] @ SP # quote [BSLASH] @ '')'')) [] = Dangling"
proof -
  have e: "escaped_wire [BSLASH] (quote [BSLASH])" by (simp add: escaped_wire_def quoted_wire_def char_class)
  have b: "bounded '')''" by simp
  show ?thesis using e b parameter_name_dangles [OF e e b remaining_mk_cursor] by blast
qed

text \<open>
  A whole message is lost: the payload of \<open>BODY[]\<close>, the one section with an empty
  specifier, is skipped and does not reach the sections, because the key must be longer than its
  own frame; every other section is kept.
\<close>

theorem whole_body_dropped:
  assumes "nstring_wire v x"
  shows "parse_fetch_attributes (''(BODY[] '' @ x @ '')'' @ rest) m = Some (Done m)"
proof -
  have w: "value_wire x"
    using assms value_wire.quoted value_wire.literal value_wire.atom [of "''NIL''"]
    by (auto simp: nstring_wire_def atom_wire_def plain_atom_def char_class)
  have x: "x \<noteq> []" "hd x \<noteq> SP" using value_wire_head [OF w] by auto
  have k: "key_length 0 (''BODY[]'' @ SP # x @ '')'' @ rest) = 6" by (simp add: Let_def)
  have d: "dropWhile (\<lambda>z. z = SP) (SP # x @ '')'' @ rest) = x @ '')'' @ rest" using x by (cases x) auto
  obtain c' where c': "skip_value (mk_cursor (x @ '')'' @ rest)) = Done ((), c')" "remaining c' = '')'' @ rest"
    using readsD [OF reads_value [OF w], of "mk_cursor (x @ '')'' @ rest)" "'')'' @ rest"] by auto
  have a: "attribute_value ''BODY[]'' (mk_cursor (x @ '')'' @ rest)) m = Done (m, c')"
    using c'(1) by (simp add: attribute_value_def key_eqs)
  have "walk_items attribute_value (''BODY[]'' @ SP # x @ '')'' @ rest) m =
      walk_items attribute_value ('')'' @ rest) m"
    using k d a c'(2) by (subst walk_items.simps) (simp add: Let_def)
  also have "\<dots> = Some (Done m)" by (subst walk_items.simps) (simp add: Let_def)
  finally show ?thesis by (simp add: parse_fetch_attributes_def walk_fetch_attributes_def)
qed

theorem whole_body_dropped_witness:
  "nstring_wire ''mail'' (quote ''mail'') \<and>
   parse_fetch_attributes (''(BODY[] '' @ quote ''mail'' @ '')'' @ []) empty_attributes = Some (Done empty_attributes)"
proof -
  have "list_all is_text_char ''mail''" by code_simp
  then have w: "nstring_wire ''mail'' (quote ''mail'')" by (simp add: nstring_wire_def quoted_wire_def)
  show ?thesis using w whole_body_dropped [OF w] by blast
qed

lemma deep_rejected:
  "remaining c = replicate n (CHR ''('') @ rest \<Longrightarrow> n + d > kMaxBodyStructureDepth + 1 \<Longrightarrow>
     parse_body_structure d c = Malformed"
proof (induction "kMaxBodyStructureDepth + 1 - d" arbitrary: d c n)
  case 0
  then show ?case by (simp add: parse_body_structure.simps)
next
  case (Suc k)
  then obtain m where n: "n = Suc (Suc m)" by (cases n; cases "n - 1") auto
  obtain c1 where c1: "expect (CHR ''('') c = Done ((), c1)" "remaining c1 = replicate (Suc m) (CHR ''('') @ rest"
    using expect_rem [of c "CHR ''(''"] Suc.prems(1) n by auto
  have s: "remaining (skip_spaces c1) = replicate (Suc m) (CHR ''('') @ rest"
    using c1(2) by (simp add: remaining_skip_spaces)
  then have "parse_body_structure (d + 1) (skip_spaces c1) = Malformed"
    using Suc.hyps(1) [of "d + 1" "skip_spaces c1" "Suc m"] Suc.hyps(2) Suc.prems(2) n by auto
  then have "body_parts (d + 1) (skip_spaces c1) [] = Malformed"
    using s by (subst body_parts.simps) (simp add: peek_remaining)
  then show ?case
    using c1(1) s by (subst parse_body_structure.simps) (simp add: Let_def peek_remaining)
qed

text \<open>
  Nesting is bounded for structures: a BODYSTRUCTURE that opens more than
  \<open>kMaxBodyStructureDepth\<close> levels below the first is rejected, whatever follows, so that the
  recursion of the parser is at most 34 calls deep.
\<close>

theorem structure_depth_bounded:
  assumes "n > kMaxBodyStructureDepth + 1"
  shows "parse_body_structure 0 (mk_cursor (replicate n (CHR ''('') @ rest)) = Malformed"
  using deep_rejected [of "mk_cursor (replicate n (CHR ''('') @ rest)" n rest 0] assms by simp

theorem structure_depth_bounded_witness:
  "parse_body_structure 0 (mk_cursor (replicate 40 (CHR ''('') @ [])) = Malformed"
  by (rule structure_depth_bounded) (simp add: kMaxBodyStructureDepth_def)

end
