(* ===== verification/Living.thy ===== *)
theory Living
  imports Engine
begin

text \<open>
  The contexts layer 2 works with: reachable by a run of the engine and not abandoned by their
  owner. Every call layer 2 makes and everything the context does on its own keeps this.
\<close>

section \<open>Nothing but the owner abandons a context\<close>

lemma extract_abandoned: "extract_staged ids s = (cs, s') \<Longrightarrow> abandoned s' = abandoned s"
  using extract_staged_mset by fastforce

lemma extract_one_abandoned: "extract_from_queue_locked i s = (r, s') \<Longrightarrow> abandoned s' = abandoned s"
  by (auto simp: extract_from_queue_locked_def split: prod.splits)

lemma flush_staged_abandoned: "flush_staged ids s = (cs, s') \<Longrightarrow> abandoned s' = abandoned s"
proof (induction ids arbitrary: s cs s')
  case (Cons i ids)
  then show ?case
    by (auto simp: Let_def split: option.splits if_splits prod.splits dest!: Cons.IH extract_one_abandoned)
qed simp

lemma posts_abandoned [simp]: "abandoned (post_complete_stopped f c s) = abandoned s"
  by (simp add: post_complete_stopped_def)

lemma fold_posts_abandoned [simp]: "abandoned (fold (post_complete_stopped f) cs s) = abandoned s"
  by (induction cs arbitrary: s) simp_all

lemma kick_abandoned [simp]: "abandoned (kick s) = abandoned s"
  by (simp add: kick_def Let_def split: prod.split)

lemma write_pump_abandoned:
  "abandoned (arm_write f ids s) = abandoned s" "abandoned (kick_receiver ec s) = abandoned s"
  "abandoned (on_write_done f ec ids s) = abandoned s" "abandoned (write_receiver f ec s) = abandoned s"
proof -
  show a: "abandoned (arm_write f ids s) = abandoned s" "abandoned (on_write_done f ec ids s) = abandoned s" for s ids
    by (auto simp: arm_write_def on_write_done_def Let_def split: prod.splits
        dest!: extract_abandoned flush_staged_abandoned)
  show "abandoned (kick_receiver ec s) = abandoned s" by (simp add: kick_receiver_def Let_def)
  show "abandoned (write_receiver f ec s) = abandoned s"
    by (simp add: write_receiver_def a(2) split: option.split prod.split)
qed

lemma broadcast_abandoned: "broadcast r is s = Some s' \<Longrightarrow> abandoned s' = abandoned s"
  by (induction r "is" s rule: broadcast.induct) (auto split: option.splits)

lemma dispatch_abandoned: "dispatch f msg s = Some (ok, s') \<Longrightarrow> abandoned s' = abandoned s"
  by (auto simp: dispatch_def dispatch_tagged_def dispatch_untagged_def dispatch_continuation_def Let_def
      extract_from_queue_locked_def dest!: broadcast_abandoned
      split: option.splits server_response.splits prod.splits if_splits)

lemma read_pump_abandoned:
  "abandoned (read_receiver ops ec chunk s) = abandoned s"
  "read_round ops f s = Some s' \<Longrightarrow> abandoned s' = abandoned s"
  by (auto simp: read_receiver_def read_round_def on_read_def on_read_lost_def on_read_stop_def on_read_rearm_def
      arm_pump_def Let_def dest!: dispatch_abandoned split: option.splits prod.splits if_splits)

lemma calls_abandoned:
  "submit f a s = Some (b, s') \<Longrightarrow> abandoned s' = abandoned s"
  "cancel f t s = Some s' \<Longrightarrow> abandoned s' = abandoned s"
  by (auto simp: submit_def make_cell_def enqueue_operation_def allocate_tag_def cancel_def cancel_entry_def
      find_and_detach_locked_def detach_locked_def finish_cancellation_def extract_from_queue_locked_def Let_def
      split: prod.splits if_splits option.splits)

lemma stopped_receiver_abandoned: "abandoned (stopped_receiver n s) = abandoned s"
  by (simp add: stopped_receiver_def split: list.split)

section \<open>Living contexts\<close>

text \<open>What a context does on its own, while no call is made on it.\<close>

fun environment :: "action \<Rightarrow> bool" where
  "environment (Run_kick ec) = True"
| "environment (Arm_write f) = True"
| "environment (Finish_write f ec) = True"
| "environment (Run_stop n) = True"
| "environment (Finish_read ec chunk) = True"
| "environment (Read_round f) = True"
| "environment _ = False"

text \<open>A context that some run of the engine reaches and that its shell has not abandoned.\<close>

definition living :: "'b buffer_ops \<Rightarrow> 'b core \<Rightarrow> bool" where
  "living ops k \<longleftrightarrow> reachable ops k \<and> \<not> abandoned k"

lemma living_inv: "living ops k \<Longrightarrow> core_inv k"
  unfolding living_def using reachable_inv by blast

lemma living_step:
  "living ops k \<Longrightarrow> enabled a k \<Longrightarrow> perform ops a k = Some k' \<Longrightarrow> abandoned k' = abandoned k \<Longrightarrow> living ops k'"
  unfolding living_def using reachable.step by blast

lemma living_calls:
  "living ops k \<Longrightarrow> submit f a k = Some (b, k') \<Longrightarrow> living ops k'"
  "living ops k \<Longrightarrow> cancel f t k = Some k' \<Longrightarrow> living ops k'"
  "living ops k \<Longrightarrow> living ops (flush f k)"
  "living ops k \<Longrightarrow> living ops (snd (on_unsolicited k))"
  "living ops k \<Longrightarrow> living ops (reset_registration h k)"
  "living ops k \<Longrightarrow> living ops (suspend_read_for_relocation k)"
  "living ops k \<Longrightarrow> living ops (close k)"
  using living_step [of ops k "Submit f a"] living_step [of ops k "Cancel f t"] living_step [of ops k "Flush f"]
    living_step [of ops k Add_handler_call] living_step [of ops k "Reset_token_call h"]
    living_step [of ops k Suspend_read] living_step [of ops k Close]
  by (auto simp: living_def calls_abandoned flush_def on_unsolicited_def reset_registration_def
      suspend_read_for_relocation_def close_def Let_def take_cells_locked_def split: prod.splits)

lemma living_fresh: "living ops (arm_read f (new_core b))"
proof -
  have "\<not> abandoned (arm_read f (new_core b))" by (simp add: arm_read_def arm_pump_def new_core_def)
  then show ?thesis unfolding living_def by (intro conjI reachable.fresh)
qed

lemma living_environment:
  "living ops k \<Longrightarrow> environment a \<Longrightarrow> enabled a k \<Longrightarrow> perform ops a k = Some k' \<Longrightarrow> living ops k'"
proof -
  assume k: "living ops k" "environment a" "enabled a k" "perform ops a k = Some k'"
  then have "abandoned k' = abandoned k"
    by (cases a) (auto simp: write_pump_abandoned read_pump_abandoned stopped_receiver_abandoned split: option.splits)
  then show ?thesis using living_step k by blast
qed

text \<open>A cell that has had its terminal event is in no list any more, and it has had only one.\<close>

lemma settled_cell:
  assumes "core_inv k" "i \<in> set (terminals (trace k))"
  shows "count_list (terminals (trace k)) i = 1 \<and>
    i \<notin> op_id ` set (write_queue k) \<and> i \<notin> op_id ` set (posted_stops k)"
proof -
  have "account k = mset [0 ..< next_id k]" using assms(1) by (simp add: core_inv_def ledger_def)
  then have "count (account k) i \<le> 1" by (simp add: count_mset_set')
  moreover have "count_list (terminals (trace k)) i \<noteq> 0" using assms(2) by (simp add: count_list_0_iff)
  ultimately have "count_list (terminals (trace k)) i = 1" "count_list (map op_id (write_queue k)) i = 0"
    "count_list (map op_id (posted_stops k)) i = 0"
    unfolding account_def by (simp_all add: count_mset del: mset_map)
  then show ?thesis by (simp add: count_list_0_iff)
qed

section \<open>The trace only grows\<close>

definition grows :: "'b core \<Rightarrow> 'b core \<Rightarrow> bool" where
  "grows s s' \<longleftrightarrow> (\<exists>evs. trace s' = trace s @ evs)"

lemma grows_same: "trace s' = trace s \<Longrightarrow> grows s s'"
  by (simp add: grows_def)

lemma grows_trans: "grows s s1 \<Longrightarrow> grows s1 s2 \<Longrightarrow> grows s s2"
  by (auto simp: grows_def)

lemma grows_from: "trace t = trace s \<Longrightarrow> grows t u \<Longrightarrow> grows s u"
  by (simp add: grows_def)

lemma basic_grows:
  "grows s (fail_cells ec cs s)" "grows s (drop_cells cs s)" "grows s (maybe_finish_close s)"
  "grows s (emit evs s)" "grows s (connection_lost ec s)"
proof -
  show "grows s (connection_lost ec s)"
    by (cases "phase s = Phase_closed")
      (simp_all add: connection_lost_eq grows_def fail_cells_def maybe_finish_close_def)
qed (simp_all add: grows_def fail_cells_def drop_cells_def maybe_finish_close_def)

lemma posting_grows: "grows s (post_kick f s)" "grows s (post_complete_stopped f c s)" "grows s (stopped_receiver n s)"
  using basic_grows(5) [of "s\<lparr>kick_posted := False\<rparr>" Not_enough_memory]
  by (auto simp: grows_def post_kick_def post_complete_stopped_def stopped_receiver_def split: list.splits)

lemma fold_posts_grows: "grows s (fold (post_complete_stopped f) cs s)"
  by (induction cs arbitrary: s) (auto intro: grows_same grows_trans posting_grows(2))

lemma extract_trace: "extract_staged ids s = (cs, s') \<Longrightarrow> trace s' = trace s"
  using extract_staged_mset by fastforce

lemma extract_one_trace: "extract_from_queue_locked i s = (r, s') \<Longrightarrow> trace s' = trace s"
  by (auto simp: extract_from_queue_locked_def split: prod.splits)

lemma flush_staged_trace: "flush_staged ids s = (cs, s') \<Longrightarrow> trace s' = trace s"
proof (induction ids arbitrary: s cs s')
  case (Cons i ids)
  then show ?case
    by (auto simp: Let_def split: option.splits if_splits prod.splits dest!: Cons.IH extract_one_trace)
qed simp

lemma kick_trace: "trace (kick s) = trace s"
  by (simp add: kick_def Let_def split: prod.split)

lemma arm_write_grows: "grows s (arm_write f ids s)"
proof -
  obtain cs s1 where e: "extract_staged ids (s\<lparr>arming := None\<rparr>) = (cs, s1)" by fastforce
  have "grows s s1" using extract_trace [OF e] by (simp add: grows_def)
  then have "grows s (maybe_finish_close (drop_cells cs (s1\<lparr>write_in_flight := False\<rparr>)))"
    "grows s (maybe_finish_close (fail_cells ec cs (s1\<lparr>write_in_flight := False\<rparr>)))" for ec
    by (auto simp: grows_def drop_cells_def fail_cells_def maybe_finish_close_def)
  moreover have "grows s (connection_lost ec (s\<lparr>arming := None, write_in_flight := False\<rparr>))" for ec
    by (rule grows_from [OF _ basic_grows(5)]) simp
  ultimately show ?thesis by (simp add: arm_write_def Let_def e grows_same)
qed

lemma on_write_done_grows: "grows s (on_write_done f ec ids s)"
proof -
  let ?s0 = "s\<lparr>write_in_flight := False\<rparr>"
  obtain cs s1 where e: "extract_staged ids ?s0 = (cs, s1)" by fastforce
  obtain ds s2 where fl: "flush_staged ids ?s0 = (ds, s2)" by fastforce
  have s1: "grows s s1" using extract_trace [OF e] by (simp add: grows_def)
  have s2: "grows s s2" using flush_staged_trace [OF fl] by (simp add: grows_def)
  have x: "grows s (maybe_finish_close (drop_cells cs s1))" "grows s (maybe_finish_close (fail_cells c cs s1))" for c
    using s1 by (auto simp: grows_def drop_cells_def fail_cells_def maybe_finish_close_def)
  have y: "grows s (maybe_finish_close (fail_cells ec cs (connection_lost ec s1)))"
    by (rule grows_trans [OF s1 grows_trans [OF basic_grows(5) grows_trans [OF basic_grows(1,3)]]])
  have "trace (kick (fold (post_complete_stopped f) ds s2)) = trace (fold (post_complete_stopped f) ds s2)"
    by (rule kick_trace)
  then have "grows s (kick (fold (post_complete_stopped f) ds s2))"
    using grows_trans [OF s2 fold_posts_grows [of s2 f ds]] by (simp add: grows_def)
  then show ?thesis using x y by (simp add: on_write_done_def Let_def e fl)
qed

lemma broadcast_trace: "broadcast r is s = Some s' \<Longrightarrow> trace s' = trace s"
  by (induction r "is" s rule: broadcast.induct) (auto split: option.splits)

lemma dispatch_grows: "dispatch f msg s = Some (ok, s') \<Longrightarrow> grows s s'"
proof -
  assume d: "dispatch f msg s = Some (ok, s')"
  have lost: "grows s (connection_lost ec t)" if "trace t = trace s" for t ec
    using grows_from [OF that basic_grows(5)] .
  have kicked: "grows s (post_kick f t)" if "trace t = trace s" for t
    using grows_from [OF that posting_grows(1)] .
  show ?thesis
    using d
    by (auto simp: dispatch_def dispatch_tagged_def dispatch_untagged_def dispatch_continuation_def Let_def
        extract_from_queue_locked_def split: option.splits server_response.splits prod.splits if_splits
        dest!: broadcast_trace intro!: lost kicked) (auto simp: grows_def)
qed

lemma read_stop_grows: "grows s t \<Longrightarrow> grows s (on_read_stop t)"
  by (auto simp: on_read_stop_def grows_def maybe_finish_close_def)

lemma read_rearm_grows:
  assumes "trace t = trace s"
  shows "grows s (on_read_rearm f t)"
proof -
  have "grows s (connection_lost ec (t\<lparr>read_running := False\<rparr>))" for ec
    by (rule grows_from [OF _ basic_grows(5)]) (simp add: assms)
  moreover have "grows s (maybe_finish_close (t\<lparr>read_running := False\<rparr>))"
    by (rule grows_from [OF _ basic_grows(3)]) (simp add: assms)
  ultimately show ?thesis
    using assms read_stop_grows [of s t] by (simp add: on_read_rearm_def arm_pump_def grows_same)
qed

lemma read_round_grows:
  assumes "read_round ops f s = Some s'"
  shows "grows s s'"
proof -
  obtain lx r where n: "next_complete_response (framer s) (data_of ops (read_buffer s)) = Some (lx, r)"
    using assms by (auto simp: read_round_def split: option.splits)
  show ?thesis
  proof (cases r)
    case None
    then show ?thesis using assms n read_rearm_grows [of "s\<lparr>framer := lx, reading := False\<rparr>" s f]
      by (simp add: read_round_def)
  next
    case (Some msg)
    obtain ok s1 lx' b' where d: "dispatch f msg (s\<lparr>framer := lx\<rparr>) = Some (ok, s1)"
      "s' = (if ok then s1\<lparr>framer := lx', read_buffer := b'\<rparr>
             else on_read_stop (s1\<lparr>framer := lx', read_buffer := b', reading := False\<rparr>))"
      using assms n Some by (auto simp: read_round_def Let_def split: option.splits prod.splits)
    have "grows s s1" by (rule grows_from [OF _ dispatch_grows [OF d(1)]]) simp
    then have "grows s (s1\<lparr>framer := lx', read_buffer := b'\<rparr>)"
      "grows s (s1\<lparr>framer := lx', read_buffer := b', reading := False\<rparr>)" by (simp_all add: grows_def)
    then show ?thesis unfolding d(2) by (simp add: read_stop_grows)
  qed
qed

lemma read_receiver_grows: "grows s (read_receiver ops ec chunk s)"
proof -
  have "grows s (connection_lost c (s\<lparr>armed_read := False, read_running := False\<rparr>))" for c
    by (rule grows_from [OF _ basic_grows(5)]) simp
  then show ?thesis using read_stop_grows [of s "s\<lparr>armed_read := False\<rparr>"]
    by (simp add: read_receiver_def on_read_def on_read_lost_def Let_def grows_same)
qed

lemma environment_grows: "environment a \<Longrightarrow> perform ops a s = Some s' \<Longrightarrow> grows s s'"
proof (cases a)
  case (Run_kick ec)
  assume "perform ops a s = Some s'"
  then show ?thesis using Run_kick kick_trace [of "s\<lparr>kick_posted := False\<rparr>"]
    by (auto simp: kick_receiver_def Let_def grows_def)
next
  case (Finish_write f ec)
  assume "perform ops a s = Some s'"
  then show ?thesis using Finish_write on_write_done_grows [of "s\<lparr>armed_write := None\<rparr>" f ec]
    by (auto simp: write_receiver_def grows_def split: option.splits)
qed (auto simp: posting_grows read_receiver_grows read_round_grows grows_same split: option.splits
    intro: arm_write_grows)

text \<open>What a cell that is over means for its owner: no later action delivers to it again.\<close>

lemma no_second_delivery:
  assumes "living ops k'" "grows k k'" "i \<in> set (terminals (trace k))"
  shows "Value_delivered i ec res \<notin> set (drop (length (trace k)) (trace k')) \<and> i \<in> set (terminals (trace k'))"
proof -
  obtain evs where evs: "trace k' = trace k @ evs" using assms(2) by (auto simp: grows_def)
  then have t: "i \<in> set (terminals (trace k'))" using assms(3) by simp
  have "count_list (terminals (trace k')) i = 1" using settled_cell [OF living_inv [OF assms(1)] t] by blast
  moreover have "count_list (terminals (trace k)) i \<noteq> 0" using assms(3) by (simp add: count_list_0_iff)
  ultimately have "i \<notin> set (terminals evs)" using evs by (auto simp: count_list_0_iff [symmetric])
  then have "Value_delivered i ec res \<notin> set evs"
    by (force simp: terminals_def List.map_filter_def intro!: rev_image_eqI)
  then show ?thesis using t evs by simp
qed

lemma cancel_grows:
  assumes "cancel f tag s = Some s'"
  shows "grows s s'"
proof (cases "phase s = Phase_open")
  case True
  obtain c kick s1 where d: "find_and_detach_locked tag None s = Some (c, kick, s1)" "s' = finish_cancellation f c kick s1"
    using assms True by (auto simp: cancel_def cancel_entry_def)
  have "trace s1 = trace s"
    using d(1) by (auto simp: find_and_detach_locked_def detach_locked_def Let_def
        split: option.splits if_splits prod.splits dest!: extract_one_trace)
  then have "grows s (post_kick f s1)" "grows s s1" using posting_grows(1) [of s1 f] by (simp_all add: grows_def)
  then show ?thesis using posting_grows(2) unfolding d(2)
    by (auto simp: finish_cancellation_def Let_def split: option.split intro: grows_trans)
qed (use assms in \<open>simp add: cancel_def cancel_entry_def grows_same\<close>)

end
