(* ===== verification/Mail_Wire.thy ===== *)
theory Mail_Wire
  imports Replies
begin

text \<open>
  Rendering a message for APPEND (\<open>render_mail\<close> of \<open>imap/command/append_command.h\<close>), and the round
  trip with the reader of \<open>fetch_message_command\<close>.
\<close>

section \<open>The renderer\<close>

definition put_field :: "octets \<Rightarrow> octets \<Rightarrow> octets" where
  "put_field name val = (if val = [] then [] else name @ '': '' @ val @ CRLF)"

definition put_address :: "address \<Rightarrow> octets" where
  "put_address a =
     (if ad_display_name a = [] then email a
      else DQUOTE # ad_display_name a @ [DQUOTE] @ '' <'' @ email a @ ''>'')"

fun put_items :: "bool \<Rightarrow> address list \<Rightarrow> octets" where
  "put_items first [] = []"
| "put_items first (a # as) = (if first then [] else '', '') @ put_address a @ put_items False as"

definition put_addresses :: "octets \<Rightarrow> address list \<Rightarrow> octets" where
  "put_addresses name as = (if as = [] then [] else name @ '': '' @ put_items True as @ CRLF)"

definition render_mail :: "mail \<Rightarrow> octets" where
  "render_mail m =
     (let h = ml_header m
      in put_field ''Subject'' (mh_subject h) @ put_addresses ''From'' (mh_from h)
       @ put_addresses ''To'' (mh_to h) @ put_addresses ''Cc'' (mh_cc h) @ put_addresses ''Bcc'' (mh_bcc h)
       @ put_field ''Date'' (mh_date h) @ put_field ''Message-ID'' (mh_message_id h)
       @ put_field ''In-Reply-To'' (mh_in_reply_to h) @ put_field ''Content-Type'' (mbody_content_type (ml_body m))
       @ CRLF @ mbody_data (ml_body m))"

section \<open>The fields of a message\<close>

text \<open>An address that reads back: a display name, or none, and a local part with a host.\<close>

definition spec_char :: "char \<Rightarrow> bool" where
  "spec_char c \<longleftrightarrow> c \<noteq> DQUOTE \<and> c \<noteq> CHR ''<'' \<and> c \<noteq> CHR ''>'' \<and> \<not> is_lws c"

definition address_ok :: "address \<Rightarrow> bool" where
  "address_ok a \<longleftrightarrow>
     mailbox_ok a \<and> ad_host_name a \<noteq> [] \<and> LF \<notin> set (ad_display_name a) \<and>
     (ad_display_name a = [] \<longrightarrow> CHR '','' \<notin> set (ad_mailbox_name a @ ad_host_name a))"

definition text_ok :: "octets \<Rightarrow> bool" where
  "text_ok v \<longleftrightarrow> v = [] \<or> (\<not> is_blank (hd v) \<and> \<not> is_lws (last v) \<and> LF \<notin> set v)"

definition mail_ok :: "mail \<Rightarrow> bool" where
  "mail_ok m \<longleftrightarrow>
     (let h = ml_header m
      in list_all text_ok [mh_subject h, mh_date h, mh_message_id h, mh_in_reply_to h, mbody_content_type (ml_body m)] \<and>
         list_all address_ok (mh_from h @ mh_to h @ mh_cc h @ mh_bcc h))"

definition text_field :: "octets \<Rightarrow> octets \<Rightarrow> field list" where
  "text_field name val = (if val = [] then [] else [\<lparr>fl_name = name, fl_text = val, fl_folds = []\<rparr>])"

definition mail_fields :: "mail \<Rightarrow> field list" where
  "mail_fields m =
     (let h = ml_header m; as = (\<lambda>name l. text_field name (comma_join (map put_address l)))
      in text_field ''Subject'' (mh_subject h) @ as ''From'' (mh_from h) @ as ''To'' (mh_to h) @ as ''Cc'' (mh_cc h)
       @ as ''Bcc'' (mh_bcc h) @ text_field ''Date'' (mh_date h) @ text_field ''Message-ID'' (mh_message_id h)
       @ text_field ''In-Reply-To'' (mh_in_reply_to h) @ text_field ''Content-Type'' (mbody_content_type (ml_body m)))"

lemma put_items_join: "put_items False as = concat (map (\<lambda>a. '', '' @ put_address a) as)"
  by (induction as) auto

lemma put_items_first: "put_items True as = comma_join (map put_address as)"
proof -
  have "comma_join (x # xs) = x @ concat (map (\<lambda>a. '', '' @ a) xs)" for x :: octets and xs
    by (induction xs arbitrary: x) auto
  then show ?thesis by (cases as) (auto simp: put_items_join comp_def simp del: comma_join.simps(2))
qed

lemma address_nonempty: "address_ok a \<Longrightarrow> put_address a \<noteq> []"
  by (auto simp: address_ok_def put_address_def email_def)

lemma join_empty: "list_all address_ok as \<Longrightarrow> comma_join (map put_address as) = [] \<longleftrightarrow> as = []"
  by (cases as) (auto dest: address_nonempty)

lemma put_field_print: "put_field n v = concat (map print_field (text_field n v))"
  by (simp add: put_field_def text_field_def print_field_def)

lemma put_addresses_print:
  "list_all address_ok as \<Longrightarrow> put_addresses n as = concat (map print_field (text_field n (comma_join (map put_address as))))"
  by (simp add: put_addresses_def text_field_def print_field_def put_items_first join_empty)

lemma render_mail_fields:
  "mail_ok m \<Longrightarrow> render_mail m = concat (map print_field (mail_fields m)) @ CRLF @ mbody_data (ml_body m)"
  by (simp add: mail_ok_def Let_def render_mail_def mail_fields_def put_field_print put_addresses_print)

section \<open>Addresses read back\<close>

lemma spec_chars: "mailbox_ok a \<Longrightarrow> c \<in> set (ad_mailbox_name a) \<union> set (ad_host_name a) \<Longrightarrow> spec_char c"
  by (auto simp: mailbox_ok_def list_all_iff spec_char_def)

lemma item_length_bare:
  "\<forall>c \<in> set v. spec_char c \<and> c \<noteq> CHR '','' \<Longrightarrow> item_length False 0 (v @ rest) = length v + item_length False 0 rest"
  by (induction v) (auto simp: spec_char_def)

lemma address_reads_back:
  assumes "address_ok a" shows "reads_back put_address a"
proof (cases "ad_display_name a = []")
  case False
  then have "put_address a = print_mailbox a"
    using assms by (simp add: put_address_def print_mailbox_def email_def address_ok_def)
  then show ?thesis using mailbox_reads_back [of a] assms by (simp add: reads_back_def address_ok_def)
next
  case True
  let ?e = "ad_mailbox_name a @ CHR ''@'' # ad_host_name a"
  have e: "put_address a = ?e" using True assms by (simp add: put_address_def email_def address_ok_def)
  have m: "mailbox_ok a" "CHR '','' \<notin> set ?e" using assms True by (auto simp: address_ok_def)
  have c: "\<forall>c \<in> set ?e. spec_char c" using spec_chars [OF m(1)] by (auto simp: spec_char_def not_lws)
  have t: "trim ?e = ?e"
    by (rule trim_id) (use c in \<open>auto simp: spec_char_def hd_append last_append\<close>)
  have "find_char (CHR ''<'') ?e = None" by (rule find_char_absent) (use c in \<open>auto simp: spec_char_def\<close>)
  then have s: "split_angle ?e = ([], ?e)" unfolding split_angle_def by (simp only: prod.case option.case)
  have at: "rfind_char (CHR ''@'') ?e = Some (length (ad_mailbox_name a))"
    using m by (intro rfind_char_last) (simp add: mailbox_ok_def)
  have "address_of_item ?e = a"
    using m True unfolding address_of_item_def s prod.case t at Let_def by (cases a) (simp add: mailbox_ok_def)
  moreover have "trim (SP # ?e) = ?e" using t by (simp add: trim_def not_lws)
  moreover have "\<forall>rest. item_length False 0 (?e @ rest) = length ?e + item_length False 0 rest"
    using item_length_bare [of ?e] c m(2) by auto
  ultimately show ?thesis using t unfolding reads_back_def e by simp
qed

section \<open>Header and body are found again\<close>

definition line_ok :: "field \<Rightarrow> bool" where
  "line_ok f \<longleftrightarrow> field_ok f \<and> fl_folds f = [] \<and> \<not> is_lws (last (fl_text f)) \<and> hd (fl_name f) \<noteq> CR"

definition field_line :: "field \<Rightarrow> octets" where
  "field_line f = fl_name f @ '': '' @ fl_text f"

fun header_text :: "field list \<Rightarrow> octets" where
  "header_text [] = []"
| "header_text (f # fs) = field_line f @ (if fs = [] then [] else CRLF @ header_text fs)"

lemma line_ok_facts:
  "line_ok f \<Longrightarrow> print_field f = field_line f @ CRLF \<and> field_lines f = [field_line f] \<and> unfolded f = fl_text f \<and>
     LF \<notin> set (field_line f) \<and> field_line f \<noteq> [] \<and> hd (field_line f) \<noteq> CR \<and> last (field_line f) \<noteq> CR"
  by (auto simp: line_ok_def field_line_def print_field_def field_lines_def unfolded_def field_ok_def is_lws_def)

lemma find_blank_line:
  "LF \<notin> set l \<Longrightarrow> find_text (CRLF @ CRLF) (l @ CRLF @ CRLF @ d) = Some (length l)"
proof (induction l)
  case (Cons c l)
  then show ?case by (cases l) auto
qed simp

lemma find_next_line:
  "LF \<notin> set l \<Longrightarrow> hd t \<noteq> CR \<Longrightarrow> t \<noteq> [] \<Longrightarrow>
     find_text (CRLF @ CRLF) (l @ CRLF @ t) = map_option (\<lambda>n. length l + 2 + n) (find_text (CRLF @ CRLF) t)"
proof (induction l)
  case Nil
  then show ?case by (cases t) (auto simp: option.map_comp comp_def)
next
  case (Cons c l)
  then show ?case by (cases l) (auto simp: option.map_comp comp_def)
qed

lemma header_text_hd: "line_ok f \<Longrightarrow> header_text (f # fs) @ t \<noteq> [] \<and> hd (header_text (f # fs) @ t) \<noteq> CR"
  using line_ok_facts [of f] by auto

lemma header_text_find:
  "list_all line_ok fs \<Longrightarrow> fs \<noteq> [] \<Longrightarrow>
     find_text (CRLF @ CRLF) (header_text fs @ CRLF @ CRLF @ d) = Some (length (header_text fs))"
proof (induction fs)
  case (Cons f fs)
  have f: "LF \<notin> set (field_line f)" using Cons.prems line_ok_facts [of f] by simp
  show ?case
  proof (cases fs)
    case Nil
    then show ?thesis using find_blank_line [OF f, of d] by simp
  next
    case (Cons g gs)
    let ?t = "header_text fs @ CRLF @ CRLF @ d"
    have "hd ?t \<noteq> CR" "?t \<noteq> []" using header_text_hd [of g gs "CRLF @ CRLF @ d"] Cons \<open>list_all line_ok (f # fs)\<close> by auto
    from find_next_line [OF f this] show ?thesis using Cons.IH Cons.prems Cons by simp
  qed
qed simp

lemma header_text_print:
  "list_all line_ok fs \<Longrightarrow> fs \<noteq> [] \<Longrightarrow> concat (map print_field fs) = header_text fs @ CRLF"
proof (induction fs)
  case (Cons f fs)
  then show ?case using line_ok_facts [of f] by (cases "fs = []") auto
qed simp

lemma header_lines_last:
  assumes "LF \<notin> set l" "l \<noteq> []" "last l \<noteq> CR"
  shows "header_lines l s = flush_field (header_line (l @ [CR]) s)"
proof -
  have "header_line (l @ [CR]) s = header_line l s" using assms(2,3) by (simp add: header_line_def)
  moreover have "header_lines l s = header_lines [] (header_line l s)"
    unfolding header_lines.simps [of l s] find_char_absent [OF assms(1)] using assms(2) by simp
  ultimately show ?thesis by (simp add: header_lines.simps)
qed

lemma header_text_lines:
  "list_all line_ok fs \<Longrightarrow> fs \<noteq> [] \<Longrightarrow>
     header_lines (header_text fs) s = flush_field (fold (\<lambda>l. header_line (l @ [CR])) (map field_line fs) s)"
proof (induction fs arbitrary: s)
  case (Cons f fs)
  note f = line_ok_facts [of f]
  show ?case
  proof (cases fs)
    case Nil
    then show ?thesis using header_lines_last [of "field_line f" s] f Cons.prems by simp
  next
    case (Cons g gs)
    then have "header_lines (header_text (f # fs)) s = header_lines (header_text fs) (header_line (field_line f @ [CR]) s)"
      using header_lines_printed [of "[field_line f]" "header_text fs" s] f Cons.prems by simp
    then show ?thesis using Cons.IH Cons.prems Cons by simp
  qed
qed simp

lemma header_text_parsed:
  assumes "list_all line_ok fs" "fs \<noteq> []"
  shows "parse_mail_header_block (header_text fs) out = fold (\<lambda>f. assign_field (fl_name f) (fl_text f)) fs out"
proof -
  let ?s = "\<lparr>hs_name = [], hs_value = [], hs_out = out\<rparr>"
  have l: "concat (map field_lines fs) = map field_line fs" using assms(1) by (induction fs) (auto simp: line_ok_facts)
  have ok: "list_all field_ok fs" using assms(1) by (auto simp: list_all_iff line_ok_def)
  have "fold (\<lambda>f. assign_field (fl_name f) (unfolded f)) fs out = fold (\<lambda>f. assign_field (fl_name f) (fl_text f)) fs out" for out
    using assms(1) by (induction fs arbitrary: out) (auto simp: line_ok_facts)
  then show ?thesis using fields_read [OF ok, of ?s] header_text_lines [OF assms, of ?s] assms(2)
    by (simp add: l parse_mail_header_block_def flush_field_def)
qed

lemma message_of_fields:
  assumes "list_all line_ok fs" "fs \<noteq> []"
  shows "message_of (concat (map print_field fs) @ CRLF @ d) =
    \<lparr>ml_header = fold (\<lambda>f. assign_field (fl_name f) (fl_text f)) fs empty_header,
     ml_body = \<lparr>mbody_content_type = [], mbody_data = d\<rparr>, ml_envelope = None\<rparr>"
  using header_text_find [OF assms, of d] header_text_print [OF assms] header_text_parsed [OF assms]
  by (simp add: message_of_def split_message_def)

section \<open>The fields of a message are restored\<close>

lemma text_line_ok: "text_ok v \<Longrightarrow> n \<in> {''Subject'', ''From'', ''To'', ''Cc'', ''Bcc'', ''Date'', ''Message-ID'', ''In-Reply-To'',
   ''Content-Type''} \<Longrightarrow> list_all line_ok (text_field n v)"
  by (auto simp: text_field_def line_ok_def field_ok_def text_ok_def is_blank_def)

lemma join_last: "as \<noteq> [] \<Longrightarrow> \<forall>a \<in> set as. p a \<noteq> [] \<Longrightarrow> last (comma_join (map p as)) = last (p (last as))"
proof (induction as)
  case (Cons a as)
  have "comma_join (map p as) \<noteq> []" if "as \<noteq> []" using that Cons.prems(2) by (cases as) auto
  then show ?case using Cons by auto
qed simp

lemma join_chars: "set (comma_join xs) \<subseteq> {CHR '','', SP} \<union> (\<Union>x \<in> set xs. set x)"
  by (induction xs) auto

lemma address_text:
  assumes "address_ok a"
  shows "\<not> is_lws (last (put_address a))" "\<not> is_blank (hd (put_address a))" "LF \<notin> set (put_address a)"
proof -
  let ?e = "ad_mailbox_name a @ CHR ''@'' # ad_host_name a"
  have e: "email a = ?e" using assms by (simp add: email_def address_ok_def)
  have c: "\<forall>c \<in> set ?e. spec_char c" using spec_chars [of a] assms by (auto simp: spec_char_def not_lws address_ok_def)
  then have n: "\<not> is_lws (last ?e)" "\<not> is_lws (hd ?e)" "LF \<notin> set ?e"
    by (auto simp: spec_char_def hd_append is_lws_def split: if_splits)
  show "\<not> is_lws (last (put_address a))" using n by (auto simp: put_address_def e not_lws)
  show "\<not> is_blank (hd (put_address a))" using n by (auto simp: put_address_def e is_blank_def is_lws_def)
  show "LF \<notin> set (put_address a)" using n assms by (auto simp: put_address_def e address_ok_def)
qed

lemma addresses_text_ok: "list_all address_ok as \<Longrightarrow> text_ok (comma_join (map put_address as))"
proof (cases as)
  case (Cons a bs)
  assume ok: "list_all address_ok as"
  have "last (comma_join (map put_address as)) = last (put_address (last as))"
    using join_last [of as put_address] ok Cons address_nonempty by (auto simp: list_all_iff)
  moreover have "address_ok (last as)" "address_ok a" using ok Cons by (auto simp: list_all_iff)
  moreover have "LF \<notin> set (comma_join (map put_address as))"
    using join_chars [of "map put_address as"] ok address_text(3) by (fastforce simp: list_all_iff)
  moreover have "hd (comma_join (map put_address as)) = hd (put_address a)"
    using Cons address_nonempty [of a] ok by auto
  ultimately show ?thesis using address_text by (simp add: text_ok_def)
qed (simp add: text_ok_def)

lemma mail_fields_ok: "mail_ok m \<Longrightarrow> list_all line_ok (mail_fields m)"
  by (simp add: mail_ok_def mail_fields_def Let_def text_line_ok addresses_text_ok)

lemma text_trimmed: "text_ok v \<Longrightarrow> trim_end is_blank v = v"
proof (cases v rule: rev_cases)
  case (snoc w c)
  moreover assume "text_ok v"
  ultimately show ?thesis by (auto simp: text_ok_def trim_end_def is_blank_def is_lws_def)
qed (simp add: trim_end_def)

lemma fold_text_field:
  "text_ok v \<Longrightarrow> fold (\<lambda>f. assign_field (fl_name f) (fl_text f)) (text_field n v) out = (if v = [] then out else assign_field n v out)"
  by (simp add: text_field_def)

lemma fold_addresses:
  "list_all address_ok as \<Longrightarrow> trim_end is_blank (comma_join (map put_address as)) = comma_join (map put_address as) \<and>
     parse_rfc5322_addresses (comma_join (map put_address as)) out = out @ as"
  using addresses_printed [of put_address as "[]" out] address_reads_back text_trimmed addresses_text_ok
  by (auto simp: list_all_iff)

lemma assign_simps:
  "text_ok v \<Longrightarrow> assign_field ''Subject'' v out = out\<lparr>mh_subject := v\<rparr>"
  "text_ok v \<Longrightarrow> assign_field ''Date'' v out = out\<lparr>mh_date := v\<rparr>"
  "text_ok v \<Longrightarrow> assign_field ''Message-ID'' v out = out\<lparr>mh_message_id := v\<rparr>"
  "text_ok v \<Longrightarrow> assign_field ''In-Reply-To'' v out = out\<lparr>mh_in_reply_to := v\<rparr>"
  "assign_field ''Content-Type'' v out = out"
  by (simp_all add: assign_field_def text_trimmed ascii_iequals_def ascii_to_upper_def)

lemma assign_addresses:
  assumes "list_all address_ok as"
  shows "assign_field ''From'' (comma_join (map put_address as)) out = out\<lparr>mh_from := mh_from out @ as\<rparr>"
    "assign_field ''To'' (comma_join (map put_address as)) out = out\<lparr>mh_to := mh_to out @ as\<rparr>"
    "assign_field ''Cc'' (comma_join (map put_address as)) out = out\<lparr>mh_cc := mh_cc out @ as\<rparr>"
    "assign_field ''Bcc'' (comma_join (map put_address as)) out = out\<lparr>mh_bcc := mh_bcc out @ as\<rparr>"
  using fold_addresses [OF assms] by (simp_all add: assign_field_def ascii_iequals_def ascii_to_upper_def)

lemma text_step:
  "text_ok v \<Longrightarrow> mh_subject out = [] \<Longrightarrow> (if v = [] then out else assign_field ''Subject'' v out) = out\<lparr>mh_subject := v\<rparr>"
  "text_ok v \<Longrightarrow> mh_date out = [] \<Longrightarrow> (if v = [] then out else assign_field ''Date'' v out) = out\<lparr>mh_date := v\<rparr>"
  "text_ok v \<Longrightarrow> mh_message_id out = [] \<Longrightarrow> (if v = [] then out else assign_field ''Message-ID'' v out) = out\<lparr>mh_message_id := v\<rparr>"
  "text_ok v \<Longrightarrow> mh_in_reply_to out = [] \<Longrightarrow> (if v = [] then out else assign_field ''In-Reply-To'' v out) = out\<lparr>mh_in_reply_to := v\<rparr>"
  by (auto simp: assign_simps)

lemma address_step:
  assumes "list_all address_ok as"
  shows "mh_from out = [] \<Longrightarrow> (if comma_join (map put_address as) = [] then out
      else assign_field ''From'' (comma_join (map put_address as)) out) = out\<lparr>mh_from := as\<rparr>"
    "mh_to out = [] \<Longrightarrow> (if comma_join (map put_address as) = [] then out
      else assign_field ''To'' (comma_join (map put_address as)) out) = out\<lparr>mh_to := as\<rparr>"
    "mh_cc out = [] \<Longrightarrow> (if comma_join (map put_address as) = [] then out
      else assign_field ''Cc'' (comma_join (map put_address as)) out) = out\<lparr>mh_cc := as\<rparr>"
    "mh_bcc out = [] \<Longrightarrow> (if comma_join (map put_address as) = [] then out
      else assign_field ''Bcc'' (comma_join (map put_address as)) out) = out\<lparr>mh_bcc := as\<rparr>"
  using assms by (auto simp: assign_addresses join_empty)

lemma fields_restore:
  assumes "mail_ok m"
  shows "fold (\<lambda>f. assign_field (fl_name f) (fl_text f)) (mail_fields m) empty_header = ml_header m"
  using assms
  by (simp add: mail_ok_def mail_fields_def Let_def fold_text_field addresses_text_ok text_step address_step
      assign_simps(5) empty_header_def)


definition sample_mail :: mail where
  "sample_mail =
     \<lparr>ml_header = empty_header\<lparr>mh_subject := ''Hi'',
        mh_from := [\<lparr>ad_display_name = ''Doe, J'', ad_adl = [], ad_mailbox_name = ''j'', ad_host_name = ''x.org''\<rparr>],
        mh_to := [\<lparr>ad_display_name = [], ad_adl = [], ad_mailbox_name = ''a'', ad_host_name = ''b.c''\<rparr>]\<rparr>,
      ml_body = \<lparr>mbody_content_type = ''text/plain'', mbody_data = ''body'' @ CRLF @ CRLF\<rparr>, ml_envelope = None\<rparr>"


end
