(* ===== verification/Session.thy ===== *)
theory Session
  imports Living Mail_Wire
begin

text \<open>
  The data of layer 2: the connection that owns a context (\<open>imap/imap_connection.h\<close>), the session
  states (\<open>imap/state/*.h\<close>), the senders their operations return, and the successor factories with
  \<open>complete_with\<close> (\<open>imap/state/detail/state_op_sender.h\<close>).

  A C++ state object owns its connection, so a state of the model carries it. Moving a connection
  leaves an empty one behind. A failing assertion, an exception that leaves a \<open>noexcept\<close> function and
  a pointer to a destroyed cell are values of type \<open>fault\<close>. A factory is a value of type
  \<open>successor\<close>; the lambdas of the code capture at most the mailbox snapshot and its registration.

  The relation between a session state, a command and the next state that RFC 3501 draws is
  \<open>rfc_next\<close>. The locale \<open>session_calls\<close> is what the three state classes promise about the senders
  they return.
\<close>

section \<open>Faults\<close>

datatype fault = Assertion_failed | Terminated | Dangling_pointer

fun proceed :: "fault + 'a \<Rightarrow> ('a \<Rightarrow> fault + 'c) \<Rightarrow> fault + 'c" where
  "proceed (Inl e) g = Inl e"
| "proceed (Inr x) g = g x"

lemma proceed_Inr: "proceed r g = Inr y \<longleftrightarrow> (\<exists>x. r = Inr x \<and> g x = Inr y)"
  by (cases r) auto

section \<open>The connection\<close>

record 'b connection =
  conn_context :: "'b core option"
  conn_tls :: bool
  conn_capabilities :: capability_set
  conn_busy :: bool

text \<open>The two constructors: the read pump of the fresh context is armed at once.\<close>

definition new_connection :: "bool \<Rightarrow> fates \<Rightarrow> 'b \<Rightarrow> 'b connection" where
  "new_connection tls f b =
     \<lparr>conn_context = Some (arm_read f (new_core b)), conn_tls = tls, conn_capabilities = [],
      conn_busy = False\<rparr>"

text \<open>The moved connection and what is left of the source.\<close>

definition move_connection :: "'b connection \<Rightarrow> fault + 'b connection \<times> 'b connection" where
  "move_connection c =
     (if conn_busy c then Inl Assertion_failed
      else Inr (c, c\<lparr>conn_context := None, conn_capabilities := []\<rparr>))"

text \<open>Move assignment; the last component is what the assignment left of the target's own context.\<close>

definition assign_connection ::
  "'b connection \<Rightarrow> 'b connection \<Rightarrow> fault + 'b connection \<times> 'b connection \<times> 'b core option" where
  "assign_connection c other =
     (if conn_busy c \<or> conn_busy other then Inl Assertion_failed
      else
        Inr (c\<lparr>conn_context := conn_context other, conn_tls := conn_tls other,
               conn_capabilities := conn_capabilities other\<rparr>,
             other\<lparr>conn_context := None, conn_capabilities := []\<rparr>, map_option abandon (conn_context c)))"

definition set_capabilities :: "capability_set \<Rightarrow> 'b connection \<Rightarrow> 'b connection" where
  "set_capabilities caps c = c\<lparr>conn_capabilities := caps\<rparr>"

definition conn_is_alive :: "'b connection \<Rightarrow> bool" where
  "conn_is_alive c = (case conn_context c of None \<Rightarrow> False | Some k \<Rightarrow> is_alive k)"

definition conn_close :: "'b connection \<Rightarrow> 'b connection" where
  "conn_close c = c\<lparr>conn_context := map_option close (conn_context c)\<rparr>"

text \<open>\<open>with_context\<close> also returns the events the call emitted, whose handlers run next.\<close>

definition with_context ::
  "('b core \<Rightarrow> fault + 'a \<times> 'b core) \<Rightarrow> 'b connection \<Rightarrow> fault + 'a \<times> event list \<times> 'b connection" where
  "with_context g c =
     (case conn_context c of
        None \<Rightarrow> Inl Assertion_failed
      | Some k \<Rightarrow>
          proceed (g k) (\<lambda>(x, k'). Inr (x, drop (length (trace k)) (trace k'), c\<lparr>conn_context := Some k'\<rparr>)))"

text \<open>The socket leaves the plaintext context, whose read pump stops re-arming.\<close>

definition upgrade_to_tls_stream :: "'b connection \<Rightarrow> fault + 'b connection" where
  "upgrade_to_tls_stream c =
     (case conn_context c of
        None \<Rightarrow> Inl Assertion_failed
      | Some k \<Rightarrow>
          (if conn_tls c then Inl Assertion_failed
           else Inr (c\<lparr>conn_context := Some (suspend_read_for_relocation k)\<rparr>)))"

definition emplace_tls_context :: "fates \<Rightarrow> 'b \<Rightarrow> 'b connection \<Rightarrow> 'b connection" where
  "emplace_tls_context f b c =
     c\<lparr>conn_context := Some (arm_read f (new_core b)), conn_tls := True, conn_capabilities := []\<rparr>"

definition try_start_operation :: "'b connection \<Rightarrow> bool \<times> 'b connection" where
  "try_start_operation c = (\<not> conn_busy c, c\<lparr>conn_busy := True\<rparr>)"

definition finish_operation :: "'b connection \<Rightarrow> 'b connection" where
  "finish_operation c = c\<lparr>conn_busy := False\<rparr>"

text \<open>
  The connection that the teardown task holds. When the task cannot be allocated the connection is
  destroyed at once.
\<close>

definition detain_connection :: "bool \<Rightarrow> 'b connection \<Rightarrow> 'b connection option" where
  "detain_connection oom c =
     (case conn_context c of
        None \<Rightarrow> None
      | Some k \<Rightarrow>
          (let c1 = conn_close c
           in Some (if oom then c1\<lparr>conn_context := map_option abandon (conn_context c1)\<rparr> else c1)))"

section \<open>Calls on the context\<close>

definition submit_to :: "fates \<Rightarrow> command_args \<Rightarrow> 'b core \<Rightarrow> fault + (octets \<times> nat) \<times> 'b core" where
  "submit_to f a k =
     (case submit f a k of
        None \<Rightarrow> Inl Assertion_failed
      | Some (threw, k') \<Rightarrow>
          (if threw then Inl Terminated else Inr ((fst (allocate_tag k), next_id k), k')))"

definition flush_to :: "fates \<Rightarrow> 'b core \<Rightarrow> fault + unit \<times> 'b core" where
  "flush_to f k = Inr ((), flush f k)"

definition cancel_to :: "fates \<Rightarrow> octets \<Rightarrow> 'b core \<Rightarrow> fault + unit \<times> 'b core" where
  "cancel_to f tag k = (case cancel f tag k of None \<Rightarrow> Inl Dangling_pointer | Some k' \<Rightarrow> Inr ((), k'))"

definition listen_to :: "'b core \<Rightarrow> fault + nat \<times> 'b core" where
  "listen_to k = Inr (on_unsolicited k)"

section \<open>Session states\<close>

text \<open>
  \<open>Selected\<close> holds the mailbox snapshot and the id of the unsolicited handler that feeds it.
\<close>

datatype 'b session = Not_authenticated "'b connection" | Authenticated "'b connection"
  | Selected "'b connection" mailbox_info nat | Logged_out

datatype session_kind = In_not_authenticated | In_authenticated | In_selected | In_logout

fun kind_of :: "'b session \<Rightarrow> session_kind" where
  "kind_of (Not_authenticated c) = In_not_authenticated"
| "kind_of (Authenticated c) = In_authenticated"
| "kind_of (Selected c m h) = In_selected"
| "kind_of Logged_out = In_logout"

fun session_connection :: "'b session \<Rightarrow> 'b connection option" where
  "session_connection (Not_authenticated c) = Some c"
| "session_connection (Authenticated c) = Some c"
| "session_connection (Selected c m h) = Some c"
| "session_connection Logged_out = None"

text \<open>The handler of a Selected state.\<close>

fun snapshot_event :: "unsolicited_event \<Rightarrow> mailbox_info \<Rightarrow> mailbox_info" where
  "snapshot_event (Exists_event n) m = m\<lparr>mb_exists := n\<rparr>"
| "snapshot_event (Recent_event n) m = m\<lparr>mb_recent := n\<rparr>"
| "snapshot_event (Expunge_event n) m = (if mb_exists m > 0 then m\<lparr>mb_exists := mb_exists m - 1\<rparr> else m)"
| "snapshot_event _ m = m"

definition selected_state :: "'b connection \<Rightarrow> mailbox_info \<Rightarrow> fault + 'b session" where
  "selected_state c info =
     proceed (with_context listen_to c) (\<lambda>(h, evs, c'). Inr (Selected c' info h))"

section \<open>Successor factories\<close>

datatype successor = Stay_not_authenticated | Stay_authenticated
  | Rebuild_selected mailbox_info nat
  | Close_successor | Auth_branches | Select_branches | Logout_successor
  | Capability_successor successor | Query_successor successor

text \<open>
  The registration a rebuild closure captured dies with the operation state, after the new state has
  registered its own handler.
\<close>

definition drop_registration :: "nat \<Rightarrow> 'b session \<Rightarrow> 'b session" where
  "drop_registration h st =
     (case st of
        Selected c m h' \<Rightarrow> Selected (c\<lparr>conn_context := map_option (reset_registration h) (conn_context c)\<rparr>) m h'
      | _ \<Rightarrow> st)"

fun mailbox_of :: "command_result \<Rightarrow> mailbox_info" where
  "mailbox_of (Mailbox_result m) = m"
| "mailbox_of _ = default_mailbox_info"

fun caps_of :: "command_result \<Rightarrow> capability_set" where
  "caps_of (Caps_result caps) = caps"
| "caps_of _ = []"

text \<open>
  The factory of a successor, with the branch that \<open>complete_with\<close> takes on the error code. The
  results are the value that rides next to the error code, the successor state and the connection
  that LOGOUT detained.
\<close>

fun complete_with ::
  "bool \<Rightarrow> successor \<Rightarrow> error_code \<Rightarrow> 'b connection \<Rightarrow> command_result \<Rightarrow>
     fault + command_result option \<times> 'b session \<times> 'b connection option" where
  "complete_with oom Stay_not_authenticated ec c res = Inr (None, Not_authenticated c, None)"
| "complete_with oom Stay_authenticated ec c res = Inr (None, Authenticated c, None)"
| "complete_with oom (Rebuild_selected m h) ec c res =
     proceed (selected_state c m) (\<lambda>st. Inr (None, drop_registration h st, None))"
| "complete_with oom Close_successor ec c res = Inr (None, Authenticated c, None)"
| "complete_with oom Auth_branches ec c res =
     Inr (None, if ec = No_error then Authenticated c else Not_authenticated c, None)"
| "complete_with oom Select_branches ec c res =
     (if ec = No_error then proceed (selected_state c (mailbox_of res)) (\<lambda>st. Inr (None, st, None))
      else Inr (None, Authenticated c, None))"
| "complete_with oom Logout_successor ec c res = Inr (None, Logged_out, detain_connection oom c)"
| "complete_with oom (Capability_successor inner) ec c res =
     proceed (complete_with oom inner ec (if ec = No_error then set_capabilities (caps_of res) c else c) res)
       (\<lambda>(_, st, d). Inr (Some res, st, d))"
| "complete_with oom (Query_successor inner) ec c res =
     proceed (complete_with oom inner ec c res) (\<lambda>(_, st, d). Inr (Some res, st, d))"

text \<open>While an operation runs, the captured hook keeps feeding the captured snapshot.\<close>

fun push_snapshot :: "nat \<Rightarrow> unsolicited_event \<Rightarrow> successor \<Rightarrow> successor" where
  "push_snapshot h ev (Rebuild_selected m h') = Rebuild_selected (if h = h' then snapshot_event ev m else m) h'"
| "push_snapshot h ev (Capability_successor inner) = Capability_successor (push_snapshot h ev inner)"
| "push_snapshot h ev (Query_successor inner) = Query_successor (push_snapshot h ev inner)"
| "push_snapshot h ev s = s"

section \<open>The operations of the states\<close>

record 'b sender =
  sd_connection :: "'b connection"
  sd_command :: command_args
  sd_successor :: successor
  sd_required :: octets

definition mk_sender :: "'b connection \<Rightarrow> command_args \<Rightarrow> successor \<Rightarrow> 'b sender" where
  "mk_sender c a s = \<lparr>sd_connection = c, sd_command = a, sd_successor = s, sd_required = []\<rparr>"

subsection \<open>Not authenticated\<close>

text \<open>The group of three octets as a 24-bit chunk, and one digit of it.\<close>

fun base64_encode :: "octets \<Rightarrow> octets" where
  "base64_encode (a # b # c # rest) =
     (let chunk = b64_group (of_char a) (of_char b) (of_char c)
      in [b64_digit chunk 18, b64_digit chunk 12, b64_digit chunk 6, b64_digit chunk 0] @ base64_encode rest)"
| "base64_encode [a, b] =
     (let chunk = b64_group (of_char a) (of_char b) 0
      in [b64_digit chunk 18, b64_digit chunk 12, b64_digit chunk 6, CHR ''=''])"
| "base64_encode [a] =
     (let chunk = b64_group (of_char a) 0 0 in [b64_digit chunk 18, b64_digit chunk 12, CHR ''='', CHR ''=''])"
| "base64_encode [] = []"

definition xoauth2_response :: "octets \<Rightarrow> octets \<Rightarrow> octets" where
  "xoauth2_response user token =
     ''user='' @ user @ [char_of (1::nat)] @ ''auth=Bearer '' @ token @ [char_of (1::nat), char_of (1::nat)]"

text \<open>The credentials of a LOGIN; no operation reads the authorization identity.\<close>

record account_info =
  user_name :: octets
  password :: octets
  authzid :: "octets option"

datatype not_authenticated_call = Na_login account_info | Na_authenticate octets octets
  | Na_authenticate_oauth2 octets octets | Na_capability | Na_noop | Na_logout

fun not_authenticated_op :: "not_authenticated_call \<Rightarrow> 'b connection \<Rightarrow> 'b sender" where
  "not_authenticated_op (Na_login info) c =
     mk_sender c (Login (user_name info) (password info) False) Auth_branches"
| "not_authenticated_op (Na_authenticate mechanism response) c =
     mk_sender c (Authenticate mechanism response False) Auth_branches"
| "not_authenticated_op (Na_authenticate_oauth2 user token) c =
     mk_sender c (Authenticate ''XOAUTH2'' (base64_encode (xoauth2_response user token)) False) Auth_branches"
| "not_authenticated_op Na_capability c =
     mk_sender c Capability (Capability_successor Stay_not_authenticated)"
| "not_authenticated_op Na_noop c = mk_sender c Noop Stay_not_authenticated"
| "not_authenticated_op Na_logout c = mk_sender c Logout Logout_successor"

subsection \<open>Authenticated\<close>

datatype authenticated_call = Au_select octets | Au_examine octets | Au_list octets octets
  | Au_status octets status_items | Au_create octets | Au_delete octets | Au_rename octets octets
  | Au_subscribe octets | Au_unsubscribe octets | Au_append octets mail flag_set
  | Au_capability | Au_noop | Au_logout

fun authenticated_op :: "authenticated_call \<Rightarrow> 'b connection \<Rightarrow> 'b sender" where
  "authenticated_op (Au_select mb) c = mk_sender c (Select mb) Select_branches"
| "authenticated_op (Au_examine mb) c = mk_sender c (Examine mb) Select_branches"
| "authenticated_op (Au_list ref pat) c = mk_sender c (List_mailboxes ref pat) (Query_successor Stay_authenticated)"
| "authenticated_op (Au_status mb items) c = mk_sender c (Status mb items) (Query_successor Stay_authenticated)"
| "authenticated_op (Au_create mb) c = mk_sender c (Create mb) Stay_authenticated"
| "authenticated_op (Au_delete mb) c = mk_sender c (Delete mb) Stay_authenticated"
| "authenticated_op (Au_rename old new) c = mk_sender c (Rename old new) Stay_authenticated"
| "authenticated_op (Au_subscribe mb) c = mk_sender c (Subscribe mb) Stay_authenticated"
| "authenticated_op (Au_unsubscribe mb) c = mk_sender c (Unsubscribe mb) Stay_authenticated"
| "authenticated_op (Au_append mb msg flags) c = mk_sender c (Append_message mb (render_mail msg) flags [] False) Stay_authenticated"
| "authenticated_op Au_capability c = mk_sender c Capability (Capability_successor Stay_authenticated)"
| "authenticated_op Au_noop c = mk_sender c Noop Stay_authenticated"
| "authenticated_op Au_logout c = mk_sender c Logout Logout_successor"

subsection \<open>Selected\<close>

datatype selected_call = Se_fetch_envelopes octets | Se_fetch_headers octets "octets list"
  | Se_fetch_message octets | Se_fetch octets fetch_items | Se_search octets
  | Se_store octets flag_set store_mode | Se_copy octets octets | Se_move octets octets
  | Se_expunge | Se_close
  | Se_uid_fetch_envelopes octets | Se_uid_fetch_headers octets "octets list"
  | Se_uid_fetch_message octets | Se_uid_fetch octets fetch_items | Se_uid_search octets
  | Se_uid_store octets flag_set store_mode | Se_uid_copy octets octets | Se_uid_move octets octets
  | Se_capability | Se_noop | Se_logout

text \<open>\<open>same_state_op\<close> and \<open>query_op\<close> move the snapshot and its hook into the factory.\<close>

definition selected_same :: "'b connection \<Rightarrow> mailbox_info \<Rightarrow> nat \<Rightarrow> command_args \<Rightarrow> octets \<Rightarrow> 'b sender" where
  "selected_same c m h a required = (mk_sender c a (Rebuild_selected m h))\<lparr>sd_required := required\<rparr>"

definition selected_query :: "'b connection \<Rightarrow> mailbox_info \<Rightarrow> nat \<Rightarrow> command_args \<Rightarrow> 'b sender" where
  "selected_query c m h a = mk_sender c a (Query_successor (Rebuild_selected m h))"

fun selected_op :: "selected_call \<Rightarrow> 'b connection \<Rightarrow> mailbox_info \<Rightarrow> nat \<Rightarrow> 'b sender" where
  "selected_op (Se_fetch_envelopes seq) c m h = selected_query c m h (Fetch_envelopes seq)"
| "selected_op (Se_fetch_headers seq fs) c m h = selected_query c m h (Fetch_headers seq fs)"
| "selected_op (Se_fetch_message seq) c m h = selected_query c m h (Fetch_message seq)"
| "selected_op (Se_fetch seq items) c m h = selected_query c m h (Fetch seq items)"
| "selected_op (Se_search criteria) c m h = selected_query c m h (Search criteria)"
| "selected_op (Se_store seq flags md) c m h = selected_same c m h (Store seq flags md) []"
| "selected_op (Se_copy seq mb) c m h = selected_same c m h (Copy seq mb) []"
| "selected_op (Se_move seq mb) c m h = selected_same c m h (Move seq mb) ''MOVE''"
| "selected_op Se_expunge c m h = selected_same c m h Expunge []"
| "selected_op Se_close c m h = mk_sender c Close_mailbox Close_successor"
| "selected_op (Se_uid_fetch_envelopes seq) c m h = selected_query c m h (Uid_fetch_envelopes seq)"
| "selected_op (Se_uid_fetch_headers seq fs) c m h = selected_query c m h (Uid_fetch_headers seq fs)"
| "selected_op (Se_uid_fetch_message seq) c m h = selected_query c m h (Uid_fetch_message seq)"
| "selected_op (Se_uid_fetch seq items) c m h = selected_query c m h (Uid_fetch seq items)"
| "selected_op (Se_uid_search criteria) c m h = selected_query c m h (Uid_search criteria)"
| "selected_op (Se_uid_store seq flags md) c m h = selected_same c m h (Uid_store seq flags md) []"
| "selected_op (Se_uid_copy seq mb) c m h = selected_same c m h (Uid_copy seq mb) []"
| "selected_op (Se_uid_move seq mb) c m h = selected_same c m h (Uid_move seq mb) ''MOVE''"
| "selected_op Se_capability c m h = mk_sender c Capability (Capability_successor (Rebuild_selected m h))"
| "selected_op Se_noop c m h = selected_same c m h Noop []"
| "selected_op Se_logout c m h = mk_sender c Logout Logout_successor"

subsection \<open>The transitions of RFC 3501\<close>

text \<open>
  The state diagram of section 3 of RFC 3501 for the commands the states offer: None for a command
  that is not permitted in a state. CLOSE leaves the mailbox whatever the server answers, LOGOUT ends
  the session whatever the server answers.
\<close>

fun any_state_command :: "command_args \<Rightarrow> bool" where
  "any_state_command Capability = True"
| "any_state_command Noop = True"
| "any_state_command _ = False"

fun mailbox_command :: "command_args \<Rightarrow> bool" where
  "mailbox_command (Create _) = True"
| "mailbox_command (Delete _) = True"
| "mailbox_command (Rename _ _) = True"
| "mailbox_command (Subscribe _) = True"
| "mailbox_command (Unsubscribe _) = True"
| "mailbox_command (List_mailboxes _ _) = True"
| "mailbox_command (Status _ _) = True"
| "mailbox_command (Append_message _ _ _ _ _) = True"
| "mailbox_command _ = False"

fun message_command :: "command_args \<Rightarrow> bool" where
  "message_command Expunge = True"
| "message_command (Search _) = True"
| "message_command (Uid_search _) = True"
| "message_command (Store _ _ _) = True"
| "message_command (Uid_store _ _ _) = True"
| "message_command (Copy _ _) = True"
| "message_command (Uid_copy _ _) = True"
| "message_command (Move _ _) = True"
| "message_command (Uid_move _ _) = True"
| "message_command (Fetch _ _) = True"
| "message_command (Uid_fetch _ _) = True"
| "message_command (Fetch_envelopes _) = True"
| "message_command (Uid_fetch_envelopes _) = True"
| "message_command (Fetch_headers _ _) = True"
| "message_command (Uid_fetch_headers _ _) = True"
| "message_command (Fetch_message _) = True"
| "message_command (Uid_fetch_message _) = True"
| "message_command Idle = True"
| "message_command _ = False"

fun credentials_command :: "command_args \<Rightarrow> bool" where
  "credentials_command (Login _ _ _) = True"
| "credentials_command (Authenticate _ _ _) = True"
| "credentials_command _ = False"

fun opening_command :: "command_args \<Rightarrow> bool" where
  "opening_command (Select _) = True"
| "opening_command (Examine _) = True"
| "opening_command _ = False"

definition rfc_next :: "session_kind \<Rightarrow> command_args \<Rightarrow> bool \<Rightarrow> session_kind option" where
  "rfc_next k a ok =
     (if k = In_logout then None
      else if a = Logout then Some In_logout
      else if any_state_command a then Some k
      else case k of
          In_not_authenticated \<Rightarrow>
            (if credentials_command a then Some (if ok then In_authenticated else k)
             else if a = Starttls then Some k else None)
        | In_authenticated \<Rightarrow>
            (if opening_command a then Some (if ok then In_selected else k)
             else if mailbox_command a then Some k else None)
        | In_selected \<Rightarrow>
            (if a = Close_mailbox then Some In_authenticated
             else if opening_command a then Some (if ok then In_selected else In_authenticated)
             else if mailbox_command a \<or> message_command a then Some k else None)
        | In_logout \<Rightarrow> None)"

text \<open>What a factory makes of the outcome, as a kind.\<close>

fun kind_after :: "successor \<Rightarrow> bool \<Rightarrow> session_kind" where
  "kind_after Stay_not_authenticated ok = In_not_authenticated"
| "kind_after Stay_authenticated ok = In_authenticated"
| "kind_after (Rebuild_selected m h) ok = In_selected"
| "kind_after Close_successor ok = In_authenticated"
| "kind_after Auth_branches ok = (if ok then In_authenticated else In_not_authenticated)"
| "kind_after Select_branches ok = (if ok then In_selected else In_authenticated)"
| "kind_after Logout_successor ok = In_logout"
| "kind_after (Capability_successor inner) ok = kind_after inner ok"
| "kind_after (Query_successor inner) ok = kind_after inner ok"

lemma selected_kind: "selected_state c m = Inr st \<Longrightarrow> kind_of st = In_selected"
  by (auto simp: selected_state_def proceed_Inr)

lemma drop_registration_kind [simp]: "kind_of (drop_registration h st) = kind_of st"
  by (cases st) (simp_all add: drop_registration_def)

lemma complete_with_kind:
  "complete_with oom s ec c res = Inr (out, st, d) \<Longrightarrow> kind_of st = kind_after s (ec = No_error)"
  by (induction s arbitrary: c out) (auto simp: proceed_Inr selected_kind split: if_splits dest!: selected_kind)

lemma push_kind [simp]: "kind_after (push_snapshot h ev s) ok = kind_after s ok"
  by (induction s) simp_all

text \<open>
  What the state classes promise: the sender carries the connection of the state, and its command
  with its factory follows the diagram.
\<close>

locale session_calls =
  fixes kind :: session_kind and sender :: "'call \<Rightarrow> 'b connection \<Rightarrow> 'b sender"
  assumes carries: "sd_connection (sender call c) = c"
    and follows: "rfc_next kind (sd_command (sender call c)) ok = Some (kind_after (sd_successor (sender call c)) ok)"
begin

lemma permitted: "rfc_next kind (sd_command (sender call c)) ok \<noteq> None"
  by (simp add: follows)

lemma completes_in_diagram:
  "complete_with oom (sd_successor (sender call c)) ec c' res = Inr (out, st, d) \<Longrightarrow>
     rfc_next kind (sd_command (sender call c)) (ec = No_error) = Some (kind_of st)"
  by (simp add: follows complete_with_kind)

end

lemmas sender_defs = mk_sender_def selected_same_def selected_query_def

interpretation na: session_calls In_not_authenticated not_authenticated_op
  by (unfold_locales; case_tac call) (simp_all add: sender_defs rfc_next_def)

interpretation au: session_calls In_authenticated authenticated_op
  by (unfold_locales; case_tac call) (simp_all add: sender_defs rfc_next_def)

interpretation se: session_calls In_selected "\<lambda>call c. selected_op call c m h"
  by (unfold_locales; case_tac call) (simp_all add: sender_defs rfc_next_def)

section \<open>The credentials of XOAUTH2\<close>

lemma base64_encode_append: "base64_encode v = append_base64 v"
  by (induction v rule: append_base64.induct) (simp_all add: Let_def)

lemma append_base64_longer: "v \<noteq> [] \<Longrightarrow> length v < length (append_base64 v)"
proof (induction v rule: append_base64.induct)
  case (1 a b c rest)
  then show ?case by (cases "rest = []") (auto simp: Let_def)
qed (simp_all add: Let_def)

text \<open>
  C40. XOAUTH2 credentials are encoded twice. The response line that \<open>authenticate_oauth2\<close> puts on
  the wire decodes to a base64 text and not to the credentials; only decoding that text again gives
  the string \<open>user=..auth=Bearer ..\<close> that a server expects after one decoding.
\<close>

theorem oauth2_double_encoded:
  "\<exists>wire segs line credentials.
     render_wire (sd_command (not_authenticated_op (Na_authenticate_oauth2 user token) c)) tag w =
       Some (Segmented wire segs 0 1) \<and>
     segments (Segmented wire segs 0 1) = [tag @ '' AUTHENTICATE XOAUTH2'' @ CRLF, line @ CRLF] \<and>
     b64_decode line = Some credentials \<and> credentials \<noteq> xoauth2_response user token \<and>
     b64_decode credentials = Some (xoauth2_response user token)"
proof -
  let ?r = "xoauth2_response user token"
  have ne: "?r \<noteq> []" by (simp add: xoauth2_response_def)
  have l: "length ?r < length (base64_encode ?r)" unfolding base64_encode_append by (rule append_base64_longer [OF ne])
  then have e: "base64_encode ?r \<noteq> []" by auto
  have d: "base64_encode ?r \<noteq> ?r" using l by auto
  show ?thesis
    by (rule exI [of _ "(tag @ '' AUTHENTICATE XOAUTH2'' @ CRLF) @ append_base64 (base64_encode ?r) @ CRLF"], rule exI,
        rule exI [of _ "append_base64 (base64_encode ?r)"], rule exI [of _ "base64_encode ?r"])
      (use e d base64_roundtrip [of ?r] base64_roundtrip [of "base64_encode ?r"] in
        \<open>auto simp: mk_sender_def authenticate_render_def Let_def base64_encode_append\<close>)
qed

end
