(* ===== verification/State_Op.thy ===== *)
theory State_Op
  imports Session "HOL-Library.Code_Target_Nat"
begin

text \<open>
  The generic operation of layer 2 (\<open>state_op_operation\<close> of \<open>imap/state/detail/state_op_sender.h\<close>):
  one command on the context, its reply mapped to the successor state, with the stop path that
  cancels the command and posts the stopped completion.

  The operation runs on top of the engine: the context it owns is a \<open>core\<close>, and the handlers of the
  events an engine action emits run right after that action. What the receiver observes is the log.
  \<open>Late_access\<close> marks a member of the operation state that the code touches after the receiver has
  been completed, when the consumer may already have destroyed the state.

  The locale \<open>one_completion\<close> is the contract every operation of layer 2 has towards its receiver.
\<close>

section \<open>Observations\<close>

datatype 'b completion = Set_value error_code "command_result option" "'b session" | Set_stopped

datatype 'b observation = Completed "'b completion" | Late_access

fun completion_of :: "'b observation \<Rightarrow> 'b completion option" where
  "completion_of (Completed x) = Some x"
| "completion_of Late_access = None"

definition completions :: "'b observation list \<Rightarrow> 'b completion list" where
  "completions log = List.map_filter completion_of log"

lemma completions_simps [simp]:
  "completions [] = []" "completions (xs @ ys) = completions xs @ completions ys"
  "completions (Completed x # ys) = x # completions ys" "completions (Late_access # ys) = completions ys"
  by (simp_all add: completions_def List.map_filter_def)

section \<open>The operation state\<close>

record 'b state_op =
  so_connection :: "'b connection"
  so_command :: command_args
  so_successor :: successor
  so_required :: octets
  so_tag :: octets
  so_cell :: "nat option"
  so_stop_callback :: bool
  so_completed :: bool
  so_posted :: bool
  so_started :: bool
  so_detained :: "'b connection option"
  so_log :: "'b observation list"

definition connect_state_op :: "'b sender \<Rightarrow> 'b state_op" where
  "connect_state_op sd =
     \<lparr>so_connection = sd_connection sd, so_command = sd_command sd, so_successor = sd_successor sd,
      so_required = sd_required sd, so_tag = [], so_cell = None, so_stop_callback = False,
      so_completed = False, so_posted = False, so_started = False, so_detained = None, so_log = []\<rparr>"

definition so_observe :: "'b observation list \<Rightarrow> 'b state_op \<Rightarrow> 'b state_op" where
  "so_observe obs op = op\<lparr>so_log := so_log op @ obs\<rparr>"

text \<open>The tail of every value completion: the connection moves into the successor state.\<close>

definition so_complete_with :: "bool \<Rightarrow> error_code \<Rightarrow> command_result \<Rightarrow> 'b state_op \<Rightarrow> fault + 'b state_op" where
  "so_complete_with oom ec res op =
     proceed (move_connection (so_connection op)) (\<lambda>(moved, left).
       proceed (complete_with oom (so_successor op) ec moved res) (\<lambda>(out, st, d).
         Inr (so_observe [Completed (Set_value ec out st)] (op\<lparr>so_connection := left, so_detained := d\<rparr>))))"

definition so_on_result :: "bool \<Rightarrow> error_code \<Rightarrow> command_result \<Rightarrow> 'b state_op \<Rightarrow> fault + 'b state_op" where
  "so_on_result oom ec res op =
     (if so_completed op then Inr op
      else so_complete_with oom ec res
             (op\<lparr>so_completed := True, so_stop_callback := False,
                so_connection := finish_operation (so_connection op)\<rparr>))"

text \<open>The handlers of one event: the operation's own, and the hook of the captured snapshot.\<close>

fun so_event :: "bool \<Rightarrow> event \<Rightarrow> 'b state_op \<Rightarrow> fault + 'b state_op" where
  "so_event oom (Value_delivered i ec res) op =
     (if so_cell op = Some i then so_on_result oom ec res op else Inr op)"
| "so_event oom (Notified h ev) op = Inr (op\<lparr>so_successor := push_snapshot h ev (so_successor op)\<rparr>)"
| "so_event oom _ op = Inr op"

fun so_events :: "bool \<Rightarrow> event list \<Rightarrow> 'b state_op \<Rightarrow> fault + 'b state_op" where
  "so_events oom [] op = Inr op"
| "so_events oom (e # es) op = proceed (so_event oom e op) (so_events oom es)"

text \<open>
  \<open>flush\<close> on a context that has completed the command already does nothing, since the context is not
  open; the members are touched nevertheless.
\<close>

definition so_start :: "bool \<Rightarrow> fates \<Rightarrow> bool \<Rightarrow> 'b state_op \<Rightarrow> fault + 'b state_op" where
  "so_start oom f stop_requested op0 =
     (let (acquired, c) = try_start_operation (so_connection op0);
          op = op0\<lparr>so_connection := c, so_started := True\<rparr>
      in if \<not> acquired then Inl Assertion_failed
         else if stop_requested then
           Inr (so_observe [Completed Set_stopped] (op\<lparr>so_connection := finish_operation c\<rparr>))
         else if so_required op \<noteq> [] \<and> \<not> cap_contains (conn_capabilities c) (so_required op) then
           so_complete_with oom (Errc Capability_required) (default_result (so_command op))
             (op\<lparr>so_connection := finish_operation c\<rparr>)
         else
           proceed (with_context (submit_to f (so_command op)) c) (\<lambda>((tag, i), evs, c1).
             proceed (so_events oom evs (op\<lparr>so_connection := c1, so_cell := Some i\<rparr>)) (\<lambda>op1.
               if so_completed op1 then
                 Inr (so_observe [Late_access] (op1\<lparr>so_tag := tag, so_stop_callback := True\<rparr>))
               else
                 proceed (with_context (flush_to f) (so_connection op1)) (\<lambda>(_, evs', c2).
                   proceed (so_events oom evs' (op1\<lparr>so_tag := tag, so_connection := c2\<rparr>)) (\<lambda>op2.
                     Inr (so_observe (if so_completed op2 then [Late_access] else [])
                            (op2\<lparr>so_stop_callback := True\<rparr>)))))))"

text \<open>
  The stop callback. The stopped completion rides a posted task; when the task cannot be allocated
  it is delivered at once.
\<close>

definition post_stopped_delivery :: "bool \<Rightarrow> 'b state_op \<Rightarrow> 'b state_op" where
  "post_stopped_delivery oom op =
     (if oom then so_observe [Completed Set_stopped] op else op\<lparr>so_posted := True\<rparr>)"

definition so_stop :: "bool \<Rightarrow> fates \<Rightarrow> 'b state_op \<Rightarrow> fault + 'b state_op" where
  "so_stop oom f op =
     (if so_completed op then Inr op
      else
        proceed (with_context (cancel_to f (so_tag op)) (so_connection op)) (\<lambda>(_, evs, c).
          proceed (so_events oom evs (op\<lparr>so_completed := True, so_connection := c\<rparr>)) (\<lambda>op1.
            Inr (post_stopped_delivery oom
                   (op1\<lparr>so_connection := finish_operation (so_connection op1), so_stop_callback := False\<rparr>)))))"

definition so_run_posted :: "'b state_op \<Rightarrow> 'b state_op" where
  "so_run_posted op = so_observe [Completed Set_stopped] (op\<lparr>so_posted := False\<rparr>)"

section \<open>Runs\<close>

definition context_step :: "'b buffer_ops \<Rightarrow> action \<Rightarrow> 'b core \<Rightarrow> fault + unit \<times> 'b core" where
  "context_step ops a k = (case perform ops a k of None \<Rightarrow> Inl Dangling_pointer | Some k' \<Rightarrow> Inr ((), k'))"

definition so_context :: "'b buffer_ops \<Rightarrow> bool \<Rightarrow> action \<Rightarrow> 'b state_op \<Rightarrow> fault + 'b state_op" where
  "so_context ops oom a op =
     proceed (with_context (context_step ops a) (so_connection op)) (\<lambda>(_, evs, c).
       so_events oom evs (op\<lparr>so_connection := c\<rparr>))"

datatype op_action = Op_start fates bool | Op_stop fates | Op_posted | Op_context action

definition context_enabled :: "action \<Rightarrow> 'b connection \<Rightarrow> bool" where
  "context_enabled a c \<longleftrightarrow> environment a \<and> (case conn_context c of None \<Rightarrow> False | Some k \<Rightarrow> enabled a k)"

fun so_enabled :: "op_action \<Rightarrow> 'b state_op \<Rightarrow> bool" where
  "so_enabled (Op_start f stop) op \<longleftrightarrow> \<not> so_started op"
| "so_enabled (Op_stop f) op \<longleftrightarrow> so_stop_callback op"
| "so_enabled Op_posted op \<longleftrightarrow> so_posted op"
| "so_enabled (Op_context a) op \<longleftrightarrow> context_enabled a (so_connection op)"

fun so_perform :: "'b buffer_ops \<Rightarrow> bool \<Rightarrow> op_action \<Rightarrow> 'b state_op \<Rightarrow> fault + 'b state_op" where
  "so_perform ops oom (Op_start f stop) op = so_start oom f stop op"
| "so_perform ops oom (Op_stop f) op = so_stop oom f op"
| "so_perform ops oom Op_posted op = Inr (so_run_posted op)"
| "so_perform ops oom (Op_context a) op = so_context ops oom a op"

definition so_step :: "'b buffer_ops \<Rightarrow> 'b state_op \<Rightarrow> 'b state_op \<Rightarrow> bool" where
  "so_step ops op op' \<longleftrightarrow> (\<exists>a oom. so_enabled a op \<and> so_perform ops oom a op = Inr op')"

definition so_reachable :: "'b buffer_ops \<Rightarrow> 'b sender \<Rightarrow> 'b state_op \<Rightarrow> bool" where
  "so_reachable ops sd op \<longleftrightarrow> rtranclp (so_step ops) (connect_state_op sd) op"

fun so_run :: "'b buffer_ops \<Rightarrow> op_action list \<Rightarrow> 'b state_op \<Rightarrow> fault + 'b state_op" where
  "so_run ops [] op = Inr op"
| "so_run ops (a # as) op =
     (if so_enabled a op then proceed (so_perform ops False a op) (so_run ops as) else Inl Assertion_failed)"

lemma so_run_reachable: "so_reachable ops sd op \<Longrightarrow> so_run ops as op = Inr op' \<Longrightarrow> so_reachable ops sd op'"
proof (induction as arbitrary: op)
  case (Cons a as)
  obtain op1 where 1: "so_enabled a op" "so_perform ops False a op = Inr op1" "so_run ops as op1 = Inr op'"
    using Cons(3) by (auto simp: proceed_Inr split: if_splits)
  have "so_step ops op op1" using 1 unfolding so_step_def by blast
  with Cons(2) have "so_reachable ops sd op1" unfolding so_reachable_def by (rule rtranclp.rtrancl_into_rtrancl)
  then show ?case using Cons(1) 1(3) by blast
qed simp

section \<open>The contract towards the receiver\<close>

text \<open>
  \<open>claimed\<close> is the flag that decides the race for the completion, \<open>posted\<close> says that the stopped
  completion waits in the scheduler.
\<close>

locale receiver_contract =
  fixes init :: "'o \<Rightarrow> bool" and step :: "'o \<Rightarrow> 'o \<Rightarrow> bool" and inv :: "'o \<Rightarrow> bool"
    and log :: "'o \<Rightarrow> 'b observation list" and posted :: "'o \<Rightarrow> bool" and claimed :: "'o \<Rightarrow> bool"
  assumes inv_init: "init x \<Longrightarrow> inv x"
    and inv_step: "inv x \<Longrightarrow> step x y \<Longrightarrow> inv y"
    and balance: "inv x \<Longrightarrow> length (completions (log x)) + of_bool (posted x) = (of_bool (claimed x) :: nat)"
begin

lemma run_inv: "init x0 \<Longrightarrow> rtranclp step x0 x \<Longrightarrow> inv x"
  by (rotate_tac, induction rule: rtranclp_induct) (auto intro: inv_init inv_step)

lemma once:
  assumes "init x0" "rtranclp step x0 x"
  shows "length (completions (log x)) \<le> 1 \<and>
    (claimed x \<longrightarrow> (posted x \<and> completions (log x) = []) \<or> (\<not> posted x \<and> (\<exists>y. completions (log x) = [y]))) \<and>
    (\<not> claimed x \<longrightarrow> \<not> posted x \<and> completions (log x) = [])"
  using balance [OF run_inv [OF assms]]
  by (cases "claimed x"; cases "posted x"; cases "completions (log x)") auto

end

lemma proceed_InrE:
  assumes "proceed r g = Inr y"
  obtains x where "r = Inr x" "g x = Inr y"
  using assms by (cases r) auto

lemma with_contextE:
  assumes "with_context g c = Inr (x, evs, c')"
  obtains k k' where "conn_context c = Some k" "g k = Inr (x, k')" "evs = drop (length (trace k)) (trace k')"
    "c' = c\<lparr>conn_context := Some k'\<rparr>"
  using assms by (auto simp: with_context_def proceed_Inr split: option.splits)

section \<open>The invariant of the generic operation\<close>

text \<open>Building a state changes the handler table of its context at most.\<close>

definition relistened :: "'b buffer_ops \<Rightarrow> 'b connection \<Rightarrow> 'b connection \<Rightarrow> bool" where
  "relistened ops c c' \<longleftrightarrow> conn_busy c' = conn_busy c \<and> (conn_context c' = None) = (conn_context c = None) \<and>
     (\<forall>k'. conn_context c' = Some k' \<longrightarrow>
        (\<exists>k u. conn_context c = Some k \<and> k' = k\<lparr>unsolicited := u\<rparr> \<and> (living ops k \<longrightarrow> living ops k')))"

lemma relistened_refl: "relistened ops c c"
proof -
  have "k = k\<lparr>unsolicited := unsolicited k\<rparr>" for k :: "'b core" by simp
  then show ?thesis unfolding relistened_def by blast
qed

lemma selected_relistened:
  assumes "selected_state c m = Inr st"
  shows "\<exists>c' h. st = Selected c' m h \<and> relistened ops c c'"
proof -
  obtain h evs c' where w: "with_context listen_to c = Inr (h, evs, c')" "st = Selected c' m h"
    using assms by (auto simp: selected_state_def proceed_Inr)
  obtain k k' where k: "conn_context c = Some k" "listen_to k = Inr (h, k')" "c' = c\<lparr>conn_context := Some k'\<rparr>"
    using w(1) by (rule with_contextE)
  have "k' = snd (on_unsolicited k)" using k(2) by (simp add: listen_to_def)
  then have u: "k' = k\<lparr>unsolicited := snd (table_add (unsolicited k))\<rparr>" "living ops k \<longrightarrow> living ops k'"
    using living_calls(4) [of ops k] by (simp_all add: on_unsolicited_def split: prod.splits)
  have "relistened ops c c'" unfolding relistened_def using k(1,3) u by auto
  then show ?thesis using w(2) by blast
qed

lemma drop_relistened:
  assumes "relistened ops c c0"
  shows "\<exists>c'. drop_registration h (Selected c0 m h') = Selected c' m h' \<and> relistened ops c c'"
proof -
  let ?c = "c0\<lparr>conn_context := map_option (reset_registration h) (conn_context c0)\<rparr>"
  have "relistened ops c ?c"
    unfolding relistened_def
  proof (intro conjI allI impI)
    show "conn_busy ?c = conn_busy c" "(conn_context ?c = None) = (conn_context c = None)"
      using assms by (simp_all add: relistened_def)
    fix k' assume "conn_context ?c = Some k'"
    then obtain k0 where k0: "conn_context c0 = Some k0" "k' = reset_registration h k0" by auto
    then obtain k u where "conn_context c = Some k" "k0 = k\<lparr>unsolicited := u\<rparr>" "living ops k \<longrightarrow> living ops k0"
      using assms unfolding relistened_def by blast
    then show "\<exists>k u. conn_context c = Some k \<and> k' = k\<lparr>unsolicited := u\<rparr> \<and> (living ops k \<longrightarrow> living ops k')"
      using k0(2) living_calls(5) [of ops k0 h]
      by (intro exI [of _ k] exI [of _ "deactivate h u"]) (auto simp: reset_registration_def)
  qed
  then show ?thesis by (simp add: drop_registration_def)
qed

lemma complete_with_relistened:
  "complete_with oom s ec c res = Inr (out, st, d) \<Longrightarrow> session_connection st = Some c' \<Longrightarrow> relistened ops c c'"
proof (induction s arbitrary: c out)
  case (Rebuild_selected m h)
  then obtain st0 where st: "selected_state c m = Inr st0" "st = drop_registration h st0"
    by (auto simp: proceed_Inr)
  obtain c0 h0 where "st0 = Selected c0 m h0" "relistened ops c c0" using selected_relistened [OF st(1)] by blast
  with drop_relistened [of ops c c0 h m h0] st(2) Rebuild_selected(2) show ?case by auto
next
  case Select_branches
  show ?case
  proof (cases "ec = No_error")
    case True
    then have "selected_state c (mailbox_of res) = Inr st" using Select_branches by (auto simp: proceed_Inr)
    from selected_relistened [OF this] show ?thesis using Select_branches(2) by fastforce
  next
    case False
    then show ?thesis using Select_branches relistened_refl by auto
  qed
next
  case (Capability_successor s)
  let ?c = "if ec = No_error then set_capabilities (caps_of res) c else c"
  obtain out' where "complete_with oom s ec ?c res = Inr (out', st, d)"
    using Capability_successor(2) by (auto simp: proceed_Inr)
  from Capability_successor(1) [OF this Capability_successor(3)] show ?case
    by (auto simp: relistened_def set_capabilities_def split: if_splits)
next
  case (Query_successor s)
  then show ?case by (auto simp: proceed_Inr)
qed (auto simp: relistened_refl split: if_splits)

text \<open>A connection that can carry the next operation.\<close>

definition usable :: "'b buffer_ops \<Rightarrow> 'b connection \<Rightarrow> bool" where
  "usable ops c \<longleftrightarrow> \<not> conn_busy c \<and> (\<exists>k. conn_context c = Some k \<and> living ops k)"

lemma relistened_usable: "relistened ops c c' \<Longrightarrow> usable ops c \<Longrightarrow> usable ops c'"
  by (cases "conn_context c'") (auto simp: relistened_def usable_def)

lemma moved_usable:
  "usable ops c \<Longrightarrow> move_connection c = Inr (c', left) \<Longrightarrow> usable ops c' \<and> \<not> usable ops left"
  "usable ops other \<Longrightarrow> assign_connection c other = Inr (c', left, k) \<Longrightarrow>
     usable ops c' \<and> \<not> usable ops left \<and> (\<forall>k0. conn_context c = Some k0 \<longrightarrow> k = Some (abandon k0))"
  by (auto simp: move_connection_def assign_connection_def usable_def split: if_splits)

text \<open>
  A state handed out holds a consistent context in which the cell of the operation is over.
\<close>

definition handed_out :: "'b buffer_ops \<Rightarrow> nat option \<Rightarrow> 'b session \<Rightarrow> bool" where
  "handed_out ops cell st \<longleftrightarrow>
     (\<forall>c. session_connection st = Some c \<longrightarrow> usable ops c \<and>
        (\<forall>i k. cell = Some i \<longrightarrow> conn_context c = Some k \<longrightarrow> i \<in> set (terminals (trace k))))"

definition so_claimed :: "'b state_op \<Rightarrow> bool" where
  "so_claimed op \<longleftrightarrow> so_completed op \<or> (so_started op \<and> so_cell op = None)"

definition so_inv :: "'b buffer_ops \<Rightarrow> 'b sender \<Rightarrow> 'b state_op \<Rightarrow> bool" where
  "so_inv ops sd op \<longleftrightarrow>
     (\<not> so_started op \<longrightarrow> so_cell op = None) \<and>
     (so_cell op = None \<longrightarrow> \<not> so_completed op \<and> \<not> so_stop_callback op \<and> \<not> so_posted op) \<and>
     length (completions (so_log op)) + of_bool (so_posted op) = (of_bool (so_claimed op) :: nat) \<and>
     (\<forall>k. conn_context (so_connection op) = Some k \<longrightarrow> living ops k) \<and>
     (\<not> so_claimed op \<longrightarrow> conn_context (so_connection op) \<noteq> None) \<and>
     (\<forall>ok. kind_after (so_successor op) ok = kind_after (sd_successor sd) ok) \<and>
     (\<forall>ec out st. Set_value ec out st \<in> set (completions (so_log op)) \<longrightarrow>
        kind_of st = kind_after (sd_successor sd) (ec = No_error) \<and> handed_out ops (so_cell op) st)"

lemma so_complete_inv:
  assumes i: "so_inv ops sd op" and e: "so_complete_with oom ec res op' = Inr op''"
    and op': "op' = op\<lparr>so_completed := d, so_stop_callback := cb, so_connection := c, so_started := True\<rparr>"
    and s: "\<not> so_claimed op" "so_claimed op'" "d \<or> cb \<longrightarrow> so_cell op \<noteq> None"
    and c: "conn_context c = Some k" "living ops k" "\<forall>i. so_cell op = Some i \<longrightarrow> i \<in> set (terminals (trace k))"
  shows "so_inv ops sd op'' \<and> so_started op'' \<and> so_cell op'' = so_cell op \<and>
    so_completed op'' = d \<and> conn_context (so_connection op'') = None"
proof -
  obtain out st dt where w: "complete_with oom (so_successor op') ec c res = Inr (out, st, dt)"
    and nb: "\<not> conn_busy c" and op'': "op'' = so_observe [Completed (Set_value ec out st)]
      (op'\<lparr>so_connection := c\<lparr>conn_context := None, conn_capabilities := []\<rparr>, so_detained := dt\<rparr>)"
    using e unfolding so_complete_with_def op' by (auto simp: proceed_Inr move_connection_def split: if_splits)
  have k: "kind_of st = kind_after (sd_successor sd) (ec = No_error)"
    using complete_with_kind [OF w] i by (simp add: op' so_inv_def)
  have "handed_out ops (so_cell op) st"
    unfolding handed_out_def
  proof (intro allI impI)
    fix c' assume "session_connection st = Some c'"
    then have l: "relistened ops c c'" by (rule complete_with_relistened [OF w])
    then have "usable ops c'" by (rule relistened_usable) (use c nb in \<open>simp add: usable_def\<close>)
    moreover have "i \<in> set (terminals (trace k'))" if "so_cell op = Some i" "conn_context c' = Some k'" for i k'
      using l that c by (auto simp: relistened_def)
    ultimately show "usable ops c' \<and>
      (\<forall>i k'. so_cell op = Some i \<longrightarrow> conn_context c' = Some k' \<longrightarrow> i \<in> set (terminals (trace k')))" by blast
  qed
  then show ?thesis using i s k unfolding op'' op'
    by (auto simp: so_inv_def so_observe_def so_claimed_def)
qed

lemma so_event_inv:
  assumes i: "so_inv ops sd op" and e: "so_event oom ev op = Inr op'"
    and v: "\<And>i ec res k. ev = Value_delivered i ec res \<Longrightarrow> conn_context (so_connection op) = Some k \<Longrightarrow>
      i \<in> set (terminals (trace k))"
  shows "so_inv ops sd op' \<and> so_started op' = so_started op \<and> so_cell op' = so_cell op \<and>
    (conn_context (so_connection op') = conn_context (so_connection op) \<or> conn_context (so_connection op') = None)"
proof (cases "\<exists>i ec res. ev = Value_delivered i ec res \<and> so_cell op = Some i \<and> \<not> so_completed op")
  case True
  then obtain i ec res where ev: "ev = Value_delivered i ec res" "so_cell op = Some i" "\<not> so_completed op" by blast
  define op1 where "op1 = op\<lparr>so_completed := True, so_stop_callback := False,
    so_connection := finish_operation (so_connection op), so_started := True\<rparr>"
  have "op\<lparr>so_completed := True, so_stop_callback := False,
    so_connection := finish_operation (so_connection op)\<rparr> = op1" using i ev by (auto simp: op1_def so_inv_def)
  then have e': "so_complete_with oom ec res op1 = Inr op'" using e ev by (simp add: so_on_result_def)
  have cl: "\<not> so_claimed op" "so_claimed op1" using ev by (simp_all add: so_claimed_def op1_def)
  obtain k where c: "conn_context (finish_operation (so_connection op)) = Some k" "living ops k"
    "\<forall>i. so_cell op = Some i \<longrightarrow> i \<in> set (terminals (trace k))"
    using i cl(1) v [OF ev(1)] ev(2) by (auto simp: so_inv_def finish_operation_def)
  from so_complete_inv [OF i e' op1_def cl _ c] ev i show ?thesis by (auto simp: so_inv_def)
next
  case False
  then have "op' = op \<or> (\<exists>h ev. op' = op\<lparr>so_successor := push_snapshot h ev (so_successor op)\<rparr>)"
    using e by (cases ev) (auto simp: so_on_result_def split: if_splits)
  then show ?thesis using i by (elim disjE exE) (simp_all add: so_inv_def so_claimed_def)
qed

lemma so_events_inv:
  assumes "so_inv ops sd op" "so_events oom evs op = Inr op'"
    and "\<And>i ec res k. Value_delivered i ec res \<in> set evs \<Longrightarrow> conn_context (so_connection op) = Some k \<Longrightarrow>
      i \<in> set (terminals (trace k))"
  shows "so_inv ops sd op' \<and> so_started op' = so_started op \<and> so_cell op' = so_cell op"
  using assms
proof (induction evs arbitrary: op)
  case (Cons ev evs)
  obtain op1 where 1: "so_event oom ev op = Inr op1" "so_events oom evs op1 = Inr op'"
    using Cons(3) by (auto simp: proceed_Inr)
  have e: "so_inv ops sd op1 \<and> so_started op1 = so_started op \<and> so_cell op1 = so_cell op \<and>
    (conn_context (so_connection op1) = conn_context (so_connection op) \<or> conn_context (so_connection op1) = None)"
    by (rule so_event_inv [OF Cons(2) 1(1)]) (use Cons(4) in auto)
  have "i \<in> set (terminals (trace k))"
    if "Value_delivered i ec res \<in> set evs" "conn_context (so_connection op1) = Some k" for i ec res k
    using Cons(4) [of i ec res k] that e by fastforce
  from Cons(1) [OF conjunct1 [OF e] 1(2) this] e show ?case by simp
qed simp

lemma so_events_completed:
  "so_completed op \<Longrightarrow> \<exists>s. so_events oom evs op = Inr (op\<lparr>so_successor := s\<rparr>) \<and>
     (\<forall>ok. kind_after s ok = kind_after (so_successor op) ok)"
proof (induction evs arbitrary: op)
  case (Cons ev evs)
  obtain s where s: "so_event oom ev op = Inr (op\<lparr>so_successor := s\<rparr>)"
    "\<forall>ok. kind_after s ok = kind_after (so_successor op) ok"
    using Cons(2) by (cases ev) (auto simp: so_on_result_def intro: that [of "so_successor op"])
  then show ?case using Cons(1) [of "op\<lparr>so_successor := s\<rparr>"] Cons(2) by auto
next
  case Nil
  then show ?case by (auto intro: exI [of _ "so_successor op"])
qed

text \<open>A call on the context, followed by the handlers of the events it emitted.\<close>

lemma value_terminal: "Value_delivered i ec res \<in> set (drop n (trace k)) \<Longrightarrow> i \<in> set (terminals (trace k))"
  by (force simp: terminals_def List.map_filter_def dest: in_set_dropD intro!: rev_image_eqI)

lemma context_call_inv:
  assumes i: "so_inv ops sd op" and w: "with_context g (so_connection op) = Inr (x, evs, c)"
    and g: "\<And>k k'. living ops k \<Longrightarrow> g k = Inr (x, k') \<Longrightarrow> living ops k'"
    and op1: "op1 = op\<lparr>so_connection := c\<rparr>"
    and e: "so_events oom evs op1 = Inr op'"
  shows "so_inv ops sd op' \<and> so_started op' = so_started op \<and> so_cell op' = so_cell op"
proof -
  obtain k k' where k: "conn_context (so_connection op) = Some k" "g k = Inr (x, k')"
    "evs = drop (length (trace k)) (trace k')" "c = (so_connection op)\<lparr>conn_context := Some k'\<rparr>"
    using w by (rule with_contextE)
  have "living ops k'" using g k i by (auto simp: so_inv_def)
  then have "so_inv ops sd op1" using i k unfolding op1 by (simp add: so_inv_def so_claimed_def)
  from so_events_inv [OF this e] show ?thesis using k value_terminal unfolding op1 by fastforce
qed

lemma submit_to_inv: "living ops k \<Longrightarrow> submit_to f a k = Inr (x, k') \<Longrightarrow> living ops k'"
  by (auto simp: submit_to_def intro: living_calls(1) split: option.splits if_splits)

lemma flush_to_inv: "living ops k \<Longrightarrow> flush_to f k = Inr (x, k') \<Longrightarrow> living ops k'"
  by (auto simp: flush_to_def intro: living_calls(3))

lemma cancel_to_inv: "living ops k \<Longrightarrow> cancel_to f tag k = Inr (x, k') \<Longrightarrow> living ops k'"
  by (auto simp: cancel_to_def intro: living_calls(2) split: option.splits)

lemma context_step_inv: "living ops k \<Longrightarrow> environment a \<Longrightarrow> enabled a k \<Longrightarrow> context_step ops a k = Inr (x, k') \<Longrightarrow> living ops k'"
  by (auto simp: context_step_def intro: living_environment split: option.splits)

lemma so_observe_late [simp]:
  "so_inv ops sd (so_observe [Late_access] op) = so_inv ops sd op" "so_inv ops sd (so_observe [] op) = so_inv ops sd op"
  by (simp_all add: so_observe_def so_inv_def so_claimed_def)

lemma so_note_inv:
  "so_inv ops sd op \<Longrightarrow> so_cell op \<noteq> None \<Longrightarrow> so_inv ops sd (op\<lparr>so_tag := t, so_stop_callback := cb\<rparr>)"
  "so_inv ops sd op \<Longrightarrow> so_inv ops sd (op\<lparr>so_tag := t\<rparr>)"
  by (auto simp: so_inv_def so_claimed_def)

lemma so_submitted_inv:
  assumes i: "so_inv ops sd op" "\<not> so_started op"
    and w: "with_context (submit_to f a) c0 = Inr (x, evs, c)"
    and c0: "conn_context c0 = conn_context (so_connection op)"
    and op1: "op1 = op\<lparr>so_started := True, so_connection := c, so_cell := Some n\<rparr>"
    and e: "so_events oom evs op1 = Inr op'"
  shows "so_inv ops sd op' \<and> so_started op' \<and> so_cell op' = Some n"
proof -
  obtain k k' where k: "conn_context c0 = Some k" "submit_to f a k = Inr (x, k')"
    "evs = drop (length (trace k)) (trace k')" "c = c0\<lparr>conn_context := Some k'\<rparr>"
    using w by (rule with_contextE)
  have "living ops k" using k(1) i(1) c0 by (auto simp: so_inv_def)
  from submit_to_inv [OF this k(2)] have "living ops k'" .
  moreover have "completions (so_log op) = []" using i by (auto simp: so_inv_def so_claimed_def)
  ultimately have "so_inv ops sd op1" using i k unfolding op1 by (auto simp: so_inv_def so_claimed_def)
  from so_events_inv [OF this e] show ?thesis using k value_terminal unfolding op1 by fastforce
qed

lemma so_start_inv:
  assumes i: "so_inv ops sd op" "\<not> so_started op" and e: "so_start oom f stop op = Inr op'"
  shows "so_inv ops sd op'"
proof -
  let ?c = "(so_connection op)\<lparr>conn_busy := True\<rparr>"
  have fresh: "completions (so_log op) = []" "\<not> so_posted op" "so_cell op = None" "\<not> so_completed op"
    "\<not> so_stop_callback op" using i by (auto simp: so_inv_def so_claimed_def)
  have busy: "\<not> conn_busy (so_connection op)" using e by (auto simp: so_start_def try_start_operation_def Let_def)
  consider (stop) stop | (gate) "\<not> stop" "so_required op \<noteq> []" "\<not> cap_contains (conn_capabilities ?c) (so_required op)"
    | (go) "\<not> stop" "\<not> (so_required op \<noteq> [] \<and> \<not> cap_contains (conn_capabilities ?c) (so_required op))" by blast
  then show ?thesis
  proof cases
    case stop
    then show ?thesis using i e fresh busy
      by (auto simp: so_start_def try_start_operation_def so_inv_def so_observe_def so_claimed_def finish_operation_def)
  next
    case gate
    let ?op1 = "op\<lparr>so_completed := False, so_stop_callback := False, so_connection := finish_operation ?c,
      so_started := True\<rparr>"
    have "op\<lparr>so_started := True, so_connection := finish_operation ?c\<rparr> = ?op1" using fresh by simp
    then have "so_complete_with oom (Errc Capability_required) (default_result (so_command op)) ?op1 = Inr op'"
      using e gate busy by (simp add: so_start_def try_start_operation_def)
    from so_complete_inv [OF i(1) this refl] show ?thesis
      using i fresh by (auto simp: so_claimed_def finish_operation_def so_inv_def)
  next
    case go
    obtain tag n evs c1 op1 where 1: "with_context (submit_to f (so_command op)) ?c = Inr ((tag, n), evs, c1)"
      "so_events oom evs (op\<lparr>so_started := True, so_connection := c1, so_cell := Some n\<rparr>) = Inr op1"
      "(if so_completed op1 then Inr (so_observe [Late_access] (op1\<lparr>so_tag := tag, so_stop_callback := True\<rparr>))
        else proceed (with_context (flush_to f) (so_connection op1)) (\<lambda>(_, evs', c2).
          proceed (so_events oom evs' (op1\<lparr>so_tag := tag, so_connection := c2\<rparr>)) (\<lambda>op2.
            Inr (so_observe (if so_completed op2 then [Late_access] else []) (op2\<lparr>so_stop_callback := True\<rparr>))))) = Inr op'"
      using e go busy by (auto simp: so_start_def try_start_operation_def proceed_Inr)
    have o: "so_inv ops sd op1 \<and> so_started op1 \<and> so_cell op1 = Some n"
      using so_submitted_inv [OF i 1(1) _ refl 1(2)] by simp
    show ?thesis
    proof (cases "so_completed op1")
      case True
      then show ?thesis using 1(3) o so_note_inv(1) [of ops sd op1] by auto
    next
      case False
      obtain evs' c2 op2 where 2: "with_context (flush_to f) (so_connection op1) = Inr ((), evs', c2)"
        "so_events oom evs' (op1\<lparr>so_tag := tag, so_connection := c2\<rparr>) = Inr op2"
        "op' = so_observe (if so_completed op2 then [Late_access] else []) (op2\<lparr>so_stop_callback := True\<rparr>)"
        using 1(3) False by (fastforce elim!: proceed_InrE)
      have "so_inv ops sd (op1\<lparr>so_tag := tag\<rparr>)" "with_context (flush_to f) (so_connection (op1\<lparr>so_tag := tag\<rparr>)) = Inr ((), evs', c2)"
        "so_events oom evs' (op1\<lparr>so_tag := tag\<rparr>\<lparr>so_connection := c2\<rparr>) = Inr op2"
        using o 2 by (simp_all add: so_note_inv(2))
      from context_call_inv [OF this(1,2) flush_to_inv refl this(3)] o have "so_inv ops sd op2 \<and> so_cell op2 = Some n" by simp
      then show ?thesis using 2(3) so_note_inv(1) [of ops sd op2 True "so_tag op2"] by auto
    qed
  qed
qed

lemma so_stop_inv:
  assumes i: "so_inv ops sd op" "so_cell op \<noteq> None" and e: "so_stop oom f op = Inr op'"
  shows "so_inv ops sd op'"
proof (cases "so_completed op")
  case False
  obtain evs c op1 where 1: "with_context (cancel_to f (so_tag op)) (so_connection op) = Inr ((), evs, c)"
    "so_events oom evs (op\<lparr>so_completed := True, so_connection := c\<rparr>) = Inr op1"
    "op' = post_stopped_delivery oom (op1\<lparr>so_connection := finish_operation (so_connection op1), so_stop_callback := False\<rparr>)"
    using e False by (fastforce simp: so_stop_def elim!: proceed_InrE)
  obtain s where s: "op1 = op\<lparr>so_completed := True, so_connection := c, so_successor := s\<rparr>"
    "\<forall>ok. kind_after s ok = kind_after (so_successor op) ok"
    using so_events_completed [of "op\<lparr>so_completed := True, so_connection := c\<rparr>" oom evs] 1(2) by auto
  have k: "living ops k" if "conn_context c = Some k" for k
  proof -
    obtain k0 k1 where k0: "conn_context (so_connection op) = Some k0" "cancel_to f (so_tag op) k0 = Inr ((), k1)"
      "c = (so_connection op)\<lparr>conn_context := Some k1\<rparr>" using 1(1) by (rule with_contextE)
    then have "living ops k0" "k1 = k" using i(1) that by (auto simp: so_inv_def)
    then show ?thesis using cancel_to_inv k0(2) by blast
  qed
  have "completions (so_log op) = []" "\<not> so_posted op" using i False by (auto simp: so_inv_def so_claimed_def)
  then show ?thesis using i s k unfolding 1(3)
    by (auto simp: so_inv_def so_claimed_def post_stopped_delivery_def so_observe_def finish_operation_def)
qed (use e i in \<open>simp add: so_stop_def\<close>)

lemma so_step_inv: "so_inv ops sd op \<Longrightarrow> so_step ops op op' \<Longrightarrow> so_inv ops sd op'"
proof -
  assume i: "so_inv ops sd op" and "so_step ops op op'"
  then obtain a oom where e: "so_enabled a op" "so_perform ops oom a op = Inr op'" by (auto simp: so_step_def)
  show ?thesis
  proof (cases a)
    case (Op_start f stop)
    then show ?thesis using so_start_inv [OF i] e by simp
  next
    case (Op_stop f)
    then show ?thesis using so_stop_inv [OF i] e i by (auto simp: so_inv_def)
  next
    case Op_posted
    then have p: "so_posted op" "op' = so_run_posted op" using e by simp_all
    then have "completions (so_log op) = []" "so_claimed op"
      using i by (cases "so_claimed op"; auto simp: so_inv_def)+
    then show ?thesis using i p by (auto simp: so_run_posted_def so_inv_def so_claimed_def so_observe_def)
  next
    case (Op_context b)
    obtain k where k: "conn_context (so_connection op) = Some k" "environment b" "enabled b k"
      using e Op_context by (auto simp: context_enabled_def split: option.splits)
    obtain evs c where w: "with_context (context_step ops b) (so_connection op) = Inr ((), evs, c)"
      "so_events oom evs (op\<lparr>so_connection := c\<rparr>) = Inr op'"
      using e Op_context by (fastforce simp: so_context_def elim!: proceed_InrE)
    obtain k' where k': "context_step ops b k = Inr ((), k')" "c = (so_connection op)\<lparr>conn_context := Some k'\<rparr>"
      "evs = drop (length (trace k)) (trace k')"
      using w(1) k(1) by (auto elim!: with_contextE)
    have "living ops k" using i k(1) by (simp add: so_inv_def)
    from context_step_inv [OF this k(2,3) k'(1)] have "so_inv ops sd (op\<lparr>so_connection := c\<rparr>)"
      using i k'(2) by (simp add: so_inv_def so_claimed_def)
    from so_events_inv [OF this w(2)] k'(2,3) value_terminal show ?thesis by fastforce
  qed
qed

section \<open>Properties\<close>

text \<open>The states an operation can be started from, and the senders they offer.\<close>

datatype session_call = Na not_authenticated_call | Au authenticated_call | Se selected_call

fun session_sender :: "'b session \<Rightarrow> session_call \<Rightarrow> 'b sender option" where
  "session_sender (Not_authenticated c) (Na call) = Some (not_authenticated_op call c)"
| "session_sender (Authenticated c) (Au call) = Some (authenticated_op call c)"
| "session_sender (Selected c m h) (Se call) = Some (selected_op call c m h)"
| "session_sender _ _ = None"

lemma session_sender_follows:
  "session_sender s call = Some sd \<Longrightarrow>
     rfc_next (kind_of s) (sd_command sd) ok = Some (kind_after (sd_successor sd) ok) \<and>
     session_connection s = Some (sd_connection sd)"
  by (cases s; cases call) (auto simp: na.follows au.follows se.follows na.carries au.carries se.carries)

lemma connected_inv:
  assumes "conn_context (sd_connection sd) = Some k" "living ops k"
  shows "so_inv ops sd (connect_state_op sd)"
  using assms by (simp add: so_inv_def connect_state_op_def so_claimed_def)

definition owns_live_context :: "'b buffer_ops \<Rightarrow> 'b sender \<Rightarrow> bool" where
  "owns_live_context ops sd \<longleftrightarrow> (\<exists>k. conn_context (sd_connection sd) = Some k \<and> living ops k)"

interpretation so: receiver_contract "\<lambda>op. op = connect_state_op sd \<and> owns_live_context ops sd" "so_step ops"
  "so_inv ops sd" so_log so_posted so_claimed
proof
  show "so_inv ops sd op" if "op = connect_state_op sd \<and> owns_live_context ops sd" for op
    using that by (auto simp: owns_live_context_def intro!: connected_inv)
  show "length (completions (so_log op)) + of_bool (so_posted op) = (of_bool (so_claimed op) :: nat)"
    if "so_inv ops sd op" for op using that by (simp add: so_inv_def)
qed (rule so_step_inv)

section \<open>Sample runs\<close>

definition round_trip :: "octets \<Rightarrow> op_action list" where
  "round_trip reply =
     [Op_start calm False, Op_context (Run_kick No_error), Op_context (Arm_write calm),
      Op_context (Finish_write calm No_error), Op_context (Finish_read No_error reply),
      Op_context (Read_round calm)]"

definition sample_connection :: "octets connection" where
  "sample_connection = new_connection False calm []"

definition joe :: account_info where
  "joe = \<lparr>user_name = ''joe'', password = ''pw'', authzid = None\<rparr>"

definition login_sender :: "octets sender" where
  "login_sender = not_authenticated_op (Na_login joe) sample_connection"

definition so_after :: "op_action list \<Rightarrow> octets sender \<Rightarrow> octets state_op" where
  "so_after as sd = projr (so_run list_buffer as (connect_state_op sd))"

lemma so_after_reachable:
  "isl (so_run list_buffer as (connect_state_op sd)) = False \<Longrightarrow> so_reachable list_buffer sd (so_after as sd)"
  using so_run_reachable [of list_buffer sd "connect_state_op sd" as "so_after as sd"]
  by (cases "so_run list_buffer as (connect_state_op sd)") (auto simp: so_reachable_def so_after_def)

lemma sample_live: "owns_live_context list_buffer login_sender"
  unfolding owns_live_context_def login_sender_def
  by (simp add: mk_sender_def sample_connection_def new_connection_def living_fresh)

text \<open>
  C5. Exactly one completion: whatever the context does, whenever the stop is requested and
  wherever an allocation fails, an operation of layer 2 completes its receiver at most once; once
  the completion is claimed it has been delivered or waits as the posted stopped task, never both;
  and nothing is posted before the claim.
\<close>

theorem op_completes_once:
  assumes "owns_live_context ops sd" "so_reachable ops sd op"
  shows "length (completions (so_log op)) \<le> 1 \<and>
    (so_completed op \<longrightarrow>
       (so_posted op \<and> completions (so_log op) = []) \<or>
       (\<not> so_posted op \<and> (\<exists>y. completions (so_log op) = [y]))) \<and>
    (so_posted op \<longrightarrow> so_completed op)"
proof -
  have r: "rtranclp (so_step ops) (connect_state_op sd) op" using assms(2) by (simp add: so_reachable_def)
  have "so_inv ops sd op" using so.run_inv [OF _ r] assms(1) by blast
  then have "so_posted op \<longrightarrow> so_completed op" by (auto simp: so_inv_def so_claimed_def)
  then show ?thesis using so.once [OF _ r] assms(1) by (auto simp: so_claimed_def)
qed

theorem op_completes_once_witness:
  "owns_live_context list_buffer login_sender \<and>
   so_reachable list_buffer login_sender (so_after (round_trip (''a0001 OK done'' @ CRLF)) login_sender) \<and>
   (\<exists>y. completions (so_log (so_after (round_trip (''a0001 OK done'' @ CRLF)) login_sender)) = [y])"
proof -
  let ?op = "so_after (round_trip (''a0001 OK done'' @ CRLF)) login_sender"
  have r: "so_reachable list_buffer login_sender ?op" by (rule so_after_reachable) code_simp
  have c: "so_completed ?op" "\<not> so_posted ?op" by code_simp+
  show ?thesis using op_completes_once [OF sample_live r] r c sample_live by blast
qed

text \<open>
  C3. The session follows the state diagram of RFC 3501: an operation can be started only in a
  state whose class offers it, its command is permitted in that state, and every value completion
  of every run hands out the state that the diagram gives for the command and its outcome, with a
  living context that is free for the next operation.
\<close>

theorem session_follows_rfc:
  assumes "session_sender s call = Some sd" "owns_live_context ops sd" "so_reachable ops sd op"
    and "Set_value ec out st \<in> set (completions (so_log op))"
  shows "rfc_next (kind_of s) (sd_command sd) (ec = No_error) = Some (kind_of st) \<and>
    (\<forall>c. session_connection st = Some c \<longrightarrow> \<not> conn_busy c \<and> (\<exists>k. conn_context c = Some k \<and> living ops k))"
proof -
  have "so_inv ops sd op" using so.run_inv [of "connect_state_op sd" sd ops op] assms(2,3) by (simp add: so_reachable_def)
  then show ?thesis using session_sender_follows [OF assms(1)] assms(4) by (auto simp: so_inv_def handed_out_def usable_def)
qed

theorem session_follows_rfc_witness:
  "\<exists>st. session_sender (Not_authenticated sample_connection) (Na (Na_login joe)) = Some login_sender \<and>
    completions (so_log (so_after (round_trip (''a0001 OK done'' @ CRLF)) login_sender)) =
      [Set_value No_error None st] \<and>
    rfc_next In_not_authenticated (Login ''joe'' ''pw'' False) True = Some (kind_of st) \<and> kind_of st = In_authenticated"
proof -
  let ?op = "so_after (round_trip (''a0001 OK done'' @ CRLF)) login_sender"
  have r: "so_reachable list_buffer login_sender ?op" by (rule so_after_reachable) code_simp
  have s: "session_sender (Not_authenticated sample_connection) (Na (Na_login joe)) = Some login_sender"
    by (simp add: login_sender_def)
  have "case completions (so_log ?op) of [Set_value No_error None st] \<Rightarrow> True | _ \<Rightarrow> False" by code_simp
  then obtain st where c: "completions (so_log ?op) = [Set_value No_error None st]"
    by (auto split: list.splits completion.splits error_code.splits option.splits)
  have "rfc_next In_not_authenticated (Login ''joe'' ''pw'' False) True = Some (kind_of st)"
    using session_follows_rfc [OF s sample_live r, of No_error None st] c by (simp add: login_sender_def mk_sender_def joe_def)
  then show ?thesis using s c by (auto simp: rfc_next_def)
qed

text \<open>
  C18. A completed operation leaves nothing behind that could call into it: in every state that a
  value completion hands out, the cell of the operation has had its terminal event, so it is neither
  in the queue nor among the posted stop completions, and the layer below cannot invoke the handler
  that captured the operation state again.
\<close>

theorem completed_op_leaves_no_cell:
  assumes "owns_live_context ops sd" "so_reachable ops sd op" "so_cell op = Some i"
    and "Set_value ec out st \<in> set (completions (so_log op))"
    and "session_connection st = Some c" "conn_context c = Some k"
  shows "count_list (terminals (trace k)) i = 1 \<and>
    i \<notin> op_id ` set (write_queue k) \<and> i \<notin> op_id ` set (posted_stops k)"
proof -
  have "so_inv ops sd op" using so.run_inv [of "connect_state_op sd" sd ops op] assms(1,2) by (simp add: so_reachable_def)
  then have "handed_out ops (Some i) st" using assms(3,4) by (auto simp: so_inv_def)
  then have t: "living ops k" "i \<in> set (terminals (trace k))"
    using assms(5,6) by (simp_all add: handed_out_def usable_def)
  then show ?thesis using settled_cell living_inv by blast
qed

lemma not_Cons: "(\<forall>x ys. xs \<noteq> x # ys) \<longleftrightarrow> xs = []"
  by (cases xs) auto

theorem completed_op_leaves_no_cell_witness:
  "\<exists>c k. completions (so_log (so_after (round_trip (''a0001 OK done'' @ CRLF)) login_sender)) =
      [Set_value No_error None (Authenticated c)] \<and> conn_context c = Some k \<and>
    count_list (terminals (trace k)) 0 = 1 \<and> 0 \<notin> op_id ` set (write_queue k)"
proof -
  let ?op = "so_after (round_trip (''a0001 OK done'' @ CRLF)) login_sender"
  have r: "so_reachable list_buffer login_sender ?op" by (rule so_after_reachable) code_simp
  have i: "so_cell ?op = Some 0" by code_simp
  have "case completions (so_log ?op) of [Set_value No_error None (Authenticated c)] \<Rightarrow> conn_context c \<noteq> None | _ \<Rightarrow> False"
    by code_simp
  then obtain c k where c: "completions (so_log ?op) = [Set_value No_error None (Authenticated c)]" "conn_context c = Some k"
    by (auto simp: not_Cons split: list.splits completion.splits error_code.splits option.splits session.splits)
  show ?thesis using completed_op_leaves_no_cell [OF sample_live r i, of No_error None "Authenticated c" c k] c by simp
qed

text \<open>
  The extension gate: an operation that needs a capability the server has not advertised
  completes at once with \<open>capability_required\<close>, the default result and the same kind of state, and
  its context is the one it had but for the handler table: nothing is submitted, no tag is used and
  no event is emitted.
\<close>

theorem capability_gate:
  assumes "session_sender (Selected c m h) (Se call) = Some sd" "sd_required sd \<noteq> []"
    and "\<not> cap_contains (conn_capabilities c) (sd_required sd)"
    and "conn_context c = Some k" "\<not> conn_busy c"
  shows "\<exists>c' u h'. so_start oom f False (connect_state_op sd) =
      Inr ((connect_state_op sd)\<lparr>so_started := True,
             so_connection := c\<lparr>conn_context := None, conn_capabilities := []\<rparr>,
             so_log := [Completed (Set_value (Errc Capability_required) None (Selected c' m h'))]\<rparr>) \<and>
    conn_context c' = Some (k\<lparr>unsolicited := u\<rparr>)"
proof -
  have sd: "sd_connection sd = c" "sd_successor sd = Rebuild_selected m h"
    using assms(1,2) by (cases call; auto simp: sender_defs)+
  obtain h' t where t: "table_add (unsolicited k) = (h', t)" by fastforce
  have b: "c\<lparr>conn_busy := False\<rparr> = c" using assms(5) by (cases c) simp
  show ?thesis
    using assms(2-5) sd t
    by (simp add: so_start_def try_start_operation_def connect_state_op_def so_complete_with_def
        move_connection_def finish_operation_def selected_state_def with_context_def listen_to_def
        on_unsolicited_def drop_registration_def reset_registration_def so_observe_def b)
      (cases c, simp, rule exI, rule refl)
qed

definition selected_sample :: "octets sender" where
  "selected_sample = selected_op (Se_move ''1'' ''Trash'') sample_connection default_mailbox_info 7"

theorem capability_gate_witness:
  "\<exists>op c' h'. so_start False calm False (connect_state_op selected_sample) = Inr op \<and>
    so_log op = [Completed (Set_value (Errc Capability_required) None (Selected c' default_mailbox_info h'))]"
proof -
  have c: "conn_context sample_connection = Some (arm_read calm (new_core []))" "\<not> conn_busy sample_connection"
    by (simp_all add: sample_connection_def new_connection_def)
  have s: "session_sender (Selected sample_connection default_mailbox_info 7) (Se (Se_move ''1'' ''Trash'')) =
    Some selected_sample" by (simp add: selected_sample_def)
  have r: "sd_required selected_sample \<noteq> []"
    "\<not> cap_contains (conn_capabilities sample_connection) (sd_required selected_sample)" by code_simp+
  show ?thesis using capability_gate [OF s r c, of False calm] by fastforce
qed

lemma closed_submit:
  assumes "phase k \<noteq> Phase_open"
  shows "\<exists>k' ec. submit_to f Noop k = Inr ((fst (allocate_tag k), next_id k), k') \<and>
    trace k' = trace k @ [Value_delivered (next_id k) ec No_result]"
proof -
  have "\<exists>cmd. render (tag_text (tag_counter k)) (new_command Noop) = Some cmd \<and> cmd_args cmd = Noop"
    by (simp add: render_def new_command_def)
  then obtain cmd where r: "render (tag_text (tag_counter k)) (new_command Noop) = Some cmd" "cmd_args cmd = Noop" by blast
  let ?ec = "if bye_received k then Errc Server_bye else Operation_canceled"
  show ?thesis
    using assms r
    by (auto simp: submit_to_def submit_def make_cell_def allocate_tag_def op_attach_def new_cell_def
        enqueue_operation_def fail_cells_def op_fail_def deliver_value_def)
qed

text \<open>
  Starting an operation on a connection that is closed or draining completes the receiver
  inside \<open>submit\<close>, before \<open>start\<close> has stored the tag and registered the stop callback: \<open>start\<close> goes on
  to write these members of an operation state that the consumer may have destroyed, and leaves a
  stop callback behind that points to it.
\<close>

theorem closed_start_late_access:
  assumes "conn_context c = Some k" "phase k \<noteq> Phase_open" "\<not> conn_busy c"
  shows "\<exists>op ec c'. so_start oom f False (connect_state_op (not_authenticated_op Na_noop c)) = Inr op \<and>
    so_log op = [Completed (Set_value ec None (Not_authenticated c')), Late_access] \<and>
    so_completed op \<and> so_stop_callback op"
proof -
  obtain k' ec where k: "submit_to f Noop k = Inr ((fst (allocate_tag k), next_id k), k')"
    "trace k' = trace k @ [Value_delivered (next_id k) ec No_result]" using closed_submit [OF assms(2)] by blast
  show ?thesis
    using assms k
    by (simp add: so_start_def connect_state_op_def mk_sender_def try_start_operation_def with_context_def
        so_on_result_def so_complete_with_def move_connection_def finish_operation_def so_observe_def)
qed

definition closed_connection :: "octets connection" where
  "closed_connection = conn_close sample_connection"

theorem closed_start_late_access_witness:
  "\<exists>op ec c'. so_start False calm False (connect_state_op (not_authenticated_op Na_noop closed_connection)) = Inr op \<and>
    so_log op = [Completed (Set_value ec None (Not_authenticated c')), Late_access]"
proof -
  obtain k where k: "conn_context closed_connection = Some k"
    by (simp add: closed_connection_def conn_close_def sample_connection_def new_connection_def)
  have "case conn_context closed_connection of Some k \<Rightarrow> phase k \<noteq> Phase_open | None \<Rightarrow> False"
    "\<not> conn_busy closed_connection" by code_simp+
  then show ?thesis using closed_start_late_access [OF k, of False calm] k by auto
qed

end
