(* ===== verification/Idle_Op.thy ===== *)
theory Idle_Op
  imports State_Op
begin

text \<open>
  The IDLE cycle (\<open>idle_op_operation\<close> of \<open>imap/state/detail/state_op_sender.h\<close>): one IDLE command
  that ends with a push of the server, the heartbeat, a stop request or the tagged reply.

  The handlers run right after the engine action that invoked them, as in theory \<open>State_Op\<close>. The
  heartbeat timer is a flag; its completion is the action \<open>Io_timer\<close>. After the claim every handler
  returns before it touches anything, so the events of the \<open>cancel\<close> call need no handler.
\<close>

section \<open>The operation state\<close>

record 'b idle_op =
  io_connection :: "'b connection"
  io_snapshot :: mailbox_info
  io_tag :: octets
  io_cell :: "nat option"
  io_handler :: "nat option"
  io_timer :: bool
  io_stop_callback :: bool
  io_completed :: bool
  io_posted :: bool
  io_started :: bool
  io_log :: "'b observation list"

text \<open>\<open>selected_state::idle\<close> retires the hook of the state and hands the snapshot over.\<close>

definition connect_idle_op :: "'b connection \<Rightarrow> mailbox_info \<Rightarrow> nat \<Rightarrow> 'b idle_op" where
  "connect_idle_op c m h =
     \<lparr>io_connection = c\<lparr>conn_context := map_option (reset_registration h) (conn_context c)\<rparr>,
      io_snapshot = m, io_tag = [], io_cell = None, io_handler = None, io_timer = False,
      io_stop_callback = False, io_completed = False, io_posted = False, io_started = False, io_log = []\<rparr>"

definition io_observe :: "'b observation list \<Rightarrow> 'b idle_op \<Rightarrow> 'b idle_op" where
  "io_observe obs op = op\<lparr>io_log := io_log op @ obs\<rparr>"

definition io_complete_with :: "error_code \<Rightarrow> 'b idle_op \<Rightarrow> fault + 'b idle_op" where
  "io_complete_with ec op =
     proceed (move_connection (io_connection op)) (\<lambda>(moved, left).
       proceed (selected_state moved (io_snapshot op)) (\<lambda>st.
         Inr (io_observe [Completed (Set_value ec None st)] (op\<lparr>io_connection := left\<rparr>))))"

text \<open>The registration stays: it is retired when the operation state dies.\<close>

definition io_cleanup :: "'b idle_op \<Rightarrow> 'b idle_op" where
  "io_cleanup op =
     op\<lparr>io_stop_callback := False, io_timer := False, io_connection := finish_operation (io_connection op)\<rparr>"

definition io_wake :: "fates \<Rightarrow> 'b idle_op \<Rightarrow> fault + 'b idle_op" where
  "io_wake f op =
     (if io_completed op then Inr op
      else
        proceed (with_context (cancel_to f (io_tag op)) (io_connection op)) (\<lambda>(_, evs, c).
          io_complete_with No_error (io_cleanup (op\<lparr>io_completed := True, io_connection := c\<rparr>))))"

definition io_on_tagged :: "error_code \<Rightarrow> 'b idle_op \<Rightarrow> fault + 'b idle_op" where
  "io_on_tagged ec op =
     (if io_completed op then Inr op else io_complete_with ec (io_cleanup (op\<lparr>io_completed := True\<rparr>)))"

definition io_on_unsolicited :: "fates \<Rightarrow> unsolicited_event \<Rightarrow> 'b idle_op \<Rightarrow> fault + 'b idle_op" where
  "io_on_unsolicited f ev op =
     (if io_completed op then Inr op
      else
        (let op1 = op\<lparr>io_snapshot := snapshot_event ev (io_snapshot op)\<rparr>
         in case ev of Exists_event n \<Rightarrow> io_wake f op1 | Expunge_event n \<Rightarrow> io_wake f op1 | _ \<Rightarrow> Inr op1))"

fun io_event :: "fates \<Rightarrow> event \<Rightarrow> 'b idle_op \<Rightarrow> fault + 'b idle_op" where
  "io_event f (Value_delivered i ec res) op = (if io_cell op = Some i then io_on_tagged ec op else Inr op)"
| "io_event f (Notified h ev) op = (if io_handler op = Some h then io_on_unsolicited f ev op else Inr op)"
| "io_event f _ op = Inr op"

fun io_events :: "fates \<Rightarrow> event list \<Rightarrow> 'b idle_op \<Rightarrow> fault + 'b idle_op" where
  "io_events f [] op = Inr op"
| "io_events f (e # es) op = proceed (io_event f e op) (io_events f es)"

text \<open>The listener is registered first, then the command is submitted.\<close>

definition idle_submit :: "fates \<Rightarrow> 'b core \<Rightarrow> fault + (nat \<times> octets \<times> nat) \<times> 'b core" where
  "idle_submit f k =
     proceed (listen_to k) (\<lambda>(h, k1).
       proceed (submit_to f Idle k1) (\<lambda>((tag, i), k2). Inr ((h, tag, i), k2)))"

definition io_start :: "fates \<Rightarrow> bool \<Rightarrow> 'b idle_op \<Rightarrow> fault + 'b idle_op" where
  "io_start f stop_requested op0 =
     (let (acquired, c) = try_start_operation (io_connection op0);
          op = op0\<lparr>io_connection := c, io_started := True\<rparr>
      in if \<not> acquired then Inl Assertion_failed
         else if stop_requested then
           Inr (io_observe [Completed Set_stopped] (op\<lparr>io_connection := finish_operation c\<rparr>))
         else if \<not> cap_contains (conn_capabilities c) ''IDLE'' then
           io_complete_with (Errc Capability_required) (op\<lparr>io_connection := finish_operation c\<rparr>)
         else
           proceed (with_context (idle_submit f) c) (\<lambda>((h, tag, i), evs, c1).
             proceed (io_events f evs (op\<lparr>io_connection := c1, io_cell := Some i, io_handler := Some h\<rparr>)) (\<lambda>op1.
               if io_completed op1 then
                 Inr (io_observe [Late_access]
                        (op1\<lparr>io_tag := tag, io_timer := True, io_stop_callback := True\<rparr>))
               else
                 proceed (with_context (flush_to f) (io_connection op1)) (\<lambda>(_, evs', c2).
                   proceed (io_events f evs' (op1\<lparr>io_tag := tag, io_connection := c2\<rparr>)) (\<lambda>op2.
                     Inr (io_observe (if io_completed op2 then [Late_access] else [])
                            (op2\<lparr>io_timer := True, io_stop_callback := True\<rparr>)))))))"

definition io_stop :: "bool \<Rightarrow> fates \<Rightarrow> 'b idle_op \<Rightarrow> fault + 'b idle_op" where
  "io_stop oom f op =
     (if io_completed op then Inr op
      else
        proceed (with_context (cancel_to f (io_tag op)) (io_connection op)) (\<lambda>(_, evs, c).
          (let op1 = io_cleanup (op\<lparr>io_completed := True, io_connection := c\<rparr>)
           in Inr (if oom then io_observe [Completed Set_stopped] op1 else op1\<lparr>io_posted := True\<rparr>))))"

definition io_run_posted :: "'b idle_op \<Rightarrow> 'b idle_op" where
  "io_run_posted op = io_observe [Completed Set_stopped] (op\<lparr>io_posted := False\<rparr>)"

definition io_context :: "'b buffer_ops \<Rightarrow> fates \<Rightarrow> action \<Rightarrow> 'b idle_op \<Rightarrow> fault + 'b idle_op" where
  "io_context ops f a op =
     proceed (with_context (context_step ops a) (io_connection op)) (\<lambda>(_, evs, c).
       io_events f evs (op\<lparr>io_connection := c\<rparr>))"

section \<open>Runs\<close>

datatype idle_action = Io_start fates bool | Io_stop bool fates | Io_posted | Io_timer fates
  | Io_context fates action

fun io_enabled :: "idle_action \<Rightarrow> 'b idle_op \<Rightarrow> bool" where
  "io_enabled (Io_start f stop) op \<longleftrightarrow> \<not> io_started op"
| "io_enabled (Io_stop oom f) op \<longleftrightarrow> io_stop_callback op"
| "io_enabled Io_posted op \<longleftrightarrow> io_posted op"
| "io_enabled (Io_timer f) op \<longleftrightarrow> io_timer op"
| "io_enabled (Io_context f a) op \<longleftrightarrow> context_enabled a (io_connection op)"

fun io_perform :: "'b buffer_ops \<Rightarrow> idle_action \<Rightarrow> 'b idle_op \<Rightarrow> fault + 'b idle_op" where
  "io_perform ops (Io_start f stop) op = io_start f stop op"
| "io_perform ops (Io_stop oom f) op = io_stop oom f op"
| "io_perform ops Io_posted op = Inr (io_run_posted op)"
| "io_perform ops (Io_timer f) op = io_wake f op"
| "io_perform ops (Io_context f a) op = io_context ops f a op"

definition io_step :: "'b buffer_ops \<Rightarrow> 'b idle_op \<Rightarrow> 'b idle_op \<Rightarrow> bool" where
  "io_step ops op op' \<longleftrightarrow> (\<exists>a. io_enabled a op \<and> io_perform ops a op = Inr op')"

fun io_run :: "'b buffer_ops \<Rightarrow> idle_action list \<Rightarrow> 'b idle_op \<Rightarrow> fault + 'b idle_op" where
  "io_run ops [] op = Inr op"
| "io_run ops (a # as) op =
     (if io_enabled a op then proceed (io_perform ops a op) (io_run ops as) else Inl Assertion_failed)"

section \<open>The contract towards the receiver\<close>

definition io_claimed :: "'b idle_op \<Rightarrow> bool" where
  "io_claimed op \<longleftrightarrow> io_completed op \<or> (io_started op \<and> io_cell op = None)"

definition io_inv :: "'b idle_op \<Rightarrow> bool" where
  "io_inv op \<longleftrightarrow>
     (\<not> io_started op \<longrightarrow> io_cell op = None) \<and>
     (io_cell op = None \<longrightarrow> io_handler op = None \<and> \<not> io_completed op \<and> \<not> io_stop_callback op \<and> \<not> io_timer op \<and>
        \<not> io_posted op) \<and>
     length (completions (io_log op)) + of_bool (io_posted op) = (of_bool (io_claimed op) :: nat)"

lemma io_complete_inv:
  assumes "io_complete_with ec op' = Inr op''"
    and "op' = op\<lparr>io_completed := d, io_stop_callback := cb, io_timer := tm, io_connection := c, io_started := True\<rparr>"
    and "io_inv op" "\<not> io_claimed op" "io_claimed op'" "d \<or> cb \<or> tm \<longrightarrow> io_cell op \<noteq> None"
  shows "io_inv op''"
proof -
  obtain st l where o: "op'' = io_observe [Completed (Set_value ec None st)] (op'\<lparr>io_connection := l\<rparr>)"
    using assms(1) by (auto simp: io_complete_with_def elim!: proceed_InrE)
  have "completions (io_log op) = []" "\<not> io_posted op" using assms(3,4) by (auto simp: io_inv_def)
  then show ?thesis using assms(3-6) unfolding o assms(2) by (auto simp: io_observe_def io_inv_def io_claimed_def)
qed

lemma io_started: "io_inv op \<Longrightarrow> io_cell op \<noteq> None \<Longrightarrow> op\<lparr>io_started := True\<rparr> = op"
  by (auto simp: io_inv_def)

lemma io_claim_inv:
  assumes i: "io_inv op" "io_cell op \<noteq> None" "\<not> io_completed op"
    and e: "io_complete_with ec (io_cleanup (op\<lparr>io_completed := True, io_connection := c\<rparr>)) = Inr op'"
  shows "io_inv op'"
proof -
  have "io_cleanup (op\<lparr>io_completed := True, io_connection := c\<rparr>) = op\<lparr>io_completed := True,
    io_stop_callback := False, io_timer := False, io_connection := finish_operation c, io_started := True\<rparr>"
    using i by (simp add: io_cleanup_def io_inv_def)
  from io_complete_inv [OF e this i(1)] show ?thesis using i by (simp add: io_claimed_def io_cleanup_def)
qed

lemma io_wake_inv: "io_inv op \<Longrightarrow> io_cell op \<noteq> None \<Longrightarrow> io_wake f op = Inr op' \<Longrightarrow> io_inv op'"
  using io_claim_inv [of op] by (auto simp: io_wake_def proceed_Inr split: if_splits)

lemma io_on_tagged_inv: "io_inv op \<Longrightarrow> io_cell op \<noteq> None \<Longrightarrow> io_on_tagged ec op = Inr op' \<Longrightarrow> io_inv op'"
  using io_claim_inv [of op ec "io_connection op"] by (auto simp: io_on_tagged_def split: if_splits)

lemma io_snapshot_inv [simp]: "io_inv (op\<lparr>io_snapshot := m\<rparr>) = io_inv op"
  by (simp add: io_inv_def io_claimed_def)

lemma io_event_inv: "io_inv op \<Longrightarrow> io_event f e op = Inr op' \<Longrightarrow> io_inv op'"
proof (cases e)
  case (Notified h ev)
  assume i: "io_inv op" and e: "io_event f e op = Inr op'"
  show ?thesis
  proof (cases "io_handler op = Some h \<and> \<not> io_completed op")
    case True
    then have "io_cell op \<noteq> None" using i by (auto simp: io_inv_def)
    then show ?thesis using True i e Notified io_wake_inv [of "op\<lparr>io_snapshot := snapshot_event ev (io_snapshot op)\<rparr>" f op']
      by (cases ev) (auto simp: io_on_unsolicited_def Let_def)
  qed (use i e Notified in \<open>auto simp: io_on_unsolicited_def split: if_splits\<close>)
qed (auto intro: io_on_tagged_inv split: if_splits)

lemma io_events_inv: "io_inv op \<Longrightarrow> io_events f es op = Inr op' \<Longrightarrow> io_inv op'"
  by (induction es arbitrary: op) (auto simp: proceed_Inr intro: io_event_inv)

lemma io_frame_inv [simp]:
  "io_inv (op\<lparr>io_connection := c\<rparr>) = io_inv op" "io_inv (op\<lparr>io_tag := t\<rparr>) = io_inv op"
  "io_inv (io_observe [Late_access] op) = io_inv op" "io_inv (io_observe [] op) = io_inv op"
  by (simp_all add: io_inv_def io_claimed_def io_observe_def)

lemma io_complete_cell: "io_complete_with ec op = Inr op' \<Longrightarrow> io_cell op' = io_cell op"
  by (auto simp: io_complete_with_def io_observe_def elim!: proceed_InrE)

lemma io_wake_cell: "io_wake f op = Inr op' \<Longrightarrow> io_cell op' = io_cell op"
  by (auto simp: io_wake_def io_cleanup_def elim!: proceed_InrE dest!: io_complete_cell split: if_splits)

lemma io_event_cell: "io_event f e op = Inr op' \<Longrightarrow> io_cell op' = io_cell op"
  by (cases e) (auto simp: io_on_tagged_def io_on_unsolicited_def io_cleanup_def Let_def
      dest!: io_complete_cell io_wake_cell split: if_splits unsolicited_event.splits)

lemma io_events_cell: "io_events f es op = Inr op' \<Longrightarrow> io_cell op' = io_cell op"
  by (induction es arbitrary: op) (auto elim!: proceed_InrE dest!: io_event_cell)

lemma io_armed_inv:
  "io_inv op \<Longrightarrow> io_cell op \<noteq> None \<Longrightarrow> io_inv (op\<lparr>io_timer := tm, io_stop_callback := cb\<rparr>)"
  by (auto simp: io_inv_def io_claimed_def)

lemma io_start_inv:
  assumes i: "io_inv op" "\<not> io_started op" and e: "io_start f stop op = Inr op'"
  shows "io_inv op'"
proof -
  let ?c = "(io_connection op)\<lparr>conn_busy := True\<rparr>"
  have fresh: "completions (io_log op) = []" "\<not> io_posted op" "io_cell op = None" "\<not> io_completed op"
    "\<not> io_stop_callback op" "\<not> io_timer op" "io_handler op = None" using i by (auto simp: io_inv_def io_claimed_def)
  have busy: "\<not> conn_busy (io_connection op)" using e by (auto simp: io_start_def try_start_operation_def Let_def)
  consider (stop) stop | (gate) "\<not> stop" "\<not> cap_contains (conn_capabilities ?c) ''IDLE''"
    | (go) "\<not> stop" "cap_contains (conn_capabilities ?c) ''IDLE''" by blast
  then show ?thesis
  proof cases
    case stop
    then have "op' = io_observe [Completed Set_stopped] (op\<lparr>io_started := True, io_connection := finish_operation ?c\<rparr>)"
      using e busy by (simp add: io_start_def try_start_operation_def)
    then show ?thesis using i fresh by (simp add: io_inv_def io_observe_def io_claimed_def)
  next
    case gate
    let ?op1 = "op\<lparr>io_completed := False, io_stop_callback := False, io_timer := False,
      io_connection := finish_operation ?c, io_started := True\<rparr>"
    have "op\<lparr>io_started := True, io_connection := finish_operation ?c\<rparr> = ?op1" using fresh by simp
    then have "io_complete_with (Errc Capability_required) ?op1 = Inr op'"
      using e gate busy by (simp add: io_start_def try_start_operation_def)
    from io_complete_inv [OF this refl i(1)] show ?thesis using i fresh by (simp add: io_claimed_def)
  next
    case go
    obtain h tag n evs c1 op1 where 1: "with_context (idle_submit f) ?c = Inr ((h, tag, n), evs, c1)"
      "io_events f evs (op\<lparr>io_started := True, io_connection := c1, io_cell := Some n, io_handler := Some h\<rparr>) = Inr op1"
      "(if io_completed op1 then
          Inr (io_observe [Late_access] (op1\<lparr>io_tag := tag, io_timer := True, io_stop_callback := True\<rparr>))
        else proceed (with_context (flush_to f) (io_connection op1)) (\<lambda>(_, evs', c2).
          proceed (io_events f evs' (op1\<lparr>io_tag := tag, io_connection := c2\<rparr>)) (\<lambda>op2.
            Inr (io_observe (if io_completed op2 then [Late_access] else [])
              (op2\<lparr>io_timer := True, io_stop_callback := True\<rparr>))))) = Inr op'"
      using e go busy by (fastforce simp: io_start_def try_start_operation_def elim!: proceed_InrE)
    have "io_inv (op\<lparr>io_started := True, io_connection := c1, io_cell := Some n, io_handler := Some h\<rparr>)"
      using i fresh by (simp add: io_inv_def io_claimed_def)
    from io_events_inv [OF this 1(2)] io_events_cell [OF 1(2)] have o: "io_inv op1" "io_cell op1 = Some n" by simp_all
    show ?thesis
    proof (cases "io_completed op1")
      case True
      then show ?thesis using 1(3) o io_armed_inv [of "op1\<lparr>io_tag := tag\<rparr>" True True] by auto
    next
      case False
      obtain evs' c2 op2 where 2: "io_events f evs' (op1\<lparr>io_tag := tag, io_connection := c2\<rparr>) = Inr op2"
        "op' = io_observe (if io_completed op2 then [Late_access] else []) (op2\<lparr>io_timer := True, io_stop_callback := True\<rparr>)"
        using 1(3) False by (fastforce elim!: proceed_InrE)
      have "io_inv op2" "io_cell op2 = Some n" using io_events_inv [OF _ 2(1)] io_events_cell [OF 2(1)] o by simp_all
      then show ?thesis using 2(2) io_armed_inv [of op2 True True] by auto
    qed
  qed
qed

lemma io_stop_inv:
  assumes i: "io_inv op" "io_cell op \<noteq> None" and e: "io_stop oom f op = Inr op'"
  shows "io_inv op'"
proof (cases "io_completed op")
  case False
  obtain c where o: "op' = (let op1 = io_cleanup (op\<lparr>io_completed := True, io_connection := c\<rparr>)
      in if oom then io_observe [Completed Set_stopped] op1 else op1\<lparr>io_posted := True\<rparr>)"
    using e False by (auto simp: io_stop_def Let_def elim!: proceed_InrE)
  have "completions (io_log op) = []" "\<not> io_posted op" using i False by (auto simp: io_inv_def io_claimed_def)
  then show ?thesis using i unfolding o by (auto simp: Let_def io_cleanup_def io_observe_def io_inv_def io_claimed_def)
qed (use e i in \<open>simp add: io_stop_def\<close>)

lemma io_step_inv: "io_inv op \<Longrightarrow> io_step ops op op' \<Longrightarrow> io_inv op'"
proof -
  assume i: "io_inv op" and "io_step ops op op'"
  then obtain a where e: "io_enabled a op" "io_perform ops a op = Inr op'" by (auto simp: io_step_def)
  show ?thesis
  proof (cases a)
    case (Io_context f b)
    then show ?thesis using e i io_events_inv [of "op\<lparr>io_connection := c\<rparr>" f _ op' for c]
      by (auto simp: io_context_def elim!: proceed_InrE)
  next
    case Io_posted
    then have p: "io_posted op" "op' = io_run_posted op" using e by simp_all
    then have "completions (io_log op) = []" "io_claimed op"
      using i by (cases "io_claimed op"; auto simp: io_inv_def)+
    then show ?thesis using i p by (auto simp: io_run_posted_def io_inv_def io_claimed_def io_observe_def)
  next
    case (Io_start f stop)
    then show ?thesis using io_start_inv [OF i] e by simp
  next
    case (Io_stop oom f)
    then show ?thesis using io_stop_inv [OF i] e i by (auto simp: io_inv_def)
  next
    case (Io_timer f)
    then show ?thesis using io_wake_inv [OF i] e i by (auto simp: io_inv_def)
  qed
qed

interpretation idle: receiver_contract "\<lambda>op. op = connect_idle_op c m h" "io_step ops" io_inv io_log io_posted io_claimed
proof
  show "io_inv op" if "op = connect_idle_op c m h" for op
    using that by (simp add: io_inv_def connect_idle_op_def io_claimed_def)
  show "length (completions (io_log op)) + of_bool (io_posted op) = (of_bool (io_claimed op) :: nat)"
    if "io_inv op" for op :: "'a idle_op" using that by (simp add: io_inv_def)
qed (rule io_step_inv)

section \<open>What a cycle hands out\<close>

text \<open>Every value completion of the cycle is a Selected state whose connection can go on.\<close>

definition reselected :: "'b buffer_ops \<Rightarrow> 'b completion \<Rightarrow> bool" where
  "reselected ops x \<longleftrightarrow>
     (\<forall>ec out st. x = Set_value ec out st \<longrightarrow> (\<exists>c m h. st = Selected c m h \<and> usable ops c))"

definition io_sound :: "'b buffer_ops \<Rightarrow> 'b idle_op \<Rightarrow> bool" where
  "io_sound ops op \<longleftrightarrow> io_inv op \<and>
     (\<forall>k. conn_context (io_connection op) = Some k \<longrightarrow> living ops k) \<and>
     (\<not> io_claimed op \<longrightarrow> conn_context (io_connection op) \<noteq> None) \<and>
     list_all (reselected ops) (completions (io_log op))"

lemma reselected_stopped [simp]: "reselected ops Set_stopped"
  by (simp add: reselected_def)

lemma io_complete_reselected:
  assumes "io_complete_with ec op = Inr op'" "conn_context (io_connection op) = Some k" "living ops k"
    and "list_all (reselected ops) (completions (io_log op))"
  shows "list_all (reselected ops) (completions (io_log op')) \<and> conn_context (io_connection op') = None \<and>
    io_claimed op' = io_claimed op"
proof -
  let ?c = "io_connection op"
  obtain st where st: "selected_state ?c (io_snapshot op) = Inr st" "\<not> conn_busy ?c"
    "op' = io_observe [Completed (Set_value ec None st)] (op\<lparr>io_connection := ?c\<lparr>conn_context := None, conn_capabilities := []\<rparr>\<rparr>)"
    using assms(1) by (auto simp: io_complete_with_def move_connection_def elim!: proceed_InrE split: if_splits)
  obtain c' h where c': "st = Selected c' (io_snapshot op) h" "relistened ops ?c c'"
    using selected_relistened [OF st(1)] by blast
  have "usable ops c'" by (rule relistened_usable [OF c'(2)]) (use assms st(2) in \<open>simp add: usable_def\<close>)
  then have "reselected ops (Set_value ec None st)" using c'(1) by (simp add: reselected_def)
  then show ?thesis using assms(4) unfolding st(3) by (simp add: io_observe_def io_claimed_def)
qed

lemma io_claim_sound:
  assumes "io_sound ops op" "\<not> io_completed op"
    and "io_complete_with ec (io_cleanup (op\<lparr>io_completed := True, io_connection := c\<rparr>)) = Inr op'"
    and "conn_context c = Some k" "living ops k" "io_inv op'"
  shows "io_sound ops op'"
proof -
  have "list_all (reselected ops) (completions (io_log op')) \<and> conn_context (io_connection op') = None \<and> io_claimed op'"
    using io_complete_reselected [OF assms(3), of k ops] assms
    by (simp add: io_cleanup_def finish_operation_def io_sound_def io_claimed_def)
  then show ?thesis using assms(6) by (simp add: io_sound_def)
qed

lemma io_sound_context:
  assumes "io_sound ops op" "io_cell op \<noteq> None" "\<not> io_completed op"
  obtains k where "conn_context (io_connection op) = Some k" "living ops k"
  using assms by (auto simp: io_sound_def io_claimed_def)

lemma io_wake_sound:
  assumes s: "io_sound ops op" "io_cell op \<noteq> None" and e: "io_wake f op = Inr op'"
  shows "io_sound ops op'"
proof (cases "io_completed op")
  case False
  have i: "io_inv op'" using io_wake_inv [OF _ s(2) e] s(1) by (simp add: io_sound_def)
  obtain evs c where w: "with_context (cancel_to f (io_tag op)) (io_connection op) = Inr ((), evs, c)"
    "io_complete_with No_error (io_cleanup (op\<lparr>io_completed := True, io_connection := c\<rparr>)) = Inr op'"
    using e False by (fastforce simp: io_wake_def elim!: proceed_InrE)
  obtain k k' where k: "conn_context (io_connection op) = Some k" "cancel_to f (io_tag op) k = Inr ((), k')"
    "c = (io_connection op)\<lparr>conn_context := Some k'\<rparr>" using w(1) by (rule with_contextE)
  have "living ops k'" using cancel_to_inv [OF _ k(2)] s(1) k(1) by (simp add: io_sound_def)
  from io_claim_sound [OF s(1) False w(2) _ this i] show ?thesis using k(3) by simp
qed (use s e in \<open>simp add: io_wake_def\<close>)

lemma io_on_tagged_sound:
  assumes s: "io_sound ops op" "io_cell op \<noteq> None" and e: "io_on_tagged ec op = Inr op'"
  shows "io_sound ops op'"
proof (cases "io_completed op")
  case False
  have i: "io_inv op'" using io_on_tagged_inv [OF _ s(2) e] s(1) by (simp add: io_sound_def)
  obtain k where k: "conn_context (io_connection op) = Some k" "living ops k"
    using io_sound_context [OF s False] .
  have "io_complete_with ec (io_cleanup (op\<lparr>io_completed := True, io_connection := io_connection op\<rparr>)) = Inr op'"
    using e False by (simp add: io_on_tagged_def)
  from io_claim_sound [OF s(1) False this k i] show ?thesis .
qed (use s e in \<open>simp add: io_on_tagged_def\<close>)

lemma io_sound_frame [simp]:
  "io_sound ops (op\<lparr>io_snapshot := m\<rparr>) = io_sound ops op" "io_sound ops (op\<lparr>io_tag := t\<rparr>) = io_sound ops op"
  "io_sound ops (io_observe [Late_access] op) = io_sound ops op" "io_sound ops (io_observe [] op) = io_sound ops op"
  by (simp_all add: io_sound_def) (simp_all add: io_claimed_def io_observe_def)

lemma io_event_sound: "io_sound ops op \<Longrightarrow> io_event f e op = Inr op' \<Longrightarrow> io_sound ops op'"
proof (cases e)
  case (Notified h ev)
  assume s: "io_sound ops op" and e: "io_event f e op = Inr op'"
  let ?op = "op\<lparr>io_snapshot := snapshot_event ev (io_snapshot op)\<rparr>"
  show ?thesis
  proof (cases "io_handler op = Some h \<and> \<not> io_completed op")
    case True
    then have "io_cell op \<noteq> None" using s by (auto simp: io_sound_def io_inv_def)
    then show ?thesis using True s e Notified io_wake_sound [of ops ?op f op']
      by (cases ev) (auto simp: io_on_unsolicited_def Let_def)
  qed (use s e Notified in \<open>auto simp: io_on_unsolicited_def split: if_splits\<close>)
qed (auto intro: io_on_tagged_sound split: if_splits)

lemma io_events_sound: "io_sound ops op \<Longrightarrow> io_events f es op = Inr op' \<Longrightarrow> io_sound ops op'"
  by (induction es arbitrary: op) (auto simp: proceed_Inr intro: io_event_sound)

text \<open>A call on the context and the handlers of its events.\<close>

lemma io_call_sound:
  assumes s: "io_sound ops op" and w: "with_context g (io_connection op) = Inr (x, evs, c)"
    and g: "\<And>k k'. conn_context (io_connection op) = Some k \<Longrightarrow> living ops k \<Longrightarrow> g k = Inr (x, k') \<Longrightarrow> living ops k'"
    and e: "io_events f evs (op\<lparr>io_connection := c\<rparr>) = Inr op'"
  shows "io_sound ops op'"
proof -
  obtain k k' where k: "conn_context (io_connection op) = Some k" "g k = Inr (x, k')"
    "c = (io_connection op)\<lparr>conn_context := Some k'\<rparr>" using w by (rule with_contextE)
  have "living ops k'" using g k s by (auto simp: io_sound_def)
  then have "io_sound ops (op\<lparr>io_connection := c\<rparr>)" using s k(3) by (simp add: io_sound_def io_claimed_def)
  then show ?thesis using e by (rule io_events_sound)
qed

lemma idle_submit_living:
  assumes "living ops k" "idle_submit f k = Inr (x, k')"
  shows "living ops k'"
proof -
  obtain y where "submit_to f Idle (snd (on_unsolicited k)) = Inr (y, k')"
    using assms(2) by (cases "on_unsolicited k") (auto simp: idle_submit_def listen_to_def elim!: proceed_InrE)
  then show ?thesis using submit_to_inv living_calls(4) [OF assms(1)] by blast
qed

lemma io_start_sound:
  assumes s: "io_sound ops op" "\<not> io_started op" and e: "io_start f stop op = Inr op'"
  shows "io_sound ops op'"
proof -
  let ?c = "(io_connection op)\<lparr>conn_busy := True\<rparr>"
  have i: "io_inv op" "io_inv op'" using s io_start_inv [OF _ s(2) e] by (simp_all add: io_sound_def)
  have fresh: "io_cell op = None" "\<not> io_completed op" "\<not> io_claimed op" "\<not> io_posted op" "completions (io_log op) = []"
    using i(1) s(2) by (auto simp: io_inv_def io_claimed_def)
  obtain k where k: "conn_context ?c = Some k" "living ops k" using s(1) fresh by (auto simp: io_sound_def)
  have busy: "\<not> conn_busy (io_connection op)" using e by (auto simp: io_start_def try_start_operation_def Let_def)
  consider (stop) stop | (gate) "\<not> stop" "\<not> cap_contains (conn_capabilities ?c) ''IDLE''"
    | (go) "\<not> stop" "cap_contains (conn_capabilities ?c) ''IDLE''" by blast
  then show ?thesis
  proof cases
    case stop
    then have "op' = io_observe [Completed Set_stopped] (op\<lparr>io_started := True, io_connection := finish_operation ?c\<rparr>)"
      using e busy by (simp add: io_start_def try_start_operation_def)
    then show ?thesis using i(2) k fresh(1,5) by (simp add: io_sound_def io_observe_def finish_operation_def)
  next
    case gate
    then have "io_complete_with (Errc Capability_required) (op\<lparr>io_started := True, io_connection := finish_operation ?c\<rparr>) = Inr op'"
      using e busy by (simp add: io_start_def try_start_operation_def)
    from io_complete_reselected [OF this, of k ops] show ?thesis
      using i(2) k fresh by (auto simp: io_sound_def finish_operation_def io_claimed_def)
  next
    case go
    obtain h tag n evs c1 op1 where 1: "with_context (idle_submit f) ?c = Inr ((h, tag, n), evs, c1)"
      "io_events f evs (op\<lparr>io_started := True, io_connection := c1, io_cell := Some n, io_handler := Some h\<rparr>) = Inr op1"
      "(if io_completed op1 then
          Inr (io_observe [Late_access] (op1\<lparr>io_tag := tag, io_timer := True, io_stop_callback := True\<rparr>))
        else proceed (with_context (flush_to f) (io_connection op1)) (\<lambda>(_, evs', c2).
          proceed (io_events f evs' (op1\<lparr>io_tag := tag, io_connection := c2\<rparr>)) (\<lambda>op2.
            Inr (io_observe (if io_completed op2 then [Late_access] else [])
              (op2\<lparr>io_timer := True, io_stop_callback := True\<rparr>))))) = Inr op'"
      using e go busy by (fastforce simp: io_start_def try_start_operation_def elim!: proceed_InrE)
    let ?op = "op\<lparr>io_started := True, io_connection := ?c, io_cell := Some n, io_handler := Some h\<rparr>"
    have sound: "io_sound ops ?op" using s i(1) fresh k by (simp add: io_sound_def io_inv_def io_claimed_def)
    have eq: "op\<lparr>io_started := True, io_connection := c1, io_cell := Some n, io_handler := Some h\<rparr> =
      ?op\<lparr>io_connection := c1\<rparr>" by simp
    have w: "with_context (idle_submit f) (io_connection ?op) = Inr ((h, tag, n), evs, c1)" using 1(1) by simp
    have o: "io_sound ops op1"
      by (rule io_call_sound [OF sound w idle_submit_living 1(2) [unfolded eq]])
    have c: "io_cell op1 = Some n" using io_events_cell [OF 1(2)] by simp
    have armed: "io_sound ops (op2\<lparr>io_timer := True, io_stop_callback := True\<rparr>)"
      if "io_sound ops op2" "io_cell op2 = Some n" for op2
      using that io_armed_inv [of op2 True True] by (simp add: io_sound_def io_claimed_def)
    show ?thesis
    proof (cases "io_completed op1")
      case True
      then show ?thesis using 1(3) armed [of "op1\<lparr>io_tag := tag\<rparr>"] o c by auto
    next
      case False
      obtain evs' c2 op2 where 2: "with_context (flush_to f) (io_connection op1) = Inr ((), evs', c2)"
        "io_events f evs' (op1\<lparr>io_tag := tag, io_connection := c2\<rparr>) = Inr op2"
        "op' = io_observe (if io_completed op2 then [Late_access] else []) (op2\<lparr>io_timer := True, io_stop_callback := True\<rparr>)"
        using 1(3) False by (fastforce elim!: proceed_InrE)
      have "io_sound ops op2"
        using io_call_sound [of ops "op1\<lparr>io_tag := tag\<rparr>" "flush_to f" "()" evs' c2 f op2] 2(1,2) o flush_to_inv by auto
      then show ?thesis using armed [of op2] 2(3) io_events_cell [OF 2(2)] c by auto
    qed
  qed
qed

lemma io_stop_sound:
  assumes s: "io_sound ops op" "io_cell op \<noteq> None" and e: "io_stop oom f op = Inr op'"
  shows "io_sound ops op'"
proof (cases "io_completed op")
  case False
  have i: "io_inv op'" using io_stop_inv [OF _ s(2) e] s(1) by (simp add: io_sound_def)
  obtain evs c where w: "with_context (cancel_to f (io_tag op)) (io_connection op) = Inr ((), evs, c)"
    "op' = (let op1 = io_cleanup (op\<lparr>io_completed := True, io_connection := c\<rparr>)
      in if oom then io_observe [Completed Set_stopped] op1 else op1\<lparr>io_posted := True\<rparr>)"
    using e False by (fastforce simp: io_stop_def Let_def elim!: proceed_InrE)
  obtain k k' where k: "conn_context (io_connection op) = Some k" "cancel_to f (io_tag op) k = Inr ((), k')"
    "c = (io_connection op)\<lparr>conn_context := Some k'\<rparr>" using w(1) by (rule with_contextE)
  have "living ops k'" using cancel_to_inv [OF _ k(2)] s(1) k(1) by (simp add: io_sound_def)
  then show ?thesis using i s k(3) unfolding w(2)
    by (auto simp: Let_def io_sound_def io_cleanup_def finish_operation_def io_observe_def)
qed (use s e in \<open>simp add: io_stop_def\<close>)

lemma io_step_sound: "io_sound ops op \<Longrightarrow> io_step ops op op' \<Longrightarrow> io_sound ops op'"
proof -
  assume s: "io_sound ops op" and st: "io_step ops op op'"
  have i: "io_inv op" "io_inv op'" using s io_step_inv [OF _ st] by (simp_all add: io_sound_def)
  obtain a where e: "io_enabled a op" "io_perform ops a op = Inr op'" using st by (auto simp: io_step_def)
  show ?thesis
  proof (cases a)
    case (Io_context f b)
    obtain evs c where w: "with_context (context_step ops b) (io_connection op) = Inr ((), evs, c)"
      "io_events f evs (op\<lparr>io_connection := c\<rparr>) = Inr op'"
      using e Io_context by (fastforce simp: io_context_def elim!: proceed_InrE)
    show ?thesis
      by (rule io_call_sound [OF s w(1) _ w(2)])
        (use e Io_context in \<open>auto simp: context_enabled_def intro: context_step_inv\<close>)
  next
    case Io_posted
    then show ?thesis using s i e by (auto simp: io_run_posted_def io_sound_def io_observe_def io_claimed_def)
  next
    case (Io_start f stop)
    then show ?thesis using io_start_sound [OF s] e by simp
  next
    case (Io_stop oom f)
    then show ?thesis using io_stop_sound [OF s] e i(1) by (auto simp: io_inv_def)
  next
    case (Io_timer f)
    then show ?thesis using io_wake_sound [OF s] e i(1) by (auto simp: io_inv_def)
  qed
qed

text \<open>The stronger invariant meets the contract towards the receiver as well.\<close>

interpretation sound: receiver_contract "\<lambda>op. op = connect_idle_op c m h \<and> usable ops c" "io_step ops" "io_sound ops"
  io_log io_posted io_claimed
proof
  show "io_sound ops op" if "op = connect_idle_op c m h \<and> usable ops c" for op
    using that living_calls(5)
    by (auto simp: io_sound_def io_inv_def connect_idle_op_def io_claimed_def usable_def)
  show "length (completions (io_log op)) + of_bool (io_posted op) = (of_bool (io_claimed op) :: nat)"
    if "io_sound ops op" for op :: "'a idle_op" using that by (simp add: io_sound_def io_inv_def)
qed (rule io_step_sound)

section \<open>Properties\<close>

definition idle_ready :: "octets connection" where
  "idle_ready = set_capabilities [''IDLE''] sample_connection"

definition idle_start :: "octets idle_op" where
  "idle_start = connect_idle_op idle_ready default_mailbox_info 7"

text \<open>The server accepts the IDLE and pushes an EXISTS.\<close>

definition idle_push :: "idle_action list" where
  "idle_push =
     [Io_start calm False, Io_context calm (Run_kick No_error), Io_context calm (Arm_write calm),
      Io_context calm (Finish_write calm No_error),
      Io_context calm (Finish_read No_error (''+ idling'' @ CRLF @ ''* 3 EXISTS'' @ CRLF)),
      Io_context calm (Read_round calm), Io_context calm (Read_round calm)]"

text \<open>
  C26. The IDLE cycle completes its receiver at most once, whatever races: a push of the server, the
  heartbeat, the tagged reply, a lost connection and the stop request. Once one of them has claimed
  the cycle, the completion has been delivered or waits as the posted stopped task.
\<close>

theorem idle_completes_once:
  assumes "rtranclp (io_step ops) (connect_idle_op c m h) op"
  shows "length (completions (io_log op)) \<le> 1 \<and>
    (io_completed op \<longrightarrow>
       (io_posted op \<and> completions (io_log op) = []) \<or>
       (\<not> io_posted op \<and> (\<exists>y. completions (io_log op) = [y]))) \<and>
    (io_posted op \<longrightarrow> io_completed op)"
proof -
  have "io_inv op" using idle.run_inv [OF refl assms] .
  then have "io_posted op \<longrightarrow> io_completed op" by (auto simp: io_inv_def io_claimed_def)
  then show ?thesis using idle.once [OF refl assms] by (auto simp: io_claimed_def)
qed

lemma io_run_reachable: "io_run ops as op = Inr op' \<Longrightarrow> rtranclp (io_step ops) op op'"
proof (induction as arbitrary: op)
  case (Cons a as)
  obtain op1 where 1: "io_enabled a op" "io_perform ops a op = Inr op1" "io_run ops as op1 = Inr op'"
    using Cons(2) by (auto elim!: proceed_InrE split: if_splits)
  have "io_step ops op op1" using 1 unfolding io_step_def by blast
  then show ?case using Cons(1) [OF 1(3)] by (rule converse_rtranclp_into_rtranclp)
qed simp

definition idle_woken :: "octets idle_op" where
  "idle_woken = projr (io_run list_buffer idle_push idle_start)"

lemma idle_woken_run: "io_run list_buffer idle_push idle_start = Inr idle_woken"
proof -
  have "\<not> isl (io_run list_buffer idle_push idle_start)" by code_simp
  then show ?thesis by (cases "io_run list_buffer idle_push idle_start") (auto simp: idle_woken_def)
qed

theorem idle_completes_once_witness:
  "rtranclp (io_step list_buffer) (connect_idle_op idle_ready default_mailbox_info 7) idle_woken \<and>
   (\<exists>y. completions (io_log idle_woken) = [y])"
proof -
  have r: "rtranclp (io_step list_buffer) (connect_idle_op idle_ready default_mailbox_info 7) idle_woken"
    using io_run_reachable [OF idle_woken_run] by (simp add: idle_start_def)
  have c: "io_completed idle_woken" "\<not> io_posted idle_woken" by code_simp+
  show ?thesis using idle_completes_once [OF r] r c by blast
qed

text \<open>
  The state the woken cycle handed out, and what the engine does with its context afterwards: the
  read loop ends, and the connection is lost before the server answers the DONE.
\<close>

definition woken_context :: "octets core" where
  "woken_context =
     (case completions (io_log idle_woken) of
        [Set_value ec out (Selected c m h)] \<Rightarrow> the (conn_context c) | _ \<Rightarrow> new_core [])"

text \<open>
  C39. The handler of an IDLE outlives its operation: the cycle that a push wakes completes its
  receiver and moves the connection into the new Selected state, but its command stays queued until
  the server answers the DONE. When the connection is lost before that, the context fails the
  command and invokes the handler, which captured the operation state that the consumer has
  destroyed by then.
\<close>

theorem idle_handler_outlives:
  "\<exists>c h k'. completions (io_log idle_woken) =
      [Set_value No_error None (Selected c (default_mailbox_info\<lparr>mb_exists := 3\<rparr>) h)] \<and>
    conn_context c = Some woken_context \<and> io_cell idle_woken = Some 0 \<and>
    op_id ` set (write_queue woken_context) = {0} \<and>
    run list_buffer [Read_round calm, Finish_read (Transport_error 104) []] woken_context = Some k' \<and>
    Value_delivered 0 (Transport_error 104) No_result \<in> set (trace k')"
proof -
  have "case completions (io_log idle_woken) of
      [Set_value No_error None (Selected c m h)] \<Rightarrow> m = default_mailbox_info\<lparr>mb_exists := 3\<rparr> \<and> conn_context c \<noteq> None
    | _ \<Rightarrow> False" by code_simp
  then obtain c h where c: "completions (io_log idle_woken) =
      [Set_value No_error None (Selected c (default_mailbox_info\<lparr>mb_exists := 3\<rparr>) h)]" "conn_context c \<noteq> None"
    by (auto simp: not_Cons split: list.splits completion.splits error_code.splits option.splits session.splits)
  then have k: "conn_context c = Some woken_context" by (auto simp: woken_context_def)
  have i: "io_cell idle_woken = Some 0" "map op_id (write_queue woken_context) = [0]" by code_simp+
  have "case run list_buffer [Read_round calm, Finish_read (Transport_error 104) []] woken_context of
      Some k' \<Rightarrow> Value_delivered 0 (Transport_error 104) No_result \<in> set (trace k') | None \<Rightarrow> False" by code_simp
  then obtain k' where "run list_buffer [Read_round calm, Finish_read (Transport_error 104) []] woken_context = Some k'"
    "Value_delivered 0 (Transport_error 104) No_result \<in> set (trace k')" by (auto split: option.splits)
  then show ?thesis using c k i by (auto simp flip: set_map)
qed

end
