(* ===== verification/Start_Tls.thy ===== *)
theory Start_Tls
  imports State_Op
begin

text \<open>
  The STARTTLS upgrade (\<open>start_tls_operation\<close> of \<open>imap/state/not_authenticated.h\<close>): the STARTTLS
  command on the plaintext context, the handshake on the detached socket, and a CAPABILITY probe on
  the context that is built over the TLS stream.

  The handshake is the action \<open>Tl_handshake\<close> with the outcome the transport chooses. The TLS context
  starts with an empty read buffer, given as the argument \<open>b\<close>. The plaintext context is gone once
  the TLS context is in place.
\<close>

section \<open>The operation state\<close>

datatype tls_phase = Tls_starttls | Tls_handshake | Tls_capability

record 'b start_tls_op =
  tl_connection :: "'b connection"
  tl_tag :: octets
  tl_cell :: "nat option"
  tl_phase :: tls_phase
  tl_handshake :: bool
  tl_stop_callback :: bool
  tl_latch :: bool
  tl_completed :: bool
  tl_posted :: bool
  tl_started :: bool
  tl_log :: "'b observation list"

definition connect_start_tls :: "'b connection \<Rightarrow> 'b start_tls_op" where
  "connect_start_tls c =
     \<lparr>tl_connection = c, tl_tag = [], tl_cell = None, tl_phase = Tls_starttls, tl_handshake = False,
      tl_stop_callback = False, tl_latch = False, tl_completed = False, tl_posted = False,
      tl_started = False, tl_log = []\<rparr>"

definition tl_observe :: "'b observation list \<Rightarrow> 'b start_tls_op \<Rightarrow> 'b start_tls_op" where
  "tl_observe obs op = op\<lparr>tl_log := tl_log op @ obs\<rparr>"

text \<open>The stopped completion of a latched request, on the dispatch path.\<close>

definition tl_stopped :: "'b start_tls_op \<Rightarrow> 'b start_tls_op" where
  "tl_stopped op =
     tl_observe [Completed Set_stopped]
       (op\<lparr>tl_stop_callback := False, tl_connection := finish_operation (tl_connection op)\<rparr>)"

definition tl_complete :: "error_code \<Rightarrow> 'b start_tls_op \<Rightarrow> fault + 'b start_tls_op" where
  "tl_complete ec op =
     proceed (move_connection (finish_operation (tl_connection op))) (\<lambda>(moved, left).
       Inr (tl_observe [Completed (Set_value ec None (Not_authenticated moved))]
              (op\<lparr>tl_stop_callback := False, tl_connection := left\<rparr>)))"

definition tl_on_starttls :: "error_code \<Rightarrow> 'b start_tls_op \<Rightarrow> fault + 'b start_tls_op" where
  "tl_on_starttls ec op =
     (if tl_completed op then Inr op
      else
        (let op1 = op\<lparr>tl_completed := True\<rparr>
         in if tl_latch op1 then Inr (tl_stopped op1)
            else if ec \<noteq> No_error then tl_complete ec op1
            else
              proceed (upgrade_to_tls_stream (tl_connection op1)) (\<lambda>c.
                Inr (op1\<lparr>tl_phase := Tls_handshake, tl_connection := c, tl_handshake := True\<rparr>))))"

definition tl_on_capability :: "error_code \<Rightarrow> capability_set \<Rightarrow> 'b start_tls_op \<Rightarrow> fault + 'b start_tls_op" where
  "tl_on_capability ec caps op =
     (if tl_latch op then Inr (tl_stopped op)
      else
        tl_complete ec
          (if ec = No_error then op\<lparr>tl_connection := set_capabilities caps (tl_connection op)\<rparr> else op))"

fun tl_event :: "event \<Rightarrow> 'b start_tls_op \<Rightarrow> fault + 'b start_tls_op" where
  "tl_event (Value_delivered i ec res) op =
     (if tl_cell op = Some i then
        (case tl_phase op of
           Tls_starttls \<Rightarrow> tl_on_starttls ec op
         | Tls_handshake \<Rightarrow> Inr op
         | Tls_capability \<Rightarrow> tl_on_capability ec (caps_of res) op)
      else Inr op)"
| "tl_event _ op = Inr op"

fun tl_events :: "event list \<Rightarrow> 'b start_tls_op \<Rightarrow> fault + 'b start_tls_op" where
  "tl_events [] op = Inr op"
| "tl_events (e # es) op = proceed (tl_event e op) (tl_events es)"

text \<open>
  Submitting a command of a phase and flushing it. When the context is closed the handler has run
  inside \<open>submit\<close> already, and storing the tag is a late access.
\<close>

definition tl_submit :: "fates \<Rightarrow> command_args \<Rightarrow> 'b start_tls_op \<Rightarrow> fault + 'b start_tls_op" where
  "tl_submit f a op =
     proceed (with_context (submit_to f a) (tl_connection op)) (\<lambda>((tag, i), evs, c).
       proceed (tl_events evs (op\<lparr>tl_connection := c, tl_cell := Some i\<rparr>)) (\<lambda>op1.
         if tl_log op1 \<noteq> tl_log op then Inr (tl_observe [Late_access] (op1\<lparr>tl_tag := tag\<rparr>))
         else
           proceed (with_context (flush_to f) (tl_connection op1)) (\<lambda>(_, evs', c').
             tl_events evs' (op1\<lparr>tl_tag := tag, tl_connection := c'\<rparr>))))"

definition tl_start :: "fates \<Rightarrow> bool \<Rightarrow> 'b start_tls_op \<Rightarrow> fault + 'b start_tls_op" where
  "tl_start f stop_requested op0 =
     (let (acquired, c) = try_start_operation (tl_connection op0);
          op = op0\<lparr>tl_connection := c, tl_started := True\<rparr>
      in if \<not> acquired then Inl Assertion_failed
         else if stop_requested then
           Inr (tl_observe [Completed Set_stopped] (op\<lparr>tl_connection := finish_operation c\<rparr>))
         else
           proceed (tl_submit f Starttls (op\<lparr>tl_phase := Tls_starttls\<rparr>)) (\<lambda>op1.
             Inr (tl_observe (if tl_log op1 \<noteq> tl_log op then [Late_access] else [])
                    (op1\<lparr>tl_stop_callback := True\<rparr>))))"

definition tl_on_handshake :: "fates \<Rightarrow> 'b \<Rightarrow> error_code \<Rightarrow> 'b start_tls_op \<Rightarrow> fault + 'b start_tls_op" where
  "tl_on_handshake f b ec op0 =
     (let op = op0\<lparr>tl_handshake := False\<rparr>
      in if tl_latch op then Inr (tl_stopped op)
         else
           (let op1 = op\<lparr>tl_connection := emplace_tls_context f b (tl_connection op)\<rparr>
            in if ec \<noteq> No_error then tl_complete ec op1
               else tl_submit f Capability (op1\<lparr>tl_phase := Tls_capability\<rparr>)))"

text \<open>The stop callback: the request is latched first, the claim is tried after the cancellation.\<close>

definition tl_stop :: "bool \<Rightarrow> fates \<Rightarrow> 'b start_tls_op \<Rightarrow> fault + 'b start_tls_op" where
  "tl_stop oom f op0 =
     (let op = op0\<lparr>tl_latch := True\<rparr>
      in if tl_phase op = Tls_handshake then Inr op
         else
           proceed (with_context (cancel_to f (tl_tag op)) (tl_connection op)) (\<lambda>(_, evs, c).
             proceed (tl_events evs (op\<lparr>tl_connection := c\<rparr>)) (\<lambda>op1.
               if tl_completed op1 then Inr op1
               else
                 (let op2 = op1\<lparr>tl_completed := True, tl_connection := finish_operation (tl_connection op1),
                                tl_stop_callback := False\<rparr>
                  in Inr (if oom then tl_observe [Completed Set_stopped] op2 else op2\<lparr>tl_posted := True\<rparr>)))))"

definition tl_run_posted :: "'b start_tls_op \<Rightarrow> 'b start_tls_op" where
  "tl_run_posted op = tl_observe [Completed Set_stopped] (op\<lparr>tl_posted := False\<rparr>)"

definition tl_context :: "'b buffer_ops \<Rightarrow> action \<Rightarrow> 'b start_tls_op \<Rightarrow> fault + 'b start_tls_op" where
  "tl_context ops a op =
     proceed (with_context (context_step ops a) (tl_connection op)) (\<lambda>(_, evs, c).
       tl_events evs (op\<lparr>tl_connection := c\<rparr>))"

section \<open>Runs\<close>

datatype 'b tls_action = Tl_start fates bool | Tl_stop bool fates | Tl_posted
  | Tl_handshake fates 'b error_code | Tl_context action

fun tl_enabled :: "'b tls_action \<Rightarrow> 'b start_tls_op \<Rightarrow> bool" where
  "tl_enabled (Tl_start f stop) op \<longleftrightarrow> \<not> tl_started op"
| "tl_enabled (Tl_stop oom f) op \<longleftrightarrow> tl_stop_callback op"
| "tl_enabled Tl_posted op \<longleftrightarrow> tl_posted op"
| "tl_enabled (Tl_handshake f b ec) op \<longleftrightarrow> tl_handshake op"
| "tl_enabled (Tl_context a) op \<longleftrightarrow> context_enabled a (tl_connection op)"

fun tl_perform :: "'b buffer_ops \<Rightarrow> 'b tls_action \<Rightarrow> 'b start_tls_op \<Rightarrow> fault + 'b start_tls_op" where
  "tl_perform ops (Tl_start f stop) op = tl_start f stop op"
| "tl_perform ops (Tl_stop oom f) op = tl_stop oom f op"
| "tl_perform ops Tl_posted op = Inr (tl_run_posted op)"
| "tl_perform ops (Tl_handshake f b ec) op = tl_on_handshake f b ec op"
| "tl_perform ops (Tl_context a) op = tl_context ops a op"

definition tl_step :: "'b buffer_ops \<Rightarrow> 'b start_tls_op \<Rightarrow> 'b start_tls_op \<Rightarrow> bool" where
  "tl_step ops op op' \<longleftrightarrow> (\<exists>a. tl_enabled a op \<and> tl_perform ops a op = Inr op')"

fun tl_run :: "'b buffer_ops \<Rightarrow> 'b tls_action list \<Rightarrow> 'b start_tls_op \<Rightarrow> fault + 'b start_tls_op" where
  "tl_run ops [] op = Inr op"
| "tl_run ops (a # as) op =
     (if tl_enabled a op then proceed (tl_perform ops a op) (tl_run ops as) else Inl Assertion_failed)"

lemma tl_run_reachable: "tl_run ops as op = Inr op' \<Longrightarrow> rtranclp (tl_step ops) op op'"
proof (induction as arbitrary: op)
  case (Cons a as)
  obtain op1 where 1: "tl_enabled a op" "tl_perform ops a op = Inr op1" "tl_run ops as op1 = Inr op'"
    using Cons(2) by (auto elim!: proceed_InrE split: if_splits)
  have "tl_step ops op op1" using 1 unfolding tl_step_def by blast
  then show ?case using Cons(1) [OF 1(3)] by (rule converse_rtranclp_into_rtranclp)
qed simp

section \<open>What a successful upgrade hands out\<close>

definition upgraded :: "'b buffer_ops \<Rightarrow> 'b completion \<Rightarrow> bool" where
  "upgraded ops x \<longleftrightarrow>
     (\<forall>ec out st. x = Set_value ec out st \<longrightarrow>
        (\<exists>c k. st = Not_authenticated c \<and> \<not> conn_busy c \<and> conn_context c = Some k \<and> living ops k \<and>
           (ec = No_error \<longrightarrow> conn_tls c \<and>
              (\<exists>i res. Value_delivered i No_error res \<in> set (trace k) \<and> conn_capabilities c = caps_of res))))"

definition tl_inv :: "'b buffer_ops \<Rightarrow> 'b start_tls_op \<Rightarrow> bool" where
  "tl_inv ops op \<longleftrightarrow> list_all (upgraded ops) (completions (tl_log op)) \<and>
     (tl_phase op = Tls_capability \<longrightarrow> conn_tls (tl_connection op)) \<and>
     (\<forall>k. conn_context (tl_connection op) = Some k \<longrightarrow> living ops k)"

lemma upgraded_stopped [simp]: "upgraded ops Set_stopped"
  by (simp add: upgraded_def)

lemma tl_stopped_inv: "tl_inv ops op \<Longrightarrow> tl_inv ops (tl_stopped op)"
  by (simp add: tl_inv_def tl_stopped_def tl_observe_def finish_operation_def)

text \<open>What a completion needs: an error, or the delivered capabilities on a TLS context.\<close>

lemma tl_complete_inv:
  assumes "tl_inv ops op" "tl_complete ec op = Inr op'" "conn_context (tl_connection op) \<noteq> None"
    and "ec = No_error \<Longrightarrow> conn_tls (tl_connection op) \<and>
      (\<exists>k i res. conn_context (tl_connection op) = Some k \<and> Value_delivered i No_error res \<in> set (trace k) \<and>
        conn_capabilities (tl_connection op) = caps_of res)"
  shows "tl_inv ops op' \<and> tl_cell op' = tl_cell op"
proof -
  let ?c = "finish_operation (tl_connection op)"
  have o: "op' = tl_observe [Completed (Set_value ec None (Not_authenticated ?c))]
      (op\<lparr>tl_stop_callback := False, tl_connection := ?c\<lparr>conn_context := None, conn_capabilities := []\<rparr>\<rparr>)"
    using assms(2) by (simp add: tl_complete_def move_connection_def finish_operation_def)
  have "upgraded ops (Set_value ec None (Not_authenticated ?c))"
    using assms(1,3,4) by (cases "ec = No_error") (auto simp: upgraded_def finish_operation_def tl_inv_def)
  then show ?thesis using assms(1) unfolding o by (simp add: tl_inv_def tl_observe_def finish_operation_def)
qed

lemma tl_stopped_cell [simp]: "tl_cell (tl_stopped op) = tl_cell op"
  by (simp add: tl_stopped_def tl_observe_def)

lemma tl_on_starttls_inv:
  assumes i: "tl_inv ops op" and p: "tl_phase op = Tls_starttls" and e: "tl_on_starttls ec op = Inr op'"
    and k: "conn_context (tl_connection op) \<noteq> None"
  shows "tl_inv ops op' \<and> tl_cell op' = tl_cell op"
proof -
  let ?op1 = "op\<lparr>tl_completed := True\<rparr>"
  have i1: "tl_inv ops ?op1" using i by (simp add: tl_inv_def)
  consider "tl_completed op" | "\<not> tl_completed op" "tl_latch op" | "\<not> tl_completed op" "\<not> tl_latch op" "ec \<noteq> No_error"
    | "\<not> tl_completed op" "\<not> tl_latch op" "ec = No_error" by blast
  then show ?thesis
  proof cases
    case 3
    then have "tl_complete ec ?op1 = Inr op'" using e by (simp add: tl_on_starttls_def)
    from tl_complete_inv [OF i1 this] 3 k show ?thesis by simp
  next
    case 4
    then obtain c where c: "upgrade_to_tls_stream (tl_connection op) = Inr c"
      "op' = ?op1\<lparr>tl_phase := Tls_handshake, tl_connection := c, tl_handshake := True\<rparr>"
      using e by (auto simp: tl_on_starttls_def elim!: proceed_InrE)
    then show ?thesis using i1
      by (auto simp: upgrade_to_tls_stream_def tl_inv_def living_calls(6) split: option.splits if_splits)
  qed (use e i tl_stopped_inv [OF i1] in \<open>auto simp: tl_on_starttls_def\<close>)
qed

lemma tl_on_capability_inv:
  assumes i: "tl_inv ops op" and p: "tl_phase op = Tls_capability" and e: "tl_on_capability ec (caps_of res) op = Inr op'"
    and k: "conn_context (tl_connection op) = Some k" "Value_delivered n ec res \<in> set (trace k)"
  shows "tl_inv ops op' \<and> tl_cell op' = tl_cell op"
proof -
  let ?op = "if ec = No_error then op\<lparr>tl_connection := set_capabilities (caps_of res) (tl_connection op)\<rparr> else op"
  consider "tl_latch op" | "\<not> tl_latch op" "tl_complete ec ?op = Inr op'"
    using e by (cases "tl_latch op") (simp_all add: tl_on_capability_def)
  then show ?thesis
  proof cases
    case 2
    have "tl_inv ops ?op" using i by (simp add: tl_inv_def set_capabilities_def)
    note c = tl_complete_inv [OF this 2(2)]
    have "conn_tls (tl_connection op)" using i p by (simp add: tl_inv_def)
    then show ?thesis using c k by (cases "ec = No_error") (auto simp: set_capabilities_def)
  qed (use e tl_stopped_inv [OF i] in \<open>auto simp: tl_on_capability_def\<close>)
qed

lemma tl_event_inv:
  assumes i: "tl_inv ops op" and e: "tl_event ev op = Inr op'"
    and k: "\<And>i ec res. ev = Value_delivered i ec res \<Longrightarrow> tl_cell op = Some i \<Longrightarrow>
      \<exists>k. conn_context (tl_connection op) = Some k \<and> ev \<in> set (trace k)"
  shows "tl_inv ops op' \<and> tl_cell op' = tl_cell op"
proof (cases "\<exists>i ec res. ev = Value_delivered i ec res \<and> tl_cell op = Some i")
  case True
  then obtain i ec res where ev: "ev = Value_delivered i ec res" "tl_cell op = Some i" by blast
  obtain ctx where "conn_context (tl_connection op) = Some ctx" "Value_delivered i ec res \<in> set (trace ctx)"
    using k [OF ev] ev(1) by blast
  note ctx = this
  show ?thesis
  proof (cases "tl_phase op")
    case Tls_starttls
    then show ?thesis using tl_on_starttls_inv [OF assms(1)] e ev ctx by simp
  next
    case Tls_capability
    then show ?thesis using tl_on_capability_inv [OF assms(1) _ _ ctx] e ev by simp
  qed (use assms(1) e ev in simp)
qed (use i e in \<open>cases ev; auto split: if_splits\<close>)

lemma tl_event_other: "terminal_id ev \<noteq> tl_cell op \<or> tl_cell op = None \<Longrightarrow> tl_event ev op = Inr op"
  by (cases ev) auto

lemma tl_events_inv:
  assumes "tl_inv ops op" "tl_events evs op = Inr op'" "distinct (terminals evs)"
    and "\<And>i. tl_cell op = Some i \<Longrightarrow> i \<in> set (terminals evs) \<Longrightarrow>
      \<exists>k. conn_context (tl_connection op) = Some k \<and> set evs \<subseteq> set (trace k)"
  shows "tl_inv ops op' \<and> tl_cell op' = tl_cell op"
  using assms
proof (induction evs arbitrary: op)
  case (Cons ev evs)
  obtain op1 where 1: "tl_event ev op = Inr op1" "tl_events evs op1 = Inr op'"
    using Cons(3) by (auto elim!: proceed_InrE)
  have i1: "tl_inv ops op1 \<and> tl_cell op1 = tl_cell op"
    by (rule tl_event_inv [OF Cons(2) 1(1)]) (use Cons(5) in fastforce)
  have "\<exists>k. conn_context (tl_connection op1) = Some k \<and> set evs \<subseteq> set (trace k)"
    if c: "tl_cell op1 = Some i" "i \<in> set (terminals evs)" for i
  proof -
    have "terminal_id ev \<noteq> Some i" using c(2) Cons(4) by (auto split: option.splits)
    then have "op1 = op" using 1(1) tl_event_other [of ev op] c(1) i1 by simp
    then show ?thesis using Cons(5) [of i] c by (cases "terminal_id ev") auto
  qed
  then show ?case using Cons(1) [of op1] i1 1(2) Cons(4) by (auto split: option.splits)
qed simp

lemma batch_distinct: "living ops k' \<Longrightarrow> grows k k' \<Longrightarrow> distinct (terminals (drop (length (trace k)) (trace k')))"
proof -
  assume l: "living ops k'" and "grows k k'"
  then obtain evs where evs: "trace k' = trace k @ evs" by (auto simp: grows_def)
  have "count_list (terminals (trace k')) n = 1" if "n \<in> set (terminals (trace k'))" for n
    using settled_cell [OF living_inv [OF l] that] by blast
  then have "distinct (terminals (trace k'))" by (auto simp: distinct_count_atmost_1 count_mset)
  then show ?thesis using evs by simp
qed

lemma tl_call_inv:
  assumes i: "tl_inv ops op" and w: "with_context g (tl_connection op) = Inr (x, evs, c)"
    and g: "\<And>k k'. living ops k \<Longrightarrow> g k = Inr (x, k') \<Longrightarrow> living ops k' \<and> grows k k'"
    and op1: "op1 = op\<lparr>tl_connection := c, tl_cell := cell, tl_tag := t\<rparr>"
    and e: "tl_events evs op1 = Inr op'"
  shows "tl_inv ops op'"
proof -
  obtain k k' where k: "conn_context (tl_connection op) = Some k" "g k = Inr (x, k')"
    "evs = drop (length (trace k)) (trace k')" "c = (tl_connection op)\<lparr>conn_context := Some k'\<rparr>"
    using w by (rule with_contextE)
  have l: "living ops k'" "grows k k'" using g k i by (auto simp: tl_inv_def)
  have i1: "tl_inv ops op1" using i k l unfolding op1 by (simp add: tl_inv_def)
  have "conn_context (tl_connection op1) = Some k'" "set evs \<subseteq> set (trace k')"
    using k unfolding op1 by (auto dest: in_set_dropD)
  then show ?thesis using tl_events_inv [OF i1 e] batch_distinct [OF l] k(3) by blast
qed

lemma submit_grows: "submit f a s = Some (b, s') \<Longrightarrow> grows s s'"
  by (auto simp: submit_def make_cell_def enqueue_operation_def allocate_tag_def Let_def fail_cells_def drop_cells_def
      post_complete_stopped_def grows_def dest!: extract_one_trace split: prod.splits if_splits option.splits)

lemma calls_ok:
  "living ops k \<Longrightarrow> submit_to f a k = Inr (x, k') \<Longrightarrow> living ops k' \<and> grows k k'"
  "living ops k \<Longrightarrow> flush_to f k = Inr (u, k') \<Longrightarrow> living ops k' \<and> grows k k'"
  "living ops k \<Longrightarrow> cancel_to f tag k = Inr (u, k') \<Longrightarrow> living ops k' \<and> grows k k'"
  "living ops k \<Longrightarrow> environment e \<Longrightarrow> enabled e k \<Longrightarrow> context_step ops e k = Inr (u, k') \<Longrightarrow> living ops k' \<and> grows k k'"
proof -
  assume k: "living ops k"
  show "living ops k' \<and> grows k k'" if "submit_to f a k = Inr (x, k')"
    using submit_to_inv [OF k that] that by (auto simp: submit_to_def dest: submit_grows split: option.splits if_splits)
  show "living ops k' \<and> grows k k'" if "flush_to f k = Inr (u, k')"
    using flush_to_inv [OF k that] that posting_grows(1) [of k f] by (simp add: flush_to_def flush_def)
  show "living ops k' \<and> grows k k'" if "cancel_to f tag k = Inr (u, k')"
    using cancel_to_inv [OF k that] that by (auto simp: cancel_to_def dest: cancel_grows split: option.splits)
  show "living ops k' \<and> grows k k'" if "environment e" "enabled e k" "context_step ops e k = Inr (u, k')"
    using context_step_inv [OF k that] that by (auto simp: context_step_def dest: environment_grows split: option.splits)
qed

lemma tl_frame [simp]:
  "tl_inv ops (op\<lparr>tl_tag := t\<rparr>) = tl_inv ops op" "tl_inv ops (op\<lparr>tl_latch := l\<rparr>) = tl_inv ops op"
  "tl_inv ops (op\<lparr>tl_stop_callback := cb\<rparr>) = tl_inv ops op" "tl_inv ops (op\<lparr>tl_completed := d\<rparr>) = tl_inv ops op"
  "tl_inv ops (op\<lparr>tl_posted := d\<rparr>) = tl_inv ops op" "tl_inv ops (op\<lparr>tl_handshake := d\<rparr>) = tl_inv ops op"
  "tl_inv ops (op\<lparr>tl_started := d\<rparr>) = tl_inv ops op" "tl_inv ops (tl_observe [] op) = tl_inv ops op"
  "tl_inv ops (tl_observe [Late_access] op) = tl_inv ops op"
  "tl_inv ops (tl_observe [Completed Set_stopped] op) = tl_inv ops op"
  "tl_inv ops (op\<lparr>tl_connection := finish_operation (tl_connection op)\<rparr>) = tl_inv ops op"
  "tl_inv ops (op\<lparr>tl_connection := (tl_connection op)\<lparr>conn_busy := d\<rparr>\<rparr>) = tl_inv ops op"
  by (simp_all add: tl_inv_def tl_observe_def finish_operation_def)

lemma tl_submit_inv:
  assumes i: "tl_inv ops op" and e: "tl_submit f a op = Inr op'"
  shows "tl_inv ops op'"
proof -
  obtain tag n evs c op1 where 1: "with_context (submit_to f a) (tl_connection op) = Inr ((tag, n), evs, c)"
    "tl_events evs (op\<lparr>tl_connection := c, tl_cell := Some n\<rparr>) = Inr op1"
    "(if tl_log op1 \<noteq> tl_log op then Inr (tl_observe [Late_access] (op1\<lparr>tl_tag := tag\<rparr>))
      else proceed (with_context (flush_to f) (tl_connection op1)) (\<lambda>(_, evs', c').
        tl_events evs' (op1\<lparr>tl_tag := tag, tl_connection := c'\<rparr>))) = Inr op'"
    using e by (fastforce simp: tl_submit_def elim!: proceed_InrE)
  have i1: "tl_inv ops op1"
    by (rule tl_call_inv [OF i 1(1) calls_ok(1) _ 1(2), where cell = "Some n" and t = "tl_tag op"]) simp_all
  show ?thesis
  proof (cases "tl_log op1 \<noteq> tl_log op")
    case False
    obtain evs' c' where 2: "with_context (flush_to f) (tl_connection op1) = Inr ((), evs', c')"
      "tl_events evs' (op1\<lparr>tl_tag := tag, tl_connection := c'\<rparr>) = Inr op'"
      using 1(3) False by (fastforce elim!: proceed_InrE)
    show ?thesis
      by (rule tl_call_inv [OF i1 2(1) calls_ok(2) _ 2(2), where cell = "tl_cell op1" and t = tag]) simp_all
  qed (use 1(3) i1 in auto)
qed

lemma tl_step_inv: "tl_inv ops op \<Longrightarrow> tl_step ops op op' \<Longrightarrow> tl_inv ops op'"
proof -
  assume i: "tl_inv ops op" and "tl_step ops op op'"
  then obtain a where e: "tl_enabled a op" "tl_perform ops a op = Inr op'" by (auto simp: tl_step_def)
  show ?thesis
  proof (cases a)
    case (Tl_start f stop)
    let ?op = "op\<lparr>tl_connection := (tl_connection op)\<lparr>conn_busy := True\<rparr>, tl_started := True\<rparr>"
    have b: "\<not> conn_busy (tl_connection op)"
      using e Tl_start by (auto simp: tl_start_def try_start_operation_def Let_def)
    show ?thesis
    proof (cases stop)
      case False
      obtain op1 where "tl_submit f Starttls (?op\<lparr>tl_phase := Tls_starttls\<rparr>) = Inr op1"
        "op' = tl_observe (if tl_log op1 \<noteq> tl_log op then [Late_access] else []) (op1\<lparr>tl_stop_callback := True\<rparr>)"
        using e Tl_start False b by (auto simp: tl_start_def try_start_operation_def elim!: proceed_InrE)
      moreover have "tl_inv ops (?op\<lparr>tl_phase := Tls_starttls\<rparr>)" using i by (simp add: tl_inv_def)
      ultimately show ?thesis using tl_submit_inv by auto
    qed (use e i Tl_start b in \<open>auto simp: tl_start_def try_start_operation_def tl_inv_def tl_observe_def finish_operation_def\<close>)
  next
    case (Tl_stop oom f)
    show ?thesis
    proof (cases "tl_phase op = Tls_handshake")
      case False
      obtain evs c op1 where 1: "with_context (cancel_to f (tl_tag op)) (tl_connection (op\<lparr>tl_latch := True\<rparr>)) = Inr ((), evs, c)"
        "tl_events evs (op\<lparr>tl_latch := True, tl_connection := c\<rparr>) = Inr op1"
        "op' = (if tl_completed op1 then op1
          else (let op2 = op1\<lparr>tl_completed := True, tl_connection := finish_operation (tl_connection op1), tl_stop_callback := False\<rparr>
                in if oom then tl_observe [Completed Set_stopped] op2 else op2\<lparr>tl_posted := True\<rparr>))"
        using e Tl_stop False by (fastforce simp: tl_stop_def Let_def elim!: proceed_InrE split: if_splits)
      have "tl_inv ops op1"
        by (rule tl_call_inv [OF _ 1(1) calls_ok(3) _ 1(2), where cell = "tl_cell op" and t = "tl_tag op"]) (use i in simp_all)
      then show ?thesis unfolding 1(3)
        by (simp add: Let_def tl_inv_def tl_observe_def finish_operation_def)
    qed (use e i Tl_stop in \<open>auto simp: tl_stop_def\<close>)
  next
    case (Tl_handshake f b ec)
    let ?op1 = "op\<lparr>tl_handshake := False, tl_connection := emplace_tls_context f b (tl_connection op)\<rparr>"
    have i1: "tl_inv ops ?op1" "tl_inv ops (?op1\<lparr>tl_phase := Tls_capability\<rparr>)"
      using i by (simp_all add: tl_inv_def emplace_tls_context_def living_fresh)
    have o: "tl_on_handshake f b ec op = Inr op'" using e Tl_handshake by simp
    consider "tl_latch op" | "\<not> tl_latch op" "ec \<noteq> No_error" | "\<not> tl_latch op" "ec = No_error" by blast
    then show ?thesis
    proof cases
      case 1
      then show ?thesis using o i tl_stopped_inv [of ops "op\<lparr>tl_handshake := False\<rparr>"] by (auto simp: tl_on_handshake_def)
    next
      case 2
      then have "tl_complete ec ?op1 = Inr op'" using o by (simp add: tl_on_handshake_def Let_def)
      from tl_complete_inv [OF i1(1) this] 2(2) show ?thesis by (simp add: emplace_tls_context_def)
    next
      case 3
      then show ?thesis using o tl_submit_inv [OF i1(2)] by (simp add: tl_on_handshake_def Let_def)
    qed
  next
    case Tl_posted
    then show ?thesis using e i by (auto simp: tl_run_posted_def)
  next
    case (Tl_context b)
    obtain k where k: "conn_context (tl_connection op) = Some k" "environment b" "enabled b k"
      using e Tl_context by (auto simp: context_enabled_def split: option.splits)
    obtain evs c where w: "with_context (context_step ops b) (tl_connection op) = Inr ((), evs, c)"
      "tl_events evs (op\<lparr>tl_connection := c\<rparr>) = Inr op'"
      using e Tl_context by (fastforce simp: tl_context_def elim!: proceed_InrE)
    let ?g = "\<lambda>k'. if k' = k then context_step ops b k' else Inl Assertion_failed"
    have "with_context ?g (tl_connection op) = Inr ((), evs, c)" using w(1) k(1) by (simp add: with_context_def)
    then show ?thesis
      by (rule tl_call_inv [OF i _ _ _ w(2), where cell = "tl_cell op" and t = "tl_tag op"])
        (use k calls_ok(4) in \<open>auto split: if_splits\<close>)
  qed
qed

section \<open>Properties\<close>

definition tls_probe :: "octets tls_action list" where
  "tls_probe =
     [Tl_start calm False, Tl_context (Run_kick No_error), Tl_context (Arm_write calm),
      Tl_context (Finish_write calm No_error), Tl_context (Finish_read No_error (''a0001 OK go'' @ CRLF)),
      Tl_context (Read_round calm), Tl_handshake calm [] No_error,
      Tl_context (Run_kick No_error), Tl_context (Arm_write calm), Tl_context (Finish_write calm No_error)]"

definition tls_reply :: "octets tls_action list" where
  "tls_reply =
     [Tl_context (Finish_read No_error (''* CAPABILITY IMAP4rev1'' @ CRLF @ ''a0001 OK done'' @ CRLF)),
      Tl_context (Read_round calm), Tl_context (Read_round calm)]"

definition tls_after :: "octets tls_action list \<Rightarrow> octets start_tls_op" where
  "tls_after as = projr (tl_run list_buffer as (connect_start_tls sample_connection))"

lemma tls_after_run:
  "\<not> isl (tl_run list_buffer as (connect_start_tls sample_connection)) \<Longrightarrow>
     tl_run list_buffer as (connect_start_tls sample_connection) = Inr (tls_after as)"
  by (cases "tl_run list_buffer as (connect_start_tls sample_connection)") (auto simp: tls_after_def)

text \<open>
  C19. A successful STARTTLS never carries plaintext knowledge over: whatever happens during the
  upgrade, a value completion hands out the Not-Authenticated state, and with a success its
  connection is over TLS and its capability cache is what the probe on the TLS context received;
  the capabilities read before the handshake are gone.
\<close>

theorem tls_capabilities_fresh:
  assumes "conn_context c0 = Some k0" "living ops k0" "rtranclp (tl_step ops) (connect_start_tls c0) op"
    and "Set_value ec out st \<in> set (completions (tl_log op))"
  shows "\<exists>c. st = Not_authenticated c \<and>
    (ec = No_error \<longrightarrow> conn_tls c \<and>
       (\<exists>k i res. conn_context c = Some k \<and> Value_delivered i No_error res \<in> set (trace k) \<and>
          conn_capabilities c = caps_of res))"
proof -
  have "tl_inv ops (connect_start_tls c0)" using assms(1,2) by (simp add: tl_inv_def connect_start_tls_def)
  with assms(3) have "tl_inv ops op" by (induction rule: rtranclp_induct) (auto intro: tl_step_inv)
  then have "upgraded ops (Set_value ec out st)" using assms(4) by (auto simp: tl_inv_def list_all_iff)
  then obtain c k where "st = Not_authenticated c" "conn_context c = Some k"
    "ec = No_error \<longrightarrow> conn_tls c \<and>
       (\<exists>i res. Value_delivered i No_error res \<in> set (trace k) \<and> conn_capabilities c = caps_of res)"
    unfolding upgraded_def by blast
  then show ?thesis by blast
qed

theorem tls_capabilities_fresh_witness:
  "\<exists>c. completions (tl_log (tls_after (tls_probe @ tls_reply))) = [Set_value No_error None (Not_authenticated c)] \<and>
    conn_tls c \<and> conn_capabilities c = [''IMAP4REV1'']"
proof -
  let ?op = "tls_after (tls_probe @ tls_reply)"
  have "\<not> isl (tl_run list_buffer (tls_probe @ tls_reply) (connect_start_tls sample_connection))" by code_simp
  then have r: "rtranclp (tl_step list_buffer) (connect_start_tls sample_connection) ?op"
    by (rule tl_run_reachable [OF tls_after_run])
  have k: "conn_context sample_connection = Some (arm_read calm (new_core []))"
    by (simp add: sample_connection_def new_connection_def)
  have "case completions (tl_log ?op) of
      [Set_value No_error None (Not_authenticated c)] \<Rightarrow> conn_capabilities c = [''IMAP4REV1''] | _ \<Rightarrow> False" by code_simp
  then obtain c where c: "completions (tl_log ?op) = [Set_value No_error None (Not_authenticated c)]"
    "conn_capabilities c = [''IMAP4REV1'']"
    by (auto simp: not_Cons split: list.splits completion.splits error_code.splits option.splits session.splits)
  show ?thesis
    using tls_capabilities_fresh [OF k living_fresh r, of No_error None "Not_authenticated c"] c by auto
qed

text \<open>
  A stopped operation whose cell is over has nothing left that could complete it.
\<close>

definition tl_stuck :: "'b buffer_ops \<Rightarrow> 'b start_tls_op \<Rightarrow> bool" where
  "tl_stuck ops op \<longleftrightarrow> tl_started op \<and> tl_completed op \<and> \<not> tl_posted op \<and> \<not> tl_handshake op \<and>
     tl_phase op = Tls_capability \<and> tl_log op = [] \<and>
     (\<exists>k i. conn_context (tl_connection op) = Some k \<and> living ops k \<and> tl_cell op = Some i \<and>
        i \<in> set (terminals (trace k)))"

lemma tl_events_others:
  "\<forall>ev \<in> set evs. \<forall>i ec res. ev = Value_delivered i ec res \<longrightarrow> tl_cell op \<noteq> Some i \<Longrightarrow> tl_events evs op = Inr op"
proof (induction evs)
  case (Cons ev evs)
  then have "tl_event ev op = Inr op" by (cases ev) auto
  then show ?case using Cons by simp
qed simp

lemma tl_stuck_call:
  assumes s: "tl_stuck ops op" and w: "with_context g (tl_connection op) = Inr (x, evs, c)"
    and g: "\<And>k k'. conn_context (tl_connection op) = Some k \<Longrightarrow> living ops k \<Longrightarrow> g k = Inr (x, k') \<Longrightarrow>
      living ops k' \<and> grows k k'"
  shows "tl_events evs (op\<lparr>tl_latch := l, tl_connection := c\<rparr>) = Inr (op\<lparr>tl_latch := l, tl_connection := c\<rparr>) \<and>
    tl_stuck ops (op\<lparr>tl_latch := l, tl_connection := c\<rparr>)"
proof -
  obtain k k' where k: "conn_context (tl_connection op) = Some k" "g k = Inr (x, k')"
    "evs = drop (length (trace k)) (trace k')" "c = (tl_connection op)\<lparr>conn_context := Some k'\<rparr>"
    using w by (rule with_contextE)
  obtain i where i: "living ops k" "tl_cell op = Some i" "i \<in> set (terminals (trace k))"
    using s k(1) by (auto simp: tl_stuck_def)
  have l: "living ops k'" "grows k k'" using g k i by auto
  note n = no_second_delivery [OF l i(3)]
  have "tl_stuck ops (op\<lparr>tl_latch := l, tl_connection := c\<rparr>)"
    using s i l(1) n k(4) by (auto simp: tl_stuck_def)
  then show ?thesis using n i(2) k(3) by (auto intro!: tl_events_others)
qed

lemma tl_stuck_step: "tl_stuck ops op \<Longrightarrow> tl_step ops op op' \<Longrightarrow> tl_stuck ops op'"
proof -
  assume s: "tl_stuck ops op" and "tl_step ops op op'"
  then obtain a where e: "tl_enabled a op" "tl_perform ops a op = Inr op'" by (auto simp: tl_step_def)
  show ?thesis
  proof (cases a)
    case (Tl_stop oom f)
    obtain evs c op1 where 1: "with_context (cancel_to f (tl_tag op)) (tl_connection op) = Inr ((), evs, c)"
      "tl_events evs (op\<lparr>tl_latch := True, tl_connection := c\<rparr>) = Inr op1" "tl_completed op1 \<longrightarrow> op' = op1"
      using e Tl_stop s by (fastforce simp: tl_stop_def Let_def tl_stuck_def elim!: proceed_InrE split: if_splits)
    let ?op = "op\<lparr>tl_latch := True, tl_connection := c\<rparr>"
    have "tl_events evs ?op = Inr ?op \<and> tl_stuck ops ?op"
      by (rule tl_stuck_call [OF s 1(1)]) (rule calls_ok(3))
    then have "op1 = ?op" "tl_stuck ops ?op" using 1(2) by simp_all
    then show ?thesis using 1(3) by (simp add: tl_stuck_def)
  next
    case (Tl_context b)
    obtain k where k: "conn_context (tl_connection op) = Some k" "environment b" "enabled b k"
      using e Tl_context by (auto simp: context_enabled_def split: option.splits)
    obtain evs c where w: "with_context (context_step ops b) (tl_connection op) = Inr ((), evs, c)"
      "tl_events evs (op\<lparr>tl_connection := c\<rparr>) = Inr op'"
      using e Tl_context by (fastforce simp: tl_context_def elim!: proceed_InrE)
    let ?op = "op\<lparr>tl_latch := tl_latch op, tl_connection := c\<rparr>"
    have "tl_events evs ?op = Inr ?op \<and> tl_stuck ops ?op"
      by (rule tl_stuck_call [OF s w(1)]) (use k calls_ok(4) in auto)
    then show ?thesis using w(2) by simp
  qed (use s e in \<open>auto simp: tl_stuck_def\<close>)
qed

lemma tl_stuck_forever: "rtranclp (tl_step ops) op op' \<Longrightarrow> tl_stuck ops op \<Longrightarrow> tl_stuck ops op'"
  by (induction rule: rtranclp_induct) (auto intro: tl_stuck_step)

text \<open>The stop request arrives while the probe is on the wire, and the context runs the posted
  withdrawal of its handler.\<close>

definition tls_stop_in_probe :: "octets tls_action list" where
  "tls_stop_in_probe = tls_probe @ [Tl_stop False calm, Tl_context (Run_stop 0)]"

definition tls_stopped :: "octets start_tls_op" where
  "tls_stopped = tls_after tls_stop_in_probe"

text \<open>
  C37. A stop request during the CAPABILITY probe of STARTTLS is lost, and the operation with it: the
  forwarder latches the request and cancels the probe, but the claim is held since the STARTTLS
  reply, so it posts nothing; the cancellation withdraws the probe's handler, which is the completion
  point that should have honoured the latch. From then on no continuation of the run completes the
  receiver, with a value or as stopped.
\<close>

theorem tls_stop_lost:
  "tl_run list_buffer tls_stop_in_probe (connect_start_tls sample_connection) = Inr tls_stopped \<and>
   tl_latch tls_stopped \<and>
   (\<forall>op. rtranclp (tl_step list_buffer) tls_stopped op \<longrightarrow> completions (tl_log op) = [] \<and> \<not> tl_posted op)"
proof -
  have n: "\<not> isl (tl_run list_buffer tls_stop_in_probe (connect_start_tls sample_connection))" by code_simp
  have r: "tl_run list_buffer tls_stop_in_probe (connect_start_tls sample_connection) = Inr tls_stopped"
    unfolding tls_stopped_def by (rule tls_after_run [OF n])
  have l: "tl_latch tls_stopped" by code_simp
  have "tl_inv list_buffer (connect_start_tls sample_connection)"
    by (simp add: tl_inv_def connect_start_tls_def sample_connection_def new_connection_def living_fresh)
  with tl_run_reachable [OF r] have i: "tl_inv list_buffer tls_stopped"
    by (induction rule: rtranclp_induct) (auto intro: tl_step_inv)
  have f: "tl_started tls_stopped \<and> tl_completed tls_stopped \<and> \<not> tl_posted tls_stopped \<and> \<not> tl_handshake tls_stopped \<and>
    tl_phase tls_stopped = Tls_capability" by code_simp
  have g: "length (tl_log tls_stopped) = 0" by code_simp
  have "case conn_context (tl_connection tls_stopped) of Some k \<Rightarrow> 0 \<in> set (terminals (trace k)) | None \<Rightarrow> False"
    "tl_cell tls_stopped = Some 0" by code_simp+
  then have "tl_stuck list_buffer tls_stopped" using f g i by (auto simp: tl_stuck_def tl_inv_def split: option.splits)
  then have "tl_stuck list_buffer op" if "rtranclp (tl_step list_buffer) tls_stopped op" for op
    using tl_stuck_forever that by blast
  then have "completions (tl_log op) = [] \<and> \<not> tl_posted op" if "rtranclp (tl_step list_buffer) tls_stopped op" for op
    using that by (fastforce simp: tl_stuck_def)
  then show ?thesis using r l by blast
qed

theorem tls_stop_lost_witness:
  "rtranclp (tl_step list_buffer) tls_stopped tls_stopped \<and> completions (tl_log tls_stopped) = []"
  using tls_stop_lost by blast

end
