(* ===== verification/Connect_Op.thy ===== *)
theory Connect_Op
  imports Start_Tls
begin

text \<open>
  Bringing a session up (\<open>connect_operation\<close> of \<open>imap/connect.h\<close>): resolve, TCP connect, an optional
  TLS handshake, then the context with the greeting listener and the initial CAPABILITY probe.

  The outcomes of the transport phases are chosen by the run: the error and the number of endpoints
  of the resolver, the result of opening the socket, the errors of connect and handshake, a phase
  that is stopped from outside. Destroying the connection abandons its context, so the model drops
  it. A transport error is a number; \<open>EHOSTUNREACH\<close> is 113.
\<close>

section \<open>The operation state\<close>

datatype greeting_kind = Greeting_ok | Greeting_preauth | Greeting_bye

fun greeting_kind_of :: "unsolicited_event \<Rightarrow> greeting_kind" where
  "greeting_kind_of (Bye_event t c) = Greeting_bye"
| "greeting_kind_of (Greeting_event st t c) = (if st = St_preauth then Greeting_preauth else Greeting_ok)"
| "greeting_kind_of _ = Greeting_ok"

datatype connect_phase = Resolve_phase | Tcp_phase | Handshake_phase | Session_phase

record 'b connect_op =
  co_use_tls :: bool
  co_connection :: "'b connection option"
  co_registration :: "nat option"
  co_cell :: "nat option"
  co_waiting :: "connect_phase option"
  co_phase :: connect_phase
  co_stop_callback :: bool
  co_stop_requested :: bool
  co_completed :: bool
  co_posted :: bool
  co_greeting :: greeting_kind
  co_greeting_seen :: bool
  co_started :: bool
  co_launched :: bool
  co_log :: "'b observation list"

definition connect_connect_op :: "bool \<Rightarrow> 'b connect_op" where
  "connect_connect_op use_tls =
     \<lparr>co_use_tls = use_tls, co_connection = None, co_registration = None, co_cell = None, co_waiting = None,
      co_phase = Resolve_phase, co_stop_callback = False, co_stop_requested = False, co_completed = False,
      co_posted = False, co_greeting = Greeting_ok, co_greeting_seen = False, co_started = False,
      co_launched = False, co_log = []\<rparr>"

definition co_observe :: "'b observation list \<Rightarrow> 'b connect_op \<Rightarrow> 'b connect_op" where
  "co_observe obs op = op\<lparr>co_log := co_log op @ obs\<rparr>"

definition host_unreachable :: error_code where
  "host_unreachable = Transport_error 113"

section \<open>Completions\<close>

text \<open>Dereferencing an empty connection is a fault.\<close>

definition co_complete :: "error_code \<Rightarrow> 'b connect_op \<Rightarrow> fault + 'b connect_op" where
  "co_complete ec op =
     (if co_completed op then Inr op
      else
        (let op1 = op\<lparr>co_completed := True, co_stop_callback := False\<rparr>
         in if ec = No_error then
              (case co_connection op1 of
                 None \<Rightarrow> Inl Dangling_pointer
               | Some c \<Rightarrow>
                   proceed (move_connection c) (\<lambda>(moved, left).
                     Inr (co_observe
                            [Completed (Set_value ec None
                               (if co_greeting op1 = Greeting_preauth then Authenticated moved
                                else Not_authenticated moved))]
                            (op1\<lparr>co_connection := Some left\<rparr>))))
            else
              Inr (co_observe [Completed (Set_value ec None Logged_out)] (op1\<lparr>co_connection := None\<rparr>))))"

text \<open>The latched stop, delivered at the completion of a phase.\<close>

definition co_latched :: "'b connect_op \<Rightarrow> 'b connect_op" where
  "co_latched op =
     (if co_completed op then op
      else
        co_observe [Completed Set_stopped]
          (op\<lparr>co_completed := True, co_stop_callback := False, co_connection := None\<rparr>))"

section \<open>The session phase\<close>

fun is_greeting :: "unsolicited_event \<Rightarrow> bool" where
  "is_greeting (Greeting_event st t c) = True"
| "is_greeting _ = False"

definition co_on_greeting :: "unsolicited_event \<Rightarrow> 'b connect_op \<Rightarrow> fault + 'b connect_op" where
  "co_on_greeting ev op =
     (if co_stop_requested op then Inr (co_latched op)
      else if greeting_kind_of ev = Greeting_bye then co_complete (Errc Server_bye) op
      else if \<not> co_greeting_seen op \<and> is_greeting ev then
        Inr (op\<lparr>co_greeting_seen := True, co_greeting := greeting_kind_of ev\<rparr>)
      else Inr op)"

definition co_on_capability :: "error_code \<Rightarrow> capability_set \<Rightarrow> 'b connect_op \<Rightarrow> fault + 'b connect_op" where
  "co_on_capability ec caps op =
     (if co_stop_requested op then Inr (co_latched op)
      else
        co_complete ec
          (if ec = No_error then op\<lparr>co_connection := map_option (set_capabilities caps) (co_connection op)\<rparr>
           else op))"

fun co_event :: "event \<Rightarrow> 'b connect_op \<Rightarrow> fault + 'b connect_op" where
  "co_event (Value_delivered i ec res) op =
     (if co_cell op = Some i then co_on_capability ec (caps_of res) op else Inr op)"
| "co_event (Notified h ev) op = (if co_registration op = Some h then co_on_greeting ev op else Inr op)"
| "co_event _ op = Inr op"

text \<open>Once the completion is claimed the connection has left the operation, and no event reaches it.\<close>

fun co_events :: "event list \<Rightarrow> 'b connect_op \<Rightarrow> fault + 'b connect_op" where
  "co_events [] op = Inr op"
| "co_events (e # es) op = (if co_completed op then Inr op else proceed (co_event e op) (co_events es))"

definition co_call ::
  "('b core \<Rightarrow> fault + 'a \<times> 'b core) \<Rightarrow> 'b connect_op \<Rightarrow> fault + 'a \<times> event list \<times> 'b connect_op" where
  "co_call g op =
     (case co_connection op of
        None \<Rightarrow> Inl Assertion_failed
      | Some c \<Rightarrow> proceed (with_context g c) (\<lambda>(x, evs, c'). Inr (x, evs, op\<lparr>co_connection := Some c'\<rparr>)))"

text \<open>
  When the fresh context could not arm its read pump, \<open>submit\<close> fails the probe inside the call, and
  the completion destroys the context that is executing it.
\<close>

definition co_begin_session :: "fates \<Rightarrow> 'b \<Rightarrow> 'b connect_op \<Rightarrow> fault + 'b connect_op" where
  "co_begin_session f b op0 =
     (let op = op0\<lparr>co_connection := Some (new_connection (co_use_tls op0) f b)\<rparr>
      in proceed (co_call listen_to op) (\<lambda>(h, evs, op1).
           proceed (co_call (submit_to f Capability) (op1\<lparr>co_registration := Some h\<rparr>)) (\<lambda>((tag, i), evs1, op2).
             proceed (co_events evs1 (op2\<lparr>co_cell := Some i\<rparr>)) (\<lambda>op3.
               if co_completed op3 then Inl Dangling_pointer
               else
                 proceed (co_call (flush_to f) op3) (\<lambda>(_, evs2, op4).
                   proceed (co_events evs2 op4) (\<lambda>op5.
                     Inr (co_observe (if co_completed op5 then [Late_access] else [])
                            (op5\<lparr>co_phase := Session_phase\<rparr>))))))))"

section \<open>The transport phases\<close>

definition co_on_resolve :: "error_code \<Rightarrow> nat \<Rightarrow> error_code \<Rightarrow> 'b connect_op \<Rightarrow> fault + 'b connect_op" where
  "co_on_resolve ec n open_ec op0 =
     (let op = op0\<lparr>co_waiting := None\<rparr>
      in if co_stop_requested op then Inr (co_latched op)
         else
           (let ec' = (if ec = No_error \<and> n = 0 then host_unreachable else ec)
            in if ec' \<noteq> No_error then co_complete ec' op
               else
                 (let op1 = op\<lparr>co_phase := Tcp_phase\<rparr>
                  in if open_ec \<noteq> No_error then co_complete open_ec op1
                     else Inr (op1\<lparr>co_waiting := Some Tcp_phase\<rparr>))))"

definition co_on_tcp_connect :: "fates \<Rightarrow> 'b \<Rightarrow> error_code \<Rightarrow> 'b connect_op \<Rightarrow> fault + 'b connect_op" where
  "co_on_tcp_connect f b ec op0 =
     (let op = op0\<lparr>co_waiting := None\<rparr>
      in if co_stop_requested op then Inr (co_latched op)
         else if ec \<noteq> No_error then co_complete ec op
         else if co_use_tls op then Inr (op\<lparr>co_phase := Handshake_phase, co_waiting := Some Handshake_phase\<rparr>)
         else co_begin_session f b op)"

definition co_on_handshake :: "fates \<Rightarrow> 'b \<Rightarrow> error_code \<Rightarrow> 'b connect_op \<Rightarrow> fault + 'b connect_op" where
  "co_on_handshake f b ec op0 =
     (let op = op0\<lparr>co_waiting := None\<rparr>
      in if co_stop_requested op then Inr (co_latched op)
         else if ec \<noteq> No_error then co_complete ec op
         else co_begin_session f b op)"

definition co_on_phase_stopped :: "'b connect_op \<Rightarrow> fault + 'b connect_op" where
  "co_on_phase_stopped op0 =
     (let op = op0\<lparr>co_waiting := None\<rparr>
      in if co_stop_requested op then Inr (co_latched op) else co_complete Operation_canceled op)"

definition co_start :: "bool \<Rightarrow> 'b connect_op \<Rightarrow> 'b connect_op" where
  "co_start stop_requested op0 =
     (let op = op0\<lparr>co_started := True\<rparr>
      in if stop_requested then co_observe [Completed Set_stopped] op
         else op\<lparr>co_launched := True, co_phase := Resolve_phase, co_waiting := Some Resolve_phase,
                 co_stop_callback := True\<rparr>)"

definition co_stop :: "bool \<Rightarrow> 'b connect_op \<Rightarrow> 'b connect_op" where
  "co_stop oom op =
     (if co_phase op \<noteq> Session_phase then op\<lparr>co_stop_requested := True\<rparr>
      else if co_completed op then op
      else
        (let op1 = op\<lparr>co_completed := True, co_registration := None, co_connection := None, co_stop_callback := False\<rparr>
         in if oom then co_observe [Completed Set_stopped] op1 else op1\<lparr>co_posted := True\<rparr>))"

definition co_run_posted :: "'b connect_op \<Rightarrow> 'b connect_op" where
  "co_run_posted op = co_observe [Completed Set_stopped] (op\<lparr>co_posted := False\<rparr>)"

definition co_context :: "'b buffer_ops \<Rightarrow> action \<Rightarrow> 'b connect_op \<Rightarrow> fault + 'b connect_op" where
  "co_context ops a op = proceed (co_call (context_step ops a) op) (\<lambda>(_, evs, op1). co_events evs op1)"

section \<open>Runs\<close>

datatype 'b connect_action = Co_start bool | Co_stop bool | Co_posted
  | Co_resolved error_code nat error_code | Co_connected fates 'b error_code
  | Co_handshaken fates 'b error_code | Co_phase_stopped | Co_context action

fun co_enabled :: "'b connect_action \<Rightarrow> 'b connect_op \<Rightarrow> bool" where
  "co_enabled (Co_start stop) op \<longleftrightarrow> \<not> co_started op"
| "co_enabled (Co_stop oom) op \<longleftrightarrow> co_stop_callback op"
| "co_enabled Co_posted op \<longleftrightarrow> co_posted op"
| "co_enabled (Co_resolved ec n e) op \<longleftrightarrow> co_waiting op = Some Resolve_phase"
| "co_enabled (Co_connected f b ec) op \<longleftrightarrow> co_waiting op = Some Tcp_phase"
| "co_enabled (Co_handshaken f b ec) op \<longleftrightarrow> co_waiting op = Some Handshake_phase"
| "co_enabled Co_phase_stopped op \<longleftrightarrow> co_waiting op \<noteq> None"
| "co_enabled (Co_context a) op \<longleftrightarrow>
     (case co_connection op of None \<Rightarrow> False | Some c \<Rightarrow> context_enabled a c)"

fun co_perform :: "'b buffer_ops \<Rightarrow> 'b connect_action \<Rightarrow> 'b connect_op \<Rightarrow> fault + 'b connect_op" where
  "co_perform ops (Co_start stop) op = Inr (co_start stop op)"
| "co_perform ops (Co_stop oom) op = Inr (co_stop oom op)"
| "co_perform ops Co_posted op = Inr (co_run_posted op)"
| "co_perform ops (Co_resolved ec n e) op = co_on_resolve ec n e op"
| "co_perform ops (Co_connected f b ec) op = co_on_tcp_connect f b ec op"
| "co_perform ops (Co_handshaken f b ec) op = co_on_handshake f b ec op"
| "co_perform ops Co_phase_stopped op = co_on_phase_stopped op"
| "co_perform ops (Co_context a) op = co_context ops a op"

definition co_step :: "'b buffer_ops \<Rightarrow> 'b connect_op \<Rightarrow> 'b connect_op \<Rightarrow> bool" where
  "co_step ops op op' \<longleftrightarrow> (\<exists>a. co_enabled a op \<and> co_perform ops a op = Inr op')"

fun co_run :: "'b buffer_ops \<Rightarrow> 'b connect_action list \<Rightarrow> 'b connect_op \<Rightarrow> fault + 'b connect_op" where
  "co_run ops [] op = Inr op"
| "co_run ops (a # as) op =
     (if co_enabled a op then proceed (co_perform ops a op) (co_run ops as) else Inl Assertion_failed)"

section \<open>Where a run stands\<close>

fun first_greeting :: "nat \<Rightarrow> event list \<Rightarrow> response_status option" where
  "first_greeting h [] = None"
| "first_greeting h (e # es) =
     (case e of
        Notified h' ev \<Rightarrow>
          (case ev of
             Greeting_event st t c \<Rightarrow> (if h' = h then Some st else first_greeting h es)
           | _ \<Rightarrow> first_greeting h es)
      | _ \<Rightarrow> first_greeting h es)"

lemma first_greeting_append:
  "first_greeting h (es @ fs) = (case first_greeting h es of None \<Rightarrow> first_greeting h fs | Some st \<Rightarrow> Some st)"
  by (induction es) (auto split: event.splits unsolicited_event.splits)

text \<open>The kind of greeting that a list of events has brought to the handler.\<close>

definition heard :: "nat \<Rightarrow> event list \<Rightarrow> 'b connect_op \<Rightarrow> bool" where
  "heard h es op \<longleftrightarrow>
     co_greeting_seen op = (first_greeting h es \<noteq> None) \<and>
     co_greeting op = (if first_greeting h es = Some St_preauth then Greeting_preauth else Greeting_ok)"

text \<open>What a completion carries.\<close>

definition established :: "'b buffer_ops \<Rightarrow> bool \<Rightarrow> nat option \<Rightarrow> nat option \<Rightarrow> 'b completion \<Rightarrow> bool" where
  "established ops tls reg cell x \<longleftrightarrow>
     (\<forall>ec out st. x = Set_value ec out st \<longrightarrow>
        out = None \<and>
        (if ec = No_error then
           (\<exists>c k h i res p q.
              reg = Some h \<and> cell = Some i \<and> conn_context c = Some k \<and> living ops k \<and> conn_tls c = tls \<and>
              \<not> conn_busy c \<and>
              trace k = p @ Value_delivered i No_error res # q \<and> conn_capabilities c = caps_of res \<and>
              st = (if first_greeting h p = Some St_preauth then Authenticated c else Not_authenticated c))
         else st = Logged_out))"

text \<open>The four kinds of state after the operation has been launched and before.\<close>

definition co_refused :: "'b connect_op \<Rightarrow> bool" where
  "co_refused op \<longleftrightarrow> co_started op \<and> \<not> co_launched op \<and> co_connection op = None \<and> co_waiting op = None \<and>
     \<not> co_stop_callback op \<and> \<not> co_posted op \<and> \<not> co_completed op \<and> completions (co_log op) = [Set_stopped]"

definition co_transport :: "'b connect_op \<Rightarrow> bool" where
  "co_transport op \<longleftrightarrow> co_started op \<and> co_launched op \<and> co_connection op = None \<and> co_waiting op \<noteq> None \<and>
     \<not> co_posted op \<and> \<not> co_completed op \<and> completions (co_log op) = [] \<and> co_phase op \<noteq> Session_phase \<and>
     heard 0 [] op"

definition co_live :: "'b buffer_ops \<Rightarrow> 'b connection \<Rightarrow> 'b core \<Rightarrow> nat \<Rightarrow> event list \<Rightarrow> 'b connect_op \<Rightarrow> bool" where
  "co_live ops c k h p op \<longleftrightarrow> co_started op \<and> co_launched op \<and> co_waiting op = None \<and>
     \<not> co_posted op \<and> \<not> co_completed op \<and> completions (co_log op) = [] \<and>
     co_connection op = Some c \<and> conn_context c = Some k \<and> living ops k \<and> \<not> conn_busy c \<and>
     conn_tls c = co_use_tls op \<and> co_registration op = Some h \<and> heard h p op"

definition co_over :: "'b buffer_ops \<Rightarrow> 'b connect_op \<Rightarrow> bool" where
  "co_over ops op \<longleftrightarrow> co_started op \<and> co_launched op \<and> co_waiting op = None \<and> co_completed op \<and>
     (\<forall>c. co_connection op = Some c \<longrightarrow> conn_context c = None) \<and>
     length (completions (co_log op)) + of_bool (co_posted op) = 1 \<and>
     list_all (established ops (co_use_tls op) (co_registration op) (co_cell op)) (completions (co_log op))"

definition co_inv :: "'b buffer_ops \<Rightarrow> bool \<Rightarrow> 'b connect_op \<Rightarrow> bool" where
  "co_inv ops tls op \<longleftrightarrow> co_use_tls op = tls \<and>
     (op = connect_connect_op tls \<or> co_refused op \<or> co_transport op \<or> co_over ops op \<or>
      (\<exists>c k h. co_live ops c k h (trace k) op \<and> co_phase op = Session_phase))"

lemma established_simps [simp]:
  "established ops tls reg cell Set_stopped"
  "ec \<noteq> No_error \<Longrightarrow> established ops tls reg cell (Set_value ec None Logged_out)"
  by (simp_all add: established_def)

lemma establishedI:
  assumes "conn_context c = Some k" "living ops k" "conn_tls c = tls" "\<not> conn_busy c"
    "trace k = p @ Value_delivered i No_error res # q" "conn_capabilities c = caps_of res"
    "st = (if first_greeting h p = Some St_preauth then Authenticated c else Not_authenticated c)"
  shows "established ops tls (Some h) (Some i) (Set_value No_error None st)"
  using assms unfolding established_def by auto blast+

text \<open>An error and a latched stop end every run that has not completed yet.\<close>

lemma co_latched_over:
  assumes "co_started op" "co_launched op" "co_waiting op = None" "\<not> co_posted op" "\<not> co_completed op"
    "completions (co_log op) = []"
  shows "co_over ops (co_latched op) \<and> co_use_tls (co_latched op) = co_use_tls op"
  using assms by (simp add: co_latched_def co_over_def co_observe_def)

lemma co_error_over:
  assumes "co_started op" "co_launched op" "co_waiting op = None" "\<not> co_posted op" "\<not> co_completed op"
    "completions (co_log op) = []" "ec \<noteq> No_error"
  shows "\<exists>op'. co_complete ec op = Inr op' \<and> co_over ops op' \<and> co_use_tls op' = co_use_tls op"
  using assms by (simp add: co_complete_def co_over_def co_observe_def)

lemma co_value_over:
  assumes l: "co_live ops c k h p op" and i: "co_cell op = Some i"
    and t: "trace k = p @ Value_delivered i No_error res # q" and e: "co_on_capability No_error (caps_of res) op = Inr op'"
  shows "co_over ops op' \<and> co_use_tls op' = co_use_tls op"
proof (cases "co_stop_requested op")
  case True
  then show ?thesis using l e co_latched_over [of op ops] by (auto simp: co_on_capability_def co_live_def)
next
  case False
  let ?c = "set_capabilities (caps_of res) c"
  have o: "op' = co_observe [Completed (Set_value No_error None
      (if co_greeting op = Greeting_preauth then Authenticated ?c else Not_authenticated ?c))]
      (op\<lparr>co_completed := True, co_stop_callback := False,
        co_connection := Some (?c\<lparr>conn_context := None, conn_capabilities := []\<rparr>)\<rparr>)"
    using e l False by (auto simp: co_on_capability_def co_live_def co_complete_def move_connection_def set_capabilities_def)
  have "established ops (co_use_tls op) (Some h) (Some i) (Set_value No_error None
      (if co_greeting op = Greeting_preauth then Authenticated ?c else Not_authenticated ?c))"
    by (rule establishedI [of ?c k]) (use l t in \<open>auto simp: co_live_def heard_def set_capabilities_def\<close>)
  then show ?thesis using l i unfolding o by (simp add: co_over_def co_live_def co_observe_def)
qed

lemma co_event_cases:
  assumes l: "co_live ops c k h p op" and t: "trace k = p @ e # q" and e: "co_event e op = Inr op'"
  shows "(co_over ops op' \<or> (co_live ops c k h (p @ [e]) op' \<and> co_phase op' = co_phase op)) \<and> co_use_tls op' = co_use_tls op"
proof (cases e)
  case (Value_delivered i ec res)
  show ?thesis
  proof (cases "co_cell op = Some i")
    case True
    then have c: "co_on_capability ec (caps_of res) op = Inr op'" using e Value_delivered by simp
    show ?thesis
    proof (cases "ec = No_error")
      case True
      then show ?thesis using co_value_over [OF l \<open>co_cell op = Some i\<close>] t c Value_delivered by blast
    next
      case False
      then show ?thesis using c l co_latched_over [of op ops] co_error_over [of op ec ops]
        by (auto simp: co_on_capability_def co_live_def split: if_splits)
    qed
  qed (use l e Value_delivered in \<open>auto simp: co_live_def heard_def first_greeting_append\<close>)
next
  case (Notified h' ev)
  show ?thesis
  proof (cases "h' = h")
    case True
    then have g: "co_on_greeting ev op = Inr op'" using e l Notified by (simp add: co_live_def)
    consider "co_stop_requested op" | "\<not> co_stop_requested op" "greeting_kind_of ev = Greeting_bye"
      | "\<not> co_stop_requested op" "greeting_kind_of ev \<noteq> Greeting_bye" by blast
    then show ?thesis
    proof cases
      case 1
      then show ?thesis using g l co_latched_over [of op ops] by (auto simp: co_on_greeting_def co_live_def)
    next
      case 2
      then show ?thesis using g l co_error_over [of op "Errc Server_bye" ops] by (auto simp: co_on_greeting_def co_live_def)
    next
      case 3
      then show ?thesis using g l Notified True
        by (cases ev) (auto simp: co_on_greeting_def co_live_def heard_def first_greeting_append split: if_splits option.splits)
    qed
  qed (use l e Notified in \<open>auto simp: co_live_def heard_def first_greeting_append split: option.splits unsolicited_event.splits\<close>)
qed (use l e in \<open>auto simp: co_live_def heard_def first_greeting_append split: option.splits\<close>)

lemma co_over_completed: "co_over ops op \<Longrightarrow> co_completed op"
  by (simp add: co_over_def)

lemma co_events_cases:
  assumes "co_live ops c k h p op" "trace k = p @ evs" "co_events evs op = Inr op'"
  shows "(co_over ops op' \<or> (co_live ops c k h (trace k) op' \<and> co_phase op' = co_phase op)) \<and> co_use_tls op' = co_use_tls op"
  using assms
proof (induction evs arbitrary: p op)
  case (Cons e evs)
  have n: "\<not> co_completed op" using Cons(2) by (simp add: co_live_def)
  then obtain op1 where 1: "co_event e op = Inr op1" "co_events evs op1 = Inr op'"
    using Cons(4) by (auto elim!: proceed_InrE)
  from co_event_cases [OF Cons(2,3) 1(1)]
  consider "co_over ops op1" "co_use_tls op1 = co_use_tls op"
    | "co_live ops c k h (p @ [e]) op1" "co_phase op1 = co_phase op" "co_use_tls op1 = co_use_tls op" by blast
  then show ?case
  proof cases
    case 1
    then have "op' = op1" using \<open>co_events evs op1 = Inr op'\<close> co_over_completed [OF 1(1)] by (cases evs) auto
    then show ?thesis using 1 by blast
  next
    case 2
    show ?thesis using Cons(1) [OF 2(1) _ \<open>co_events evs op1 = Inr op'\<close>] Cons(3) 2(2,3) by simp
  qed
qed simp

lemma co_call_live:
  assumes l: "co_live ops c k h (trace k) op" and e: "co_call g op = Inr (x, evs, op1)"
    and g: "\<And>k'. g k = Inr (x, k') \<Longrightarrow> living ops k' \<and> grows k k'"
  shows "\<exists>c' k'. co_live ops c' k' h (trace k) op1 \<and> trace k' = trace k @ evs \<and>
    co_phase op1 = co_phase op \<and> co_use_tls op1 = co_use_tls op"
proof -
  obtain c1 where w: "with_context g c = Inr (x, evs, c1)" "op1 = op\<lparr>co_connection := Some c1\<rparr>"
    using e l by (auto simp: co_call_def co_live_def elim!: proceed_InrE)
  obtain k' where k: "g k = Inr (x, k')" "evs = drop (length (trace k)) (trace k')" "c1 = c\<lparr>conn_context := Some k'\<rparr>"
    using w(1) l by (auto simp: co_live_def elim!: with_contextE)
  have n: "living ops k'" "grows k k'" using g [OF k(1)] by simp_all
  then have "trace k' = trace k @ evs" using k(2) by (auto simp: grows_def)
  moreover have "co_live ops c1 k' h (trace k) op1" using l n(1) k(3) w(2) by (simp add: co_live_def heard_def)
  ultimately show ?thesis using w(2) by auto
qed

text \<open>A call on the context and the handlers of its events.\<close>

lemma co_call_cases:
  assumes "co_live ops c k h (trace k) op" "co_call g op = Inr (x, evs, op1)"
    and "\<And>k'. g k = Inr (x, k') \<Longrightarrow> living ops k' \<and> grows k k'"
    and "co_events evs (op1\<lparr>co_cell := cell\<rparr>) = Inr op'"
  shows "(co_over ops op' \<or> (\<exists>c' k'. co_live ops c' k' h (trace k') op' \<and> co_phase op' = co_phase op)) \<and>
    co_use_tls op' = co_use_tls op"
proof -
  obtain c' k' where 1: "co_live ops c' k' h (trace k) op1" "trace k' = trace k @ evs" "co_phase op1 = co_phase op"
    "co_use_tls op1 = co_use_tls op" using co_call_live [OF assms(1-3)] by blast
  have "co_live ops c' k' h (trace k) (op1\<lparr>co_cell := cell\<rparr>)" using 1(1) by (simp add: co_live_def heard_def)
  from co_events_cases [OF this 1(2) assms(4)] 1(3,4) show ?thesis by auto
qed

lemma first_greeting_none: "\<forall>ev. Notified h ev \<notin> set es \<Longrightarrow> first_greeting h es = None"
  by (induction es) (auto split: event.splits unsolicited_event.splits)

lemma fresh_quiet: "Notified h ev \<notin> set (trace (arm_read f (new_core b)))"
  by (auto simp: arm_read_def arm_pump_def new_core_def Let_def split: if_splits)

lemma listen_trace: "listen_to k = Inr (h, k') \<Longrightarrow> trace k' = trace k"
  by (auto simp: listen_to_def on_unsolicited_def split: prod.splits)

lemma co_published [simp]:
  "co_over ops (co_observe (if b then [Late_access] else []) (op\<lparr>co_phase := ph\<rparr>)) = co_over ops op"
  "co_live ops c k h p (co_observe (if b then [Late_access] else []) (op\<lparr>co_phase := ph\<rparr>)) = co_live ops c k h p op"
  "co_use_tls (co_observe obs op) = co_use_tls op" "co_phase (co_observe obs op) = co_phase op"
  by (simp_all add: co_over_def co_live_def co_observe_def heard_def)

text \<open>A session that begins is live with the greeting handler registered, or it has completed.\<close>

lemma co_begin_cases:
  assumes i: "co_started op" "co_launched op" "co_waiting op = None" "\<not> co_posted op" "\<not> co_completed op"
    "completions (co_log op) = []" "heard 0 [] op" and e: "co_begin_session f b op = Inr op'"
  shows "(co_over ops op' \<or> (\<exists>c k h. co_live ops c k h (trace k) op' \<and> co_phase op' = Session_phase)) \<and>
    co_use_tls op' = co_use_tls op"
proof -
  let ?c = "new_connection (co_use_tls op) f b" and ?k = "arm_read f (new_core b)"
  obtain h evs op1 tag n evs1 op2 op3 evs2 op4 op5 where 1:
    "co_call listen_to (op\<lparr>co_connection := Some ?c\<rparr>) = Inr (h, evs, op1)"
    "co_call (submit_to f Capability) (op1\<lparr>co_registration := Some h\<rparr>) = Inr ((tag, n), evs1, op2)"
    "co_events evs1 (op2\<lparr>co_cell := Some n\<rparr>) = Inr op3" "\<not> co_completed op3"
    "co_call (flush_to f) op3 = Inr ((), evs2, op4)" "co_events evs2 op4 = Inr op5"
    "op' = co_observe (if co_completed op5 then [Late_access] else []) (op5\<lparr>co_phase := Session_phase\<rparr>)"
    using e by (fastforce simp: co_begin_session_def Let_def elim!: proceed_InrE split: if_splits)
  obtain k where k: "listen_to ?k = Inr (h, k)" "op1 = op\<lparr>co_connection := Some (?c\<lparr>conn_context := Some k\<rparr>)\<rparr>"
    using 1(1) by (auto simp: co_call_def new_connection_def elim!: proceed_InrE with_contextE)
  have lk: "living ops k" "trace k = trace ?k"
    using k(1) living_calls(4) [OF living_fresh [of ops f b]] listen_trace [OF k(1)] by (simp_all add: listen_to_def)
  have "first_greeting h (trace k) = None" unfolding lk(2) by (rule first_greeting_none) (simp add: fresh_quiet)
  then have l: "co_live ops (?c\<lparr>conn_context := Some k\<rparr>) k h (trace k) (op1\<lparr>co_registration := Some h\<rparr>)"
    using i lk(1) unfolding k(2) by (simp add: co_live_def heard_def new_connection_def)
  have "\<not> co_over ops op3" using 1(4) co_over_completed by blast
  with co_call_cases [OF l 1(2) calls_ok(1) [OF lk(1), of f Capability "(tag, n)"] 1(3)] obtain c3 k3 where
    3: "co_live ops c3 k3 h (trace k3) op3" "co_use_tls op3 = co_use_tls op" using k(2) by auto
  have "living ops k3" using 3(1) by (simp add: co_live_def)
  then have "(co_over ops op5 \<or> (\<exists>c k. co_live ops c k h (trace k) op5)) \<and> co_use_tls op5 = co_use_tls op"
    using co_call_cases [OF 3(1) 1(5) calls_ok(2) [of ops k3 f "()"], of "co_cell op4" op5] 1(6) 3(2) by auto
  then show ?thesis unfolding 1(7) by auto
qed

text \<open>Every transport phase ends in the next one, in a session or in a completion.\<close>

lemma co_transport_inv:
  assumes t: "co_transport op" and e: "co_enabled a op" "co_perform ops a op = Inr op'"
  shows "co_inv ops (co_use_tls op) op'"
proof -
  let ?op = "op\<lparr>co_waiting := None\<rparr>"
  have w: "co_started ?op" "co_launched ?op" "co_waiting ?op = None" "\<not> co_posted ?op" "\<not> co_completed ?op"
    "completions (co_log ?op) = []" "heard 0 [] ?op" using t by (simp_all add: co_transport_def heard_def)
  note latched = co_latched_over [OF w(1-6), of ops]
  note err = co_error_over [OF w(1-6), where ops = ops]
  have session: "co_inv ops (co_use_tls op) op'" if "co_begin_session f b ?op = Inr op'" for f b
    using co_begin_cases [OF w that, of ops] by (auto simp: co_inv_def)
  have fail: "co_inv ops (co_use_tls op) op'" if "co_complete ec ?op = Inr op'" "ec \<noteq> No_error" for ec
    using err [OF that(2)] that(1) by (auto simp: co_inv_def)
  have stop: "co_inv ops (co_use_tls op) (co_latched ?op)" using latched by (simp add: co_inv_def)
  show ?thesis
  proof (cases a)
    case (Co_resolved ec n e')
    let ?ec = "if ec = No_error \<and> n = 0 then host_unreachable else ec"
    have o: "co_on_resolve ec n e' op = Inr op'" using e Co_resolved by simp
    consider "co_stop_requested op" | "\<not> co_stop_requested op" "?ec \<noteq> No_error"
      | "\<not> co_stop_requested op" "?ec = No_error" "e' \<noteq> No_error"
      | "\<not> co_stop_requested op" "?ec = No_error" "e' = No_error" by blast
    then show ?thesis
    proof cases
      case 2
      then show ?thesis using o fail [of ?ec] by (simp add: co_on_resolve_def Let_def)
    next
      case 3
      then have "co_complete e' (?op\<lparr>co_phase := Tcp_phase\<rparr>) = Inr op'" using o by (simp add: co_on_resolve_def Let_def)
      then show ?thesis using co_error_over [of "?op\<lparr>co_phase := Tcp_phase\<rparr>" e' ops] w 3(3) by (auto simp: co_inv_def)
    next
      case 4
      then have "op' = ?op\<lparr>co_phase := Tcp_phase, co_waiting := Some Tcp_phase\<rparr>" using o by (simp add: co_on_resolve_def Let_def)
      then show ?thesis using t by (simp add: co_inv_def co_transport_def heard_def)
    qed (use o stop in \<open>auto simp: co_on_resolve_def Let_def\<close>)
  next
    case (Co_connected f b ec)
    have o: "co_on_tcp_connect f b ec op = Inr op'" using e Co_connected by simp
    consider "co_stop_requested op" | "\<not> co_stop_requested op" "ec \<noteq> No_error"
      | "\<not> co_stop_requested op" "ec = No_error" "co_use_tls op"
      | "\<not> co_stop_requested op" "ec = No_error" "\<not> co_use_tls op" by blast
    then show ?thesis
    proof cases
      case 3
      then have "op' = ?op\<lparr>co_phase := Handshake_phase, co_waiting := Some Handshake_phase\<rparr>"
        using o by (simp add: co_on_tcp_connect_def Let_def)
      then show ?thesis using t by (simp add: co_inv_def co_transport_def heard_def)
    qed (use o stop fail [of ec] session [of f b] in \<open>auto simp: co_on_tcp_connect_def Let_def\<close>)
  next
    case (Co_handshaken f b ec)
    then show ?thesis using e stop fail [of ec] session [of f b] by (auto simp: co_on_handshake_def Let_def split: if_splits)
  next
    case Co_phase_stopped
    then show ?thesis using e stop fail [of Operation_canceled] by (auto simp: co_on_phase_stopped_def Let_def split: if_splits)
  next
    case (Co_stop oom)
    then show ?thesis using e t by (auto simp: co_stop_def co_transport_def co_inv_def heard_def)
  qed (use e t in \<open>auto simp: co_transport_def\<close>)
qed

lemma co_live_inv:
  assumes l: "co_live ops c k h (trace k) op" "co_phase op = Session_phase"
    and e: "co_enabled a op" "co_perform ops a op = Inr op'"
  shows "co_inv ops (co_use_tls op) op'"
proof (cases a)
  case (Co_context b)
  have en: "environment b" "enabled b k"
    using e(1) l Co_context by (auto simp: co_live_def context_enabled_def)
  have k: "living ops k" using l by (simp add: co_live_def)
  obtain evs op1 where 1: "co_call (context_step ops b) op = Inr ((), evs, op1)" "co_events evs op1 = Inr op'"
    using e(2) Co_context by (fastforce simp: co_context_def elim!: proceed_InrE)
  show ?thesis using co_call_cases [OF l(1) 1(1) calls_ok(4) [OF k en, of "()"], of "co_cell op1" op'] 1(2) l(2)
    by (auto simp: co_inv_def)
next
  case (Co_stop oom)
  let ?op = "op\<lparr>co_completed := True, co_registration := None, co_connection := None, co_stop_callback := False\<rparr>"
  have "op' = (if oom then co_observe [Completed Set_stopped] ?op else ?op\<lparr>co_posted := True\<rparr>)"
    using e l Co_stop by (auto simp: co_stop_def co_live_def Let_def)
  then show ?thesis using l by (auto simp: co_inv_def co_over_def co_observe_def co_live_def)
qed (use e l in \<open>auto simp: co_live_def\<close>)

lemma co_over_inv:
  assumes o: "co_over ops op" and e: "co_enabled a op" "co_perform ops a op = Inr op'"
  shows "co_inv ops (co_use_tls op) op'"
proof (cases a)
  case Co_posted
  then have "completions (co_log op) = []" "co_posted op" using o e by (auto simp: co_over_def)
  then show ?thesis using o e Co_posted by (auto simp: co_inv_def co_over_def co_run_posted_def co_observe_def)
next
  case (Co_stop oom)
  then have "op' = op \<or> op' = op\<lparr>co_stop_requested := True\<rparr>" using o e by (auto simp: co_over_def co_stop_def)
  then have "co_over ops op'" "co_use_tls op' = co_use_tls op" using o by (auto simp: co_over_def)
  then show ?thesis by (simp add: co_inv_def)
qed (use e o in \<open>auto simp: co_over_def context_enabled_def split: option.splits\<close>)

lemma co_step_inv: "co_inv ops tls op \<Longrightarrow> co_step ops op op' \<Longrightarrow> co_inv ops tls op'"
proof -
  assume i: "co_inv ops tls op" and "co_step ops op op'"
  then obtain a where e: "co_enabled a op" "co_perform ops a op = Inr op'" by (auto simp: co_step_def)
  have t: "co_use_tls op = tls" using i by (simp add: co_inv_def)
  from i consider "op = connect_connect_op tls" | "co_refused op" | "co_transport op" | "co_over ops op"
    | c k h where "co_live ops c k h (trace k) op" "co_phase op = Session_phase" by (auto simp: co_inv_def)
  then show ?thesis
  proof cases
    case 1
    then obtain stop where "op' = co_start stop (connect_connect_op tls)"
      using e by (cases a) (auto simp: connect_connect_op_def)
    then have "(if stop then co_refused op' else co_transport op')" "co_use_tls op' = tls"
      by (auto simp: connect_connect_op_def co_start_def Let_def co_refused_def co_transport_def co_observe_def heard_def)
    then show ?thesis by (auto simp: co_inv_def split: if_splits)
  next
    case 2
    then show ?thesis using e by (cases a) (auto simp: co_refused_def)
  next
    case 3
    then show ?thesis using co_transport_inv [OF 3 e] t by simp
  next
    case 4
    then show ?thesis using co_over_inv [OF 4 e] t by simp
  next
    case 5
    then show ?thesis using co_live_inv [OF 5 e] t by simp
  qed
qed

definition co_claimed :: "'b connect_op \<Rightarrow> bool" where
  "co_claimed op \<longleftrightarrow> co_completed op \<or> (co_started op \<and> \<not> co_launched op)"

interpretation con: receiver_contract "\<lambda>op. op = connect_connect_op tls" "co_step ops" "co_inv ops tls" co_log co_posted co_claimed
proof
  show "co_inv ops tls op" if "op = connect_connect_op tls" for op :: "'a connect_op"
    using that by (simp add: co_inv_def connect_connect_op_def)
  show "length (completions (co_log op)) + of_bool (co_posted op) = (of_bool (co_claimed op) :: nat)"
    if "co_inv ops tls op" for op :: "'a connect_op"
    using that by (auto simp: co_inv_def co_claimed_def connect_connect_op_def co_refused_def co_transport_def co_over_def co_live_def)
qed (rule co_step_inv)

section \<open>Properties\<close>

text \<open>The greeting, the CAPABILITY probe and its reply over a plain socket.\<close>

definition bring_up :: "octets \<Rightarrow> octets connect_action list" where
  "bring_up greeting =
     [Co_start False, Co_resolved No_error 1 No_error, Co_connected calm [] No_error,
      Co_context (Finish_read No_error (greeting @ CRLF @ ''* CAPABILITY IMAP4rev1 IDLE'' @ CRLF @ ''a0001 OK done'' @ CRLF)),
      Co_context (Read_round calm),
      Co_context (Run_kick No_error), Co_context (Arm_write calm), Co_context (Finish_write calm No_error),
      Co_context (Read_round calm), Co_context (Read_round calm)]"

definition co_after :: "octets connect_action list \<Rightarrow> octets connect_op" where
  "co_after as = projr (co_run list_buffer as (connect_connect_op False))"

lemma co_run_reachable: "co_run ops as op = Inr op' \<Longrightarrow> rtranclp (co_step ops) op op'"
proof (induction as arbitrary: op)
  case (Cons a as)
  obtain op1 where 1: "co_enabled a op" "co_perform ops a op = Inr op1" "co_run ops as op1 = Inr op'"
    using Cons(2) by (auto elim!: proceed_InrE split: if_splits)
  have "co_step ops op op1" using 1 unfolding co_step_def by blast
  then show ?case using Cons(1) [OF 1(3)] by (rule converse_rtranclp_into_rtranclp)
qed simp

lemma co_after_reachable:
  assumes "\<not> isl (co_run list_buffer as (connect_connect_op False))"
  shows "rtranclp (co_step list_buffer) (connect_connect_op False) (co_after as)"
  using assms co_run_reachable [of list_buffer as "connect_connect_op False"]
  by (cases "co_run list_buffer as (connect_connect_op False)") (auto simp: co_after_def)



end
