(* ===== verification/Session_Run.thy ===== *)
theory Session_Run
  imports Idle_Op Connect_Op
begin

text \<open>
  Whole sessions of layer 2: a consumer connects, and from each state it is handed it starts the next
  operation, an IDLE cycle or the STARTTLS upgrade, in any order and any number of times, while the
  engine below goes on. Between two operations the context keeps running under the resting state,
  and in a Selected state its pushes feed the mailbox snapshot.

  The relation \<open>session_run\<close> composes the operations the way the state classes of \<open>imap/state/*.h\<close> do:
  every operation consumes the state it is called on and its value completion carries the next
  one. A stopped completion carries no state and ends the session. The handler that an IDLE cycle
  leaves behind (theory \<open>Idle_Op\<close>) is taken to do nothing, as it would if its operation state were
  still alive.
\<close>

section \<open>A state at rest\<close>

fun rebind :: "'b connection \<Rightarrow> 'b session \<Rightarrow> 'b session" where
  "rebind c (Not_authenticated _) = Not_authenticated c"
| "rebind c (Authenticated _) = Authenticated c"
| "rebind c (Selected _ m h) = Selected c m h"
| "rebind c Logged_out = Logged_out"

fun rest_event :: "event \<Rightarrow> 'b session \<Rightarrow> 'b session" where
  "rest_event (Notified h ev) (Selected c m h') = Selected c (if h = h' then snapshot_event ev m else m) h'"
| "rest_event _ s = s"

definition session_rest :: "'b buffer_ops \<Rightarrow> action \<Rightarrow> 'b session \<Rightarrow> fault + 'b session" where
  "session_rest ops a s =
     (case session_connection s of
        None \<Rightarrow> Inl Assertion_failed
      | Some c \<Rightarrow>
          proceed (with_context (context_step ops a) c) (\<lambda>(_, evs, c'). Inr (fold rest_event evs (rebind c' s))))"

lemma rest_event_frame [simp]:
  "kind_of (rest_event e s) = kind_of s" "session_connection (rest_event e s) = session_connection s"
  by (cases "(e, s)" rule: rest_event.cases; simp)+

lemma rest_events_frame [simp]:
  "kind_of (fold rest_event es s) = kind_of s" "session_connection (fold rest_event es s) = session_connection s"
  by (induction es arbitrary: s) simp_all

lemma rebind_frame [simp]:
  "kind_of (rebind c s) = kind_of s" "session_connection (rebind c s) = map_option (\<lambda>_. c) (session_connection s)"
  by (cases s; simp)+

section \<open>Runs of a session\<close>

text \<open>
  The kind of the state the session began in, the commands that were carried out since with whether
  they succeeded, and the state the consumer holds.
\<close>

type_synonym history = "(command_args \<times> bool) list"

inductive session_run :: "'b buffer_ops \<Rightarrow> session_kind \<Rightarrow> history \<Rightarrow> 'b session \<Rightarrow> bool" for ops :: "'b buffer_ops" where
  connected: "rtranclp (co_step ops) (connect_connect_op tls) op \<Longrightarrow>
    Set_value ec out st \<in> set (completions (co_log op)) \<Longrightarrow> session_run ops (kind_of st) [] st"
| rested: "session_run ops b hist s \<Longrightarrow> session_connection s = Some c \<Longrightarrow> context_enabled a c \<Longrightarrow>
    session_rest ops a s = Inr s' \<Longrightarrow> session_run ops b hist s'"
| called: "session_run ops b hist s \<Longrightarrow> session_sender s call = Some sd \<Longrightarrow> so_reachable ops sd op \<Longrightarrow>
    Set_value ec out st \<in> set (completions (so_log op)) \<Longrightarrow>
    session_run ops b (hist @ [(sd_command sd, ec = No_error)]) st"
| idled: "session_run ops b hist (Selected c m h) \<Longrightarrow> rtranclp (io_step ops) (connect_idle_op c m h) op \<Longrightarrow>
    Set_value ec out st \<in> set (completions (io_log op)) \<Longrightarrow>
    session_run ops b (hist @ [(Idle, ec = No_error)]) st"
| secured: "session_run ops b hist (Not_authenticated c) \<Longrightarrow> rtranclp (tl_step ops) (connect_start_tls c) op \<Longrightarrow>
    Set_value ec out st \<in> set (completions (tl_log op)) \<Longrightarrow>
    session_run ops b (hist @ [(Starttls, ec = No_error)]) st"

text \<open>The automaton of RFC 3501 on a history: None when it has no transition for a command.\<close>

fun rfc_path :: "session_kind \<Rightarrow> history \<Rightarrow> session_kind option" where
  "rfc_path b [] = Some b"
| "rfc_path b ((a, ok) # hist) = (case rfc_next b a ok of None \<Rightarrow> None | Some b' \<Rightarrow> rfc_path b' hist)"

lemma rfc_path_snoc: "rfc_path b hist = Some q \<Longrightarrow> rfc_path b (hist @ [(a, ok)]) = rfc_next q a ok"
  by (induction b hist rule: rfc_path.induct) (auto split: option.splits)

definition in_order :: "'b buffer_ops \<Rightarrow> session_kind \<Rightarrow> history \<Rightarrow> 'b session \<Rightarrow> bool" where
  "in_order ops b hist s \<longleftrightarrow> b \<noteq> In_selected \<and> rfc_path b hist = Some (kind_of s) \<and>
     (\<forall>c. session_connection s = Some c \<longrightarrow> usable ops c)"

lemma in_orderI:
  assumes "in_order ops b hist s" "rfc_next (kind_of s) a ok = Some (kind_of st)"
    and "\<And>c. session_connection st = Some c \<Longrightarrow> usable ops c"
  shows "in_order ops b (hist @ [(a, ok)]) st"
  using assms rfc_path_snoc [of b hist "kind_of s" a ok] by (simp add: in_order_def)

lemma connected_in_order:
  assumes r: "rtranclp (co_step ops) (connect_connect_op tls) op" "Set_value ec out st \<in> set (completions (co_log op))"
  shows "in_order ops (kind_of st) [] st"
proof -
  have "co_inv ops tls op" using con.run_inv [OF refl r(1)] .
  then have "established ops tls (co_registration op) (co_cell op) (Set_value ec out st)"
    using r(2) by (auto simp: co_inv_def connect_connect_op_def co_refused_def co_transport_def co_over_def co_live_def list_all_iff)
  then have "kind_of st \<noteq> In_selected" "session_connection st = Some c \<Longrightarrow> usable ops c" for c
    by (auto simp: established_def usable_def split: if_splits)
  then show ?thesis by (simp add: in_order_def)
qed

lemma rested_in_order:
  assumes "in_order ops b hist s" "session_connection s = Some c" "context_enabled a c" "session_rest ops a s = Inr s'"
  shows "in_order ops b hist s'"
proof -
  obtain evs c' where w: "with_context (context_step ops a) c = Inr ((), evs, c')" "s' = fold rest_event evs (rebind c' s)"
    using assms(2,4) by (auto simp: session_rest_def elim!: proceed_InrE)
  obtain k k' where k: "conn_context c = Some k" "context_step ops a k = Inr ((), k')"
    "c' = c\<lparr>conn_context := Some k'\<rparr>" using w(1) by (rule with_contextE)
  have u: "usable ops c" using assms(1,2) by (simp add: in_order_def)
  have "living ops k'" using context_step_inv [OF _ _ _ k(2)] u k(1) assms(3) by (auto simp: usable_def context_enabled_def)
  then have "usable ops c'" using u k(3) by (simp add: usable_def)
  then show ?thesis using assms(1,2) w(2) by (auto simp: in_order_def)
qed

lemma called_in_order:
  assumes o: "in_order ops b hist s" "session_sender s call = Some sd" and r: "so_reachable ops sd op"
    "Set_value ec out st \<in> set (completions (so_log op))"
  shows "in_order ops b (hist @ [(sd_command sd, ec = No_error)]) st"
proof -
  have "owns_live_context ops sd"
    using o session_sender_follows [OF o(2)] by (auto simp: in_order_def usable_def owns_live_context_def)
  then have i: "so_inv ops sd op" using so.run_inv [of "connect_state_op sd" sd ops op] r(1) by (simp add: so_reachable_def)
  have "kind_of st = kind_after (sd_successor sd) (ec = No_error)" "handed_out ops (so_cell op) st"
    using i r(2) by (auto simp: so_inv_def)
  then show ?thesis using o(1) session_sender_follows [OF o(2), of "ec = No_error"]
    by (intro in_orderI) (auto simp: handed_out_def)
qed

lemma idled_in_order:
  assumes o: "in_order ops b hist (Selected c m h)" and r: "rtranclp (io_step ops) (connect_idle_op c m h) op"
    "Set_value ec out st \<in> set (completions (io_log op))"
  shows "in_order ops b (hist @ [(Idle, ec = No_error)]) st"
proof -
  have "io_sound ops op" by (rule sound.run_inv [OF _ r(1)]) (use o in \<open>auto simp: in_order_def\<close>)
  then have "reselected ops (Set_value ec out st)" using r(2) by (simp add: io_sound_def list_all_iff)
  then obtain c' m' h' where "st = Selected c' m' h'" "usable ops c'" unfolding reselected_def by blast
  then show ?thesis by (intro in_orderI [OF o]) (auto simp: rfc_next_def)
qed

lemma secured_in_order:
  assumes o: "in_order ops b hist (Not_authenticated c)" and r: "rtranclp (tl_step ops) (connect_start_tls c) op"
    "Set_value ec out st \<in> set (completions (tl_log op))"
  shows "in_order ops b (hist @ [(Starttls, ec = No_error)]) st"
proof -
  have "tl_inv ops (connect_start_tls c)" using o by (auto simp: tl_inv_def connect_start_tls_def in_order_def usable_def)
  with r(1) have "tl_inv ops op" by (induction rule: rtranclp_induct) (auto intro: tl_step_inv)
  then have "upgraded ops (Set_value ec out st)" using r(2) by (auto simp: tl_inv_def list_all_iff)
  then obtain c' where "st = Not_authenticated c'" "usable ops c'" unfolding upgraded_def usable_def by blast
  then show ?thesis by (intro in_orderI [OF o]) (auto simp: rfc_next_def)
qed

lemma session_in_order: "session_run ops b hist s \<Longrightarrow> in_order ops b hist s"
proof (induction rule: session_run.induct)
  case (connected tls op ec out st)
  then show ?case by (rule connected_in_order)
next
  case (rested b hist s c a s')
  show ?case using rested_in_order [OF rested(5,2-4)] .
next
  case (called b hist s call sd op ec out st)
  show ?case using called_in_order [OF called(5,2-4)] .
next
  case (idled b hist c m h op ec out st)
  show ?case using idled_in_order [OF idled(4,2,3)] .
next
  case (secured b hist c op ec out st)
  show ?case using secured_in_order [OF secured(4,2,3)] .
qed

section \<open>Properties\<close>

text \<open>
  C4. Every session is a run of the automaton of RFC 3501: whatever the consumer calls, the server
  sends and the transport does, the commands that were carried out are permitted in the states they
  were issued in, and the state the consumer holds is the one the automaton reaches on these commands
  and their outcomes from the state of the greeting. The connection of that state is free and has a
  living context, so the next operation can always be started.
\<close>

theorem session_run_sound:
  assumes "session_run ops b hist s"
  shows "b \<noteq> In_selected \<and> rfc_path b hist = Some (kind_of s) \<and>
    (\<forall>c. session_connection s = Some c \<longrightarrow> \<not> conn_busy c \<and> (\<exists>k. conn_context c = Some k \<and> living ops k))"
  using session_in_order [OF assms] by (auto simp: in_order_def usable_def)

text \<open>A consumer that connects, lets the read pump go back to waiting, and logs in.\<close>

definition handed :: "octets completion list \<Rightarrow> octets session" where
  "handed xs = (case xs of [Set_value ec out st] \<Rightarrow> st | _ \<Rightarrow> Logged_out)"

definition opened :: "octets session" where
  "opened = handed (completions (co_log (co_after (bring_up ''* OK hi''))))"

definition waiting :: "octets session" where
  "waiting = projr (session_rest list_buffer (Read_round calm) opened)"

definition second_login :: "octets sender" where
  "second_login = the (session_sender waiting (Na (Na_login joe)))"

definition login_run :: "octets state_op" where
  "login_run = so_after (round_trip (''a0002 OK done'' @ CRLF)) second_login"

definition logged_in :: "octets session" where
  "logged_in = handed (completions (so_log login_run))"

lemma handed_value:
  assumes "case xs of [Set_value ec out st] \<Rightarrow> ec = No_error \<and> kind_of st = q | _ \<Rightarrow> False"
  shows "\<exists>out. Set_value No_error out (handed xs) \<in> set xs \<and> kind_of (handed xs) = q"
  using assms by (auto simp: handed_def split: list.splits completion.splits)

theorem session_run_sound_witness:
  "session_run list_buffer In_not_authenticated [(Login ''joe'' ''pw'' False, True)] logged_in \<and>
   rfc_path In_not_authenticated [(Login ''joe'' ''pw'' False, True)] = Some (kind_of logged_in) \<and>
   kind_of logged_in = In_authenticated"
proof -
  have r: "rtranclp (co_step list_buffer) (connect_connect_op False) (co_after (bring_up ''* OK hi''))"
    by (rule co_after_reachable) code_simp
  have "case completions (co_log (co_after (bring_up ''* OK hi''))) of
      [Set_value ec out st] \<Rightarrow> ec = No_error \<and> kind_of st = In_not_authenticated | _ \<Rightarrow> False" by code_simp
  from handed_value [OF this] connected [OF r] have 1: "session_run list_buffer In_not_authenticated [] opened"
    unfolding opened_def by (metis (no_types, lifting))
  have "case session_connection opened of Some c \<Rightarrow> context_enabled (Read_round calm) c | None \<Rightarrow> False"
    "\<not> isl (session_rest list_buffer (Read_round calm) opened)" by code_simp+
  then have 2: "session_run list_buffer In_not_authenticated [] waiting"
    using rested [OF 1, of _ "Read_round calm" waiting] unfolding waiting_def
    by (cases "session_rest list_buffer (Read_round calm) opened") (auto split: option.splits)
  have "session_sender waiting (Na (Na_login joe)) \<noteq> None" unfolding Option.is_none_def [symmetric] by code_simp
  then have 3: "session_sender waiting (Na (Na_login joe)) = Some second_login" by (simp add: second_login_def)
  have 4: "so_reachable list_buffer second_login login_run"
    unfolding login_run_def by (rule so_after_reachable) code_simp
  have "case completions (so_log login_run) of
      [Set_value ec out st] \<Rightarrow> ec = No_error \<and> kind_of st = In_authenticated | _ \<Rightarrow> False" by code_simp
  from handed_value [OF this] obtain out where 5: "Set_value No_error out logged_in \<in> set (completions (so_log login_run))"
    "kind_of logged_in = In_authenticated" unfolding logged_in_def by blast
  have "sd_command second_login = Login ''joe'' ''pw'' False" by code_simp
  then have 6: "session_run list_buffer In_not_authenticated [(Login ''joe'' ''pw'' False, True)] logged_in"
    using called [OF 2 3 4 5(1)] by simp
  then show ?thesis using session_run_sound [OF 6] 5(2) by simp
qed

section \<open>A push between two listeners\<close>

definition idle_mailbox :: "octets session" where
  "idle_mailbox = projr (selected_state idle_ready default_mailbox_info)"

text \<open>The server announces nine messages, and the octets are dispatched.\<close>

definition nine_messages :: "action list" where
  "nine_messages = [Finish_read No_error (''* 9 EXISTS'' @ CRLF), Read_round calm]"

fun rest_run :: "'b buffer_ops \<Rightarrow> action list \<Rightarrow> 'b session \<Rightarrow> fault + 'b session" where
  "rest_run ops [] s = Inr s"
| "rest_run ops (a # as) s = proceed (session_rest ops a s) (rest_run ops as)"

text \<open>The sender of \<open>idle()\<close> exists but is not started yet; later the heartbeat ends the cycle.\<close>

fun idle_of :: "'b session \<Rightarrow> 'b idle_op option" where
  "idle_of (Selected c m h) = Some (connect_idle_op c m h)"
| "idle_of _ = None"

definition gap_run :: "fault + octets idle_op" where
  "gap_run = io_run list_buffer (map (Io_context calm) nine_messages @ [Io_start calm False, Io_timer calm])
     (the (idle_of idle_mailbox))"

text \<open>
  C38. A push that is dispatched between \<open>idle()\<close> and the start of its sender is lost: the call retires
  the snapshot's handler at once, and the operation registers its own only when it is started. The
  same octets update the snapshot of the resting state, but the state that the IDLE cycle completes
  with has the old count.
\<close>

theorem idle_gap_loses_push:
  "\<exists>c h op c' h'. rest_run list_buffer nine_messages idle_mailbox =
      Inr (Selected c (default_mailbox_info\<lparr>mb_exists := 9\<rparr>) h) \<and>
    gap_run = Inr op \<and> completions (io_log op) = [Set_value No_error None (Selected c' default_mailbox_info h')]"
proof -
  have "case rest_run list_buffer nine_messages idle_mailbox of
      Inr (Selected c m h) \<Rightarrow> m = default_mailbox_info\<lparr>mb_exists := 9\<rparr> | _ \<Rightarrow> False" by code_simp
  then obtain c h where 1: "rest_run list_buffer nine_messages idle_mailbox =
      Inr (Selected c (default_mailbox_info\<lparr>mb_exists := 9\<rparr>) h)" by (auto split: sum.splits session.splits)
  have "case gap_run of Inr op \<Rightarrow> (case completions (io_log op) of
      [Set_value No_error None (Selected c m h)] \<Rightarrow> m = default_mailbox_info | _ \<Rightarrow> False) | _ \<Rightarrow> False" by code_simp
  then obtain op c' h' where "gap_run = Inr op"
    "completions (io_log op) = [Set_value No_error None (Selected c' default_mailbox_info h')]"
    by (auto simp: not_Cons split: sum.splits list.splits completion.splits error_code.splits option.splits session.splits)
  then show ?thesis using 1 by blast
qed

end
