(* ===== verification/Snapshot.thy ===== *)
theory Snapshot
  imports Start_Tls
begin

text \<open>
  The mailbox snapshot of a Selected state while an operation runs: the operation captures the
  snapshot and the handler that feeds it (\<open>take_snapshot\<close> of \<open>imap/state/selected.h\<close>), and the state it
  completes with is built from what they have become.

  The engine never mixes pushes and completions in one action, so every push before the completion
  has been applied when the new state is built.
\<close>

section \<open>Pushes\<close>

fun notice_of :: "event \<Rightarrow> (nat \<times> unsolicited_event) option" where
  "notice_of (Notified h ev) = Some (h, ev)"
| "notice_of _ = None"

definition notices :: "event list \<Rightarrow> (nat \<times> unsolicited_event) list" where
  "notices es = List.map_filter notice_of es"

lemma notices_simps [simp]:
  "notices [] = []" "notices (es @ fs) = notices es @ notices fs"
  "notices (e # es) = (case notice_of e of None \<Rightarrow> notices es | Some n \<Rightarrow> n # notices es)"
  by (simp_all add: notices_def List.map_filter_def split: option.split)

text \<open>What the events make of a snapshot that handler \<open>h\<close> feeds.\<close>

fun notice_snapshot :: "nat \<Rightarrow> nat \<times> unsolicited_event \<Rightarrow> mailbox_info \<Rightarrow> mailbox_info" where
  "notice_snapshot h (h', ev) m = (if h' = h then snapshot_event ev m else m)"

definition snapshot_after :: "nat \<Rightarrow> event list \<Rightarrow> mailbox_info \<Rightarrow> mailbox_info" where
  "snapshot_after h es m = fold (notice_snapshot h) (notices es) m"

lemma snapshot_after_simps [simp]:
  "snapshot_after h [] m = m" "snapshot_after h (es @ fs) m = snapshot_after h fs (snapshot_after h es m)"
  "snapshot_after h (e # es) m =
     snapshot_after h es (case notice_of e of None \<Rightarrow> m | Some n \<Rightarrow> notice_snapshot h n m)"
  by (simp_all add: snapshot_after_def split: option.split)

lemma snapshot_after_quiet: "notices es = [] \<Longrightarrow> snapshot_after h es m = m"
  by (simp add: snapshot_after_def)

section \<open>An action pushes or completes\<close>

lemma notices_shots [simp]:
  "notices (snd (deliver_value ec res c)) = []" "notices (snd (deliver_stopped c)) = []"
  "notices (snd (op_fail ec c)) = []" "notices (snd (op_complete_stopped c)) = []" "notices (snd (op_on_tagged r c)) = []"
  by (simp_all add: deliver_value_def deliver_stopped_def op_fail_def op_complete_stopped_def op_on_tagged_def
      split: prod.split)

lemma notices_many [simp]:
  "notices (concat (map (\<lambda>c. snd (op_fail ec c)) cs)) = []" "notices (map (\<lambda>c. Dropped (op_id c)) cs) = []"
  by (induction cs) simp_all

lemma notices_basic [simp]:
  "notices (trace (fail_cells ec cs s)) = notices (trace s)" "notices (trace (drop_cells cs s)) = notices (trace s)"
  "notices (trace (maybe_finish_close s)) = notices (trace s)"
  by (simp_all add: fail_cells_def drop_cells_def maybe_finish_close_def)

lemma notices_posts [simp]:
  "notices (trace (connection_lost ec s)) = notices (trace s)" "notices (trace (post_kick f s)) = notices (trace s)"
  "notices (trace (post_complete_stopped f c s)) = notices (trace s)"
  "notices (trace (stopped_receiver n s)) = notices (trace s)"
  by (simp_all add: connection_lost_def take_cells_locked_def post_kick_def post_complete_stopped_def stopped_receiver_def
      Let_def split: list.split)

lemma notices_fold_posts [simp]: "notices (trace (fold (post_complete_stopped f) cs s)) = notices (trace s)"
  by (induction cs arbitrary: s) simp_all

lemma notices_write [simp]:
  "notices (trace (arm_write f ids s)) = notices (trace s)"
  "notices (trace (on_write_done f ec ids s)) = notices (trace s)"
  "notices (trace (kick_receiver ec s)) = notices (trace s)"
  by (auto simp: arm_write_def on_write_done_def kick_receiver_def Let_def kick_trace split: prod.splits
      dest!: extract_trace flush_staged_trace)

lemma notices_write_receiver [simp]: "notices (trace (write_receiver f ec s)) = notices (trace s)"
  by (simp add: write_receiver_def split: option.split prod.split)

lemma notices_read [simp]:
  "notices (trace (on_read_stop s)) = notices (trace s)" "notices (trace (on_read_rearm f s)) = notices (trace s)"
  "notices (trace (read_receiver ops ec chunk s)) = notices (trace s)"
  by (simp_all add: on_read_stop_def on_read_rearm_def arm_pump_def read_receiver_def on_read_def on_read_lost_def Let_def)

lemma notices_calls:
  "submit f a s = Some (b, s') \<Longrightarrow> notices (trace s') = notices (trace s)"
  "cancel f t s = Some s' \<Longrightarrow> notices (trace s') = notices (trace s)"
  by (auto simp: submit_def make_cell_def enqueue_operation_def allocate_tag_def cancel_def cancel_entry_def
      find_and_detach_locked_def detach_locked_def finish_cancellation_def Let_def
      split: prod.splits if_splits option.splits dest!: extract_one_trace)

text \<open>A round either pushes, and then completes nothing, or it pushes nothing.\<close>

definition unmixed :: "'b core \<Rightarrow> 'b core \<Rightarrow> bool" where
  "unmixed s s' \<longleftrightarrow> notices (trace s') = notices (trace s) \<or> terminals (trace s') = terminals (trace s)"

lemma dispatch_unmixed: "dispatch f msg s = Some (ok, s') \<Longrightarrow> unmixed s s'"
  by (auto simp: dispatch_def dispatch_tagged_def dispatch_untagged_def dispatch_continuation_def Let_def unmixed_def
      split: option.splits server_response.splits prod.splits if_splits dest!: broadcast_trace extract_one_trace)

lemma read_round_unmixed:
  assumes "read_round ops f s = Some s'"
  shows "unmixed s s'"
proof -
  obtain lx r where n: "next_complete_response (framer s) (data_of ops (read_buffer s)) = Some (lx, r)"
    using assms by (auto simp: read_round_def split: option.splits)
  show ?thesis
  proof (cases r)
    case None
    then show ?thesis using assms n by (auto simp: read_round_def unmixed_def)
  next
    case (Some msg)
    obtain ok s1 lx' b' where d: "dispatch f msg (s\<lparr>framer := lx\<rparr>) = Some (ok, s1)"
      "s' = (if ok then s1\<lparr>framer := lx', read_buffer := b'\<rparr>
             else on_read_stop (s1\<lparr>framer := lx', read_buffer := b', reading := False\<rparr>))"
      using assms n Some by (auto simp: read_round_def Let_def split: option.splits prod.splits)
    have "terminals (trace (on_read_stop t)) = terminals (trace t)" for t :: "'a core"
      by (simp add: on_read_stop_def maybe_finish_close_def)
    then show ?thesis using dispatch_unmixed [OF d(1)] unfolding d(2) by (simp add: unmixed_def)
  qed
qed

lemma context_step_unmixed: "environment a \<Longrightarrow> context_step ops a s = Inr (u, s') \<Longrightarrow> unmixed s s'"
  by (cases a) (auto simp: context_step_def unmixed_def [where s' = "s'"] dest: read_round_unmixed split: option.splits)

section \<open>The captured snapshot\<close>

fun captured :: "successor \<Rightarrow> (mailbox_info \<times> nat) option" where
  "captured (Rebuild_selected m h) = Some (m, h)"
| "captured (Capability_successor inner) = captured inner"
| "captured (Query_successor inner) = captured inner"
| "captured _ = None"

lemma captured_push: "captured (push_snapshot h ev s) = map_option (\<lambda>(m, h'). (notice_snapshot h' (h, ev) m, h')) (captured s)"
  by (induction s) simp_all

text \<open>A connection whose context has gone on since \<open>k0\<close>, and a factory that has caught every push.\<close>

definition catching :: "'b buffer_ops \<Rightarrow> 'b core \<Rightarrow> mailbox_info \<Rightarrow> nat \<Rightarrow> 'b connection \<Rightarrow> successor \<Rightarrow> bool" where
  "catching ops k0 m h c s \<longleftrightarrow>
     (\<exists>k es. conn_context c = Some k \<and> living ops k \<and> trace k = trace k0 @ es \<and>
        captured s = Some (snapshot_after h es m, h))"

text \<open>A completion whose Selected state has all of them.\<close>

definition caught :: "'b core \<Rightarrow> mailbox_info \<Rightarrow> nat \<Rightarrow> 'b completion \<Rightarrow> bool" where
  "caught k0 m h x \<longleftrightarrow>
     (\<forall>ec out c' m' h'. x = Set_value ec out (Selected c' m' h') \<longrightarrow>
        (\<exists>k' es. conn_context c' = Some k' \<and> trace k' = trace k0 @ es \<and> m' = snapshot_after h es m))"

definition snap_inv :: "'b buffer_ops \<Rightarrow> 'b core \<Rightarrow> mailbox_info \<Rightarrow> nat \<Rightarrow> 'b state_op \<Rightarrow> bool" where
  "snap_inv ops k0 m h op \<longleftrightarrow>
     (\<not> so_claimed op \<longrightarrow> catching ops k0 m h (so_connection op) (so_successor op)) \<and>
     list_all (caught k0 m h) (completions (so_log op))"

lemma caught_stopped [simp]: "caught k0 m h Set_stopped"
  by (simp add: caught_def)

lemma complete_with_captured:
  "complete_with oom s ec c res = Inr (out, Selected c' m' h', d) \<Longrightarrow> captured s = Some (m, h) \<Longrightarrow> m' = m"
proof (induction s arbitrary: c out)
  case (Rebuild_selected m1 h1)
  then obtain st where st: "selected_state c m1 = Inr st" "Selected c' m' h' = drop_registration h1 st"
    by (auto simp: proceed_Inr)
  obtain c0 h0 where "st = Selected c0 m1 h0" using selected_relistened [OF st(1)] by blast
  then show ?case using st(2) Rebuild_selected(2) by (simp add: drop_registration_def)
qed (auto simp: proceed_Inr)

lemma so_complete_caught:
  assumes e: "so_complete_with oom ec res op = Inr op'" and c: "catching ops k0 m h (so_connection op) (so_successor op)"
    and l: "list_all (caught k0 m h) (completions (so_log op))"
  shows "list_all (caught k0 m h) (completions (so_log op')) \<and> so_claimed op' = so_claimed op"
proof -
  obtain out st d l' where w: "complete_with oom (so_successor op) ec (so_connection op) res = Inr (out, st, d)"
    and op': "op' = so_observe [Completed (Set_value ec out st)] (op\<lparr>so_connection := l', so_detained := d\<rparr>)"
    using e by (auto simp: so_complete_with_def move_connection_def elim!: proceed_InrE split: if_splits)
  obtain k es where k: "conn_context (so_connection op) = Some k" "trace k = trace k0 @ es"
    "captured (so_successor op) = Some (snapshot_after h es m, h)" using c by (auto simp: catching_def)
  have "caught k0 m h (Set_value ec out st)"
    unfolding caught_def
  proof (intro allI impI)
    fix ec' out' c' m' h' assume "Set_value ec out st = Set_value ec' out' (Selected c' m' h')"
    then have st: "st = Selected c' m' h'" by simp
    have "relistened ops (so_connection op) c'" by (rule complete_with_relistened [OF w]) (simp add: st)
    then obtain k' u where "conn_context c' = Some k'" "k' = k\<lparr>unsolicited := u\<rparr>"
      using k(1) by (cases "conn_context c'") (auto simp: relistened_def)
    then show "\<exists>k' es. conn_context c' = Some k' \<and> trace k' = trace k0 @ es \<and> m' = snapshot_after h es m"
      using complete_with_captured [OF w [unfolded st] k(3)] k(2) by auto
  qed
  then show ?thesis using l unfolding op' by (simp add: so_observe_def so_claimed_def)
qed

lemma quiet_event_caught:
  assumes i: "snap_inv ops k0 m h op" and e: "so_event oom ev op = Inr op'" "notice_of ev = None"
  shows "snap_inv ops k0 m h op'"
proof (cases "\<exists>i ec res. ev = Value_delivered i ec res \<and> so_cell op = Some i \<and> \<not> so_completed op")
  case True
  then obtain i ec res where ev: "ev = Value_delivered i ec res" "so_cell op = Some i" "\<not> so_completed op" by blast
  let ?op = "op\<lparr>so_completed := True, so_stop_callback := False, so_connection := finish_operation (so_connection op)\<rparr>"
  have "so_complete_with oom ec res ?op = Inr op'" using e(1) ev by (simp add: so_on_result_def)
  moreover have "catching ops k0 m h (so_connection ?op) (so_successor ?op)"
    using i ev by (simp add: snap_inv_def so_claimed_def catching_def finish_operation_def)
  ultimately have "list_all (caught k0 m h) (completions (so_log op')) \<and> so_claimed op' = so_claimed ?op"
    by (rule so_complete_caught) (use i in \<open>simp add: snap_inv_def\<close>)
  then show ?thesis by (simp add: snap_inv_def so_claimed_def)
next
  case False
  then have "op' = op" using e by (cases ev) (auto simp: so_on_result_def split: if_splits)
  then show ?thesis using i by simp
qed

lemma quiet_events_caught:
  "snap_inv ops k0 m h op \<Longrightarrow> so_events oom evs op = Inr op' \<Longrightarrow> notices evs = [] \<Longrightarrow> snap_inv ops k0 m h op'"
  by (induction evs arbitrary: op) (auto simp: proceed_Inr split: option.splits dest: quiet_event_caught)

lemma pushing_events:
  "terminals evs = [] \<Longrightarrow> \<exists>s. so_events oom evs op = Inr (op\<lparr>so_successor := s\<rparr>) \<and>
     captured s = map_option (\<lambda>(m, h). (snapshot_after h evs m, h)) (captured (so_successor op))"
proof (induction evs arbitrary: op)
  case (Cons ev evs)
  have t: "terminals evs = []" "terminal_id ev = None" using Cons(2) by (auto split: option.splits)
  obtain s where s: "so_event oom ev op = Inr (op\<lparr>so_successor := s\<rparr>)"
    "captured s = map_option (\<lambda>(m, h). (snapshot_after h [ev] m, h)) (captured (so_successor op))"
    using t(2) by (cases ev) (auto simp: captured_push option.map_ident split_def intro: that [of "so_successor op"])
  obtain s' where "so_events oom evs (op\<lparr>so_successor := s\<rparr>) = Inr (op\<lparr>so_successor := s'\<rparr>)"
    "captured s' = map_option (\<lambda>(m, h). (snapshot_after h evs m, h)) (captured s)"
    using Cons(1) [OF t(1), of "op\<lparr>so_successor := s\<rparr>"] by auto
  then show ?case using s by (intro exI [of _ s']) (simp add: option.map_comp o_def split_def)
next
  case Nil
  have "op = op\<lparr>so_successor := so_successor op\<rparr>" by simp
  then show ?case by (intro exI [of _ "so_successor op"]) (simp add: option.map_ident split_def)
qed

text \<open>After the claim the handlers feed the snapshot at most.\<close>

lemma so_events_claimed: "so_claimed op \<Longrightarrow> \<exists>s. so_events oom evs op = Inr (op\<lparr>so_successor := s\<rparr>)"
proof (induction evs arbitrary: op)
  case (Cons ev evs)
  obtain s where "so_event oom ev op = Inr (op\<lparr>so_successor := s\<rparr>)"
    using Cons(2) by (cases ev) (auto simp: so_on_result_def so_claimed_def intro: that [of "so_successor op"])
  then show ?case using Cons(1) [of "op\<lparr>so_successor := s\<rparr>"] Cons(2) by (auto simp: so_claimed_def)
next
  case Nil
  then show ?case by (auto intro: exI [of _ "so_successor op"])
qed

text \<open>A call on the context and the handlers of its events.\<close>

lemma caught_call:
  assumes i: "\<not> so_claimed op \<Longrightarrow> catching ops k0 m h c0 (so_successor op)"
      "list_all (caught k0 m h) (completions (so_log op))"
    and w: "with_context g c0 = Inr (x, evs, c)" "so_connection op = c"
    and g: "\<And>k k'. conn_context c0 = Some k \<Longrightarrow> living ops k \<Longrightarrow> g k = Inr (x, k') \<Longrightarrow> living ops k' \<and> grows k k'"
      "\<And>k k'. conn_context c0 = Some k \<Longrightarrow> g k = Inr (x, k') \<Longrightarrow> unmixed k k'"
    and e: "so_events oom evs op = Inr op'"
  shows "snap_inv ops k0 m h op'"
proof (cases "so_claimed op")
  case True
  then obtain s where "op' = op\<lparr>so_successor := s\<rparr>" using so_events_claimed [OF True, of oom evs] e by auto
  then show ?thesis using i(2) True by (simp add: snap_inv_def so_claimed_def)
next
  case False
  then obtain k es where k: "conn_context c0 = Some k" "living ops k" "trace k = trace k0 @ es"
    "captured (so_successor op) = Some (snapshot_after h es m, h)" using i(1) by (auto simp: catching_def)
  obtain k' where k': "g k = Inr (x, k')" "evs = drop (length (trace k)) (trace k')" "c = c0\<lparr>conn_context := Some k'\<rparr>"
    using w(1) k(1) by (auto elim!: with_contextE)
  have l: "living ops k'" "trace k' = trace k @ evs" using g(1) [OF k(1,2) k'(1)] k'(2) by (auto simp: grows_def)
  consider "notices evs = []" | "terminals evs = []" using g(2) [OF k(1) k'(1)] l(2) by (auto simp: unmixed_def)
  then show ?thesis
  proof cases
    case 1
    have "catching ops k0 m h (so_connection op) (so_successor op)"
      unfolding catching_def using k k' l 1 w(2)
      by (intro exI [of _ k'] exI [of _ "es @ evs"]) (simp add: snapshot_after_quiet)
    then have "snap_inv ops k0 m h op" using i(2) by (simp add: snap_inv_def)
    then show ?thesis using quiet_events_caught e 1 by blast
  next
    case 2
    from pushing_events [OF this, of oom op] obtain s where s: "op' = op\<lparr>so_successor := s\<rparr>"
      "captured s = Some (snapshot_after h (es @ evs) m, h)" using e k(4) by auto
    have "catching ops k0 m h (so_connection op) s"
      unfolding catching_def using k k' l s(2) w(2) by (intro exI [of _ k'] exI [of _ "es @ evs"]) simp
    then show ?thesis using i(2) s(1) by (simp add: snap_inv_def)
  qed
qed

lemma calls_unmixed:
  "submit_to f a k = Inr (x, k') \<Longrightarrow> unmixed k k'" "flush_to f k = Inr (u, k') \<Longrightarrow> unmixed k k'"
  "cancel_to f tag k = Inr (u, k') \<Longrightarrow> unmixed k k'"
  by (auto simp: submit_to_def flush_to_def cancel_to_def flush_def unmixed_def notices_calls
      split: option.splits if_splits)

lemma snap_frame [simp]:
  "snap_inv ops k0 m h (so_observe [Late_access] op) = snap_inv ops k0 m h op"
  "snap_inv ops k0 m h (so_observe [] op) = snap_inv ops k0 m h op"
  "snap_inv ops k0 m h (op\<lparr>so_tag := t\<rparr>) = snap_inv ops k0 m h op"
  "snap_inv ops k0 m h (op\<lparr>so_stop_callback := cb\<rparr>) = snap_inv ops k0 m h op"
  by (simp_all add: snap_inv_def so_observe_def so_claimed_def)

lemma catching_frame [simp]:
  "catching ops k0 m h (finish_operation c) s = catching ops k0 m h c s"
  "catching ops k0 m h (c\<lparr>conn_busy := b\<rparr>) s = catching ops k0 m h c s"
  by (simp_all add: catching_def finish_operation_def)

lemma so_start_caught:
  assumes i: "so_inv ops sd op" "snap_inv ops k0 m h op" "\<not> so_started op" and e: "so_start oom f stop op = Inr op'"
  shows "snap_inv ops k0 m h op'"
proof -
  let ?c = "(so_connection op)\<lparr>conn_busy := True\<rparr>"
  have fresh: "completions (so_log op) = []" "so_cell op = None" "\<not> so_completed op"
    "catching ops k0 m h ?c (so_successor op)" using i by (auto simp: so_inv_def so_claimed_def snap_inv_def)
  have busy: "\<not> conn_busy (so_connection op)" using e by (auto simp: so_start_def try_start_operation_def Let_def)
  consider (stop) stop | (gate) "\<not> stop" "so_required op \<noteq> []" "\<not> cap_contains (conn_capabilities ?c) (so_required op)"
    | (go) "\<not> stop" "\<not> (so_required op \<noteq> [] \<and> \<not> cap_contains (conn_capabilities ?c) (so_required op))" by blast
  then show ?thesis
  proof cases
    case stop
    then show ?thesis using e fresh busy
      by (auto simp: so_start_def try_start_operation_def snap_inv_def so_observe_def so_claimed_def)
  next
    case gate
    then have "so_complete_with oom (Errc Capability_required) (default_result (so_command op))
        (op\<lparr>so_started := True, so_connection := finish_operation ?c\<rparr>) = Inr op'"
      using e busy by (simp add: so_start_def try_start_operation_def)
    from so_complete_caught [OF this, of ops k0 m h] show ?thesis using fresh by (simp add: snap_inv_def so_claimed_def)
  next
    case go
    obtain tag n evs c1 op1 where 1: "with_context (submit_to f (so_command op)) ?c = Inr ((tag, n), evs, c1)"
      "so_events oom evs (op\<lparr>so_started := True, so_connection := c1, so_cell := Some n\<rparr>) = Inr op1"
      "(if so_completed op1 then Inr (so_observe [Late_access] (op1\<lparr>so_tag := tag, so_stop_callback := True\<rparr>))
        else proceed (with_context (flush_to f) (so_connection op1)) (\<lambda>(_, evs', c2).
          proceed (so_events oom evs' (op1\<lparr>so_tag := tag, so_connection := c2\<rparr>)) (\<lambda>op2.
            Inr (so_observe (if so_completed op2 then [Late_access] else []) (op2\<lparr>so_stop_callback := True\<rparr>))))) = Inr op'"
      using e go busy by (auto simp: so_start_def try_start_operation_def proceed_Inr)
    have o: "snap_inv ops k0 m h op1"
      by (rule caught_call [OF _ _ 1(1) _ calls_ok(1) calls_unmixed(1) 1(2)]) (use fresh in simp_all)
    have c: "so_cell op1 = Some n" using so_submitted_inv [OF i(1,3) 1(1) _ refl 1(2)] by simp
    show ?thesis
    proof (cases "so_completed op1")
      case False
      obtain evs' c2 op2 where 2: "with_context (flush_to f) (so_connection op1) = Inr ((), evs', c2)"
        "so_events oom evs' (op1\<lparr>so_tag := tag, so_connection := c2\<rparr>) = Inr op2"
        "op' = so_observe (if so_completed op2 then [Late_access] else []) (op2\<lparr>so_stop_callback := True\<rparr>)"
        using 1(3) False by (fastforce elim!: proceed_InrE)
      have "snap_inv ops k0 m h op2"
        by (rule caught_call [OF _ _ 2(1) _ calls_ok(2) calls_unmixed(2) 2(2)])
          (use o c in \<open>simp_all add: snap_inv_def so_claimed_def\<close>)
      then show ?thesis using 2(3) by simp
    qed (use 1(3) o in auto)
  qed
qed

lemma so_stop_caught:
  assumes i: "snap_inv ops k0 m h op" and e: "so_stop oom f op = Inr op'"
  shows "snap_inv ops k0 m h op'"
proof (cases "so_completed op")
  case False
  obtain evs c op1 where 1: "so_events oom evs (op\<lparr>so_completed := True, so_connection := c\<rparr>) = Inr op1"
    "op' = post_stopped_delivery oom (op1\<lparr>so_connection := finish_operation (so_connection op1), so_stop_callback := False\<rparr>)"
    using e False by (fastforce simp: so_stop_def elim!: proceed_InrE)
  have "so_completed op1 \<and> so_log op1 = so_log op"
    using so_events_completed [of "op\<lparr>so_completed := True, so_connection := c\<rparr>" oom evs] 1(1) by auto
  then show ?thesis using i unfolding 1(2)
    by (simp add: snap_inv_def post_stopped_delivery_def so_claimed_def so_observe_def)
qed (use e i in \<open>simp add: so_stop_def\<close>)

lemma so_step_caught:
  assumes i: "so_inv ops sd op" "snap_inv ops k0 m h op" and "so_step ops op op'"
  shows "snap_inv ops k0 m h op'"
proof -
  obtain a oom where e: "so_enabled a op" "so_perform ops oom a op = Inr op'" using assms(3) by (auto simp: so_step_def)
  show ?thesis
  proof (cases a)
    case (Op_start f stop)
    then show ?thesis using so_start_caught [OF i] e by simp
  next
    case (Op_stop f)
    then show ?thesis using so_stop_caught [OF i(2)] e by simp
  next
    case Op_posted
    then show ?thesis using e i by (auto simp: so_run_posted_def snap_inv_def so_observe_def so_inv_def so_claimed_def)
  next
    case (Op_context b)
    obtain k where k: "conn_context (so_connection op) = Some k" "environment b" "enabled b k"
      using e Op_context by (auto simp: context_enabled_def split: option.splits)
    obtain evs c where w: "with_context (context_step ops b) (so_connection op) = Inr ((), evs, c)"
      "so_events oom evs (op\<lparr>so_connection := c\<rparr>) = Inr op'"
      using e Op_context by (fastforce simp: so_context_def elim!: proceed_InrE)
    show ?thesis
      by (rule caught_call [OF _ _ w(1) _ _ _ w(2)])
        (use i k in \<open>auto simp: snap_inv_def so_claimed_def intro: context_step_unmixed dest: calls_ok(4)\<close>)
  qed
qed

section \<open>Properties\<close>

lemma selected_captured:
  "captured (sd_successor (selected_op call c m h)) = Some (m, h) \<or>
   (\<forall>ok. kind_after (sd_successor (selected_op call c m h)) ok \<noteq> In_selected)"
  by (cases call) (simp_all add: sender_defs)


text \<open>A NOOP that collects a push.\<close>

definition mailbox_open :: "octets session" where
  "mailbox_open = projr (selected_state sample_connection default_mailbox_info)"

definition noop_sender :: "octets sender" where
  "noop_sender = the (session_sender mailbox_open (Se Se_noop))"

definition noop_run :: "octets state_op" where
  "noop_run = so_after (round_trip (''* 5 EXISTS'' @ CRLF @ ''a0001 OK done'' @ CRLF) @ [Op_context (Read_round calm)]) noop_sender"


end
