(* ===== verification/Watch.thy ===== *)
theory Watch
  imports Living
begin

text \<open>
  Watching cells through the engine. A watch has a condition on the queued cells, one on the cells
  whose stop completion is posted, and one on the events. The locale \<open>cell_watch\<close> says which laws of
  the cells make every action of the environment keep it; \<open>full_watch\<close> adds the laws for the calls.
\<close>

section \<open>The conditions\<close>

definition watched :: "(cell \<Rightarrow> bool) \<Rightarrow> (cell \<Rightarrow> bool) \<Rightarrow> (event \<Rightarrow> bool) \<Rightarrow> 'b core \<Rightarrow> bool" where
  "watched good posted fine s \<longleftrightarrow>
     list_all good (write_queue s) \<and> list_all posted (posted_stops s) \<and> list_all fine (trace s)"

locale cell_watch =
  fixes good :: "cell \<Rightarrow> bool" and posted :: "cell \<Rightarrow> bool" and fine :: "event \<Rightarrow> bool"
  assumes neutral: "terminal_id e = None \<Longrightarrow> fine e"
    and staged: "good c \<Longrightarrow> good (c\<lparr>op_staged := b\<rparr>)"
    and flushed: "good c \<Longrightarrow> good (c\<lparr>op_has_written := b\<rparr>)"
    and progressed: "good c \<Longrightarrow> good (c\<lparr>op_command := cmd\<rparr>)"
    and failed: "good c \<Longrightarrow> list_all fine (snd (op_fail ec c))"
    and answered: "good c \<Longrightarrow> list_all fine (snd (op_on_tagged r c))"
    and retired: "good c \<Longrightarrow> op_detached c \<Longrightarrow> posted c"
    and stopped: "posted c \<Longrightarrow> list_all fine (snd (op_complete_stopped c))"
begin

abbreviation watch :: "'b core \<Rightarrow> bool" where
  "watch \<equiv> watched good posted fine"

lemma watch_frame [simp]:
  "watch (s\<lparr>phase := p\<rparr>) = watch s" "watch (s\<lparr>registry := r\<rparr>) = watch s" "watch (s\<lparr>write_staging := b\<rparr>) = watch s"
  "watch (s\<lparr>write_in_flight := d\<rparr>) = watch s" "watch (s\<lparr>kick_posted := d\<rparr>) = watch s"
  "watch (s\<lparr>continuation_target := t\<rparr>) = watch s" "watch (s\<lparr>read_buffer := rb\<rparr>) = watch s"
  "watch (s\<lparr>framer := l\<rparr>) = watch s" "watch (s\<lparr>read_running := d\<rparr>) = watch s" "watch (s\<lparr>bye_received := d\<rparr>) = watch s"
  "watch (s\<lparr>armed_read := d\<rparr>) = watch s" "watch (s\<lparr>reading := d\<rparr>) = watch s" "watch (s\<lparr>armed_write := w\<rparr>) = watch s"
  "watch (s\<lparr>arming := ar\<rparr>) = watch s" "watch (s\<lparr>suspend_read := d\<rparr>) = watch s" "watch (s\<lparr>abandoned := d\<rparr>) = watch s"
  "watch (s\<lparr>unsolicited := u\<rparr>) = watch s" "watch (s\<lparr>tag_counter := n\<rparr>) = watch s" "watch (s\<lparr>next_id := n\<rparr>) = watch s"
  by (simp_all add: watched_def)

lemma watch_emit: "watch s \<Longrightarrow> list_all fine es \<Longrightarrow> watch (emit es s)"
  by (simp add: watched_def)

lemma watch_finish: "watch s \<Longrightarrow> watch (maybe_finish_close s)"
  by (simp add: maybe_finish_close_def watch_emit neutral)

lemma fail_many: "list_all good cs \<Longrightarrow> list_all fine (concat (map (\<lambda>c. snd (op_fail ec c)) cs))"
  by (induction cs) (simp_all add: failed)

lemma watch_fail: "watch s \<Longrightarrow> list_all good cs \<Longrightarrow> watch (fail_cells ec cs s)"
  unfolding fail_cells_def by (intro watch_emit fail_many)

lemma list_all_filter: "list_all P xs \<Longrightarrow> list_all P (filter Q xs)"
  by (simp add: list_all_iff)

lemma watch_lost: "watch s \<Longrightarrow> watch (connection_lost ec s)"
proof (cases "phase s = Phase_closed")
  case False
  assume w: "watch s"
  then have "watch (s\<lparr>write_queue := filter op_staged (write_queue s)\<rparr>)" "list_all good (filter (\<lambda>c. \<not> op_staged c) (write_queue s))"
    by (simp_all add: watched_def list_all_filter)
  then show ?thesis
    unfolding connection_lost_eq [OF False] by (intro watch_finish watch_fail watch_emit) (auto simp: neutral watched_def)
qed (simp add: connection_lost_def)

lemma watch_kick_posted: "watch s \<Longrightarrow> watch (post_kick f s)"
  by (simp add: post_kick_def watch_lost)

lemma watch_stop_posted: "watch s \<Longrightarrow> posted c \<Longrightarrow> watch (post_complete_stopped f c s)"
  by (simp add: post_complete_stopped_def watch_emit stopped) (simp add: watched_def)

lemma watch_stops_posted: "watch s \<Longrightarrow> list_all posted cs \<Longrightarrow> watch (fold (post_complete_stopped f) cs s)"
  by (induction cs arbitrary: s) (simp_all add: watch_stop_posted)

lemma watch_stopped_receiver: "watch s \<Longrightarrow> watch (stopped_receiver n s)"
proof (cases "drop n (posted_stops s)")
  case (Cons c later)
  assume w: "watch s"
  have "posted_stops s = take n (posted_stops s) @ c # later" using Cons by (metis append_take_drop_id)
  then have "list_all posted (take n (posted_stops s) @ c # later)" using w by (simp add: watched_def)
  then have "posted c" "watch (s\<lparr>posted_stops := take n (posted_stops s) @ later\<rparr>)" using w by (simp_all add: watched_def)
  then show ?thesis using Cons by (simp add: stopped_receiver_def watch_emit stopped)
qed (simp add: stopped_receiver_def)

lemma watch_update: "watch s \<Longrightarrow> (\<And>c. good c \<Longrightarrow> good (g c)) \<Longrightarrow> watch (update_cell i g s)"
  by (auto simp: watched_def update_cell_def on_cell_def list_all_iff)

lemma watch_splice: "splice_cell i cs = (r, cs') \<Longrightarrow> list_all good cs \<Longrightarrow> list_all good cs' \<and> pred_option good r"
  by (induction cs arbitrary: r cs') (auto split: if_splits prod.splits)

lemma watch_extract: "extract_from_queue_locked i s = (r, s') \<Longrightarrow> watch s \<Longrightarrow> watch s' \<and> pred_option good r"
  using watch_splice by (fastforce simp: extract_from_queue_locked_def watched_def split: prod.splits)

lemma watch_extract_staged: "extract_staged ids s = (cs, s') \<Longrightarrow> watch s \<Longrightarrow> watch s' \<and> list_all good cs"
proof (induction ids arbitrary: s cs s')
  case (Cons i ids)
  obtain r s1 where 1: "extract_from_queue_locked i s = (r, s1)" by fastforce
  have 2: "watch s1 \<and> pred_option good r" using watch_extract [OF 1 Cons(3)] .
  show ?case using Cons(1) [of s1] Cons(2) 1 2 by (cases r) (auto split: prod.splits)
qed simp

lemma watch_staging: "stage_cells q = (b, ids, t, q') \<Longrightarrow> list_all good q \<Longrightarrow> list_all good q'"
proof -
  assume "stage_cells q = (b, ids, t, q')" and g: "list_all good q"
  then have "list_all2 (staged_into ids) q q'" using stage_cells_spec by blast
  then show ?thesis using g
    by (induction rule: list_all2_induct) (auto simp: staged_into_def op_on_segment_staged_def staged)
qed

lemma watch_kick: "watch s \<Longrightarrow> watch (kick s)"
  by (auto simp: kick_def Let_def watched_def dest: watch_staging split: prod.split)

lemma watch_arm_write:
  assumes "watch s" "\<not> abandoned s"
  shows "watch (arm_write f ids s)"
proof -
  obtain cs s1 where e: "extract_staged ids (s\<lparr>arming := None\<rparr>) = (cs, s1)" by fastforce
  have "watch s1 \<and> list_all good cs" using watch_extract_staged [OF e] assms(1) by simp
  then show ?thesis using assms e by (simp add: arm_write_def Let_def watch_finish watch_fail watch_lost)
qed

end

lemma splice_updated:
  assumes "find_cell i s = Some c0" "\<And>c. op_id (g c) = op_id c"
  shows "fst (extract_from_queue_locked i (update_cell i g s)) = Some (g c0)"
proof -
  have "fst (splice_cell i (on_cell i g q)) = Some (g c0)" if "List.find (\<lambda>c. op_id c = i) q = Some c0" for q
    using that assms(2) by (induction q) (auto simp: on_cell_def split: if_splits prod.split)
  then show ?thesis using assms(1)
    by (simp add: find_cell_def extract_from_queue_locked_def update_cell_def split_def)
qed

context cell_watch
begin

lemma flushed_good: "good c \<Longrightarrow> good (op_on_segment_flushed c)"
  unfolding op_on_segment_flushed_def by (intro staged flushed progressed)

lemma watch_flush_staged: "flush_staged ids s = (cs, s') \<Longrightarrow> watch s \<Longrightarrow> watch s' \<and> list_all posted cs"
proof (induction ids arbitrary: s cs s')
  case (Cons i ids)
  show ?case
  proof (cases "find_cell i s")
    case None
    then show ?thesis using Cons by simp
  next
    case (Some c0)
    let ?c = "op_on_segment_flushed c0"
    define s2 where "s2 = (if op_awaits_continuation ?c
      then (update_cell i op_on_segment_flushed s)\<lparr>continuation_target := Some i\<rparr> else update_cell i op_on_segment_flushed s)"
    have w: "watch s2" using watch_update [OF Cons(3), of op_on_segment_flushed i] flushed_good by (simp add: s2_def)
    have x: "fst (extract_from_queue_locked i s2) = Some ?c"
      using splice_updated [OF Some, of op_on_segment_flushed]
      by (auto simp: s2_def op_on_segment_flushed_def extract_from_queue_locked_def split: prod.splits)
    then obtain s3 where s3: "extract_from_queue_locked i s2 = (Some ?c, s3)" by (cases "extract_from_queue_locked i s2") auto
    have w3: "watch s3" "good ?c" using watch_extract [OF s3 w] by simp_all
    show ?thesis
    proof (cases "op_detached ?c \<and> op_is_written ?c")
      case True
      then obtain cs1 where 1: "flush_staged ids s3 = (cs1, s')" "cs = ?c # cs1"
        using Cons(2) Some s3 by (auto simp: Let_def s2_def [symmetric] split: prod.splits)
      then show ?thesis using Cons(1) [OF 1(1) w3(1)] retired [OF w3(2)] True by simp
    next
      case False
      then have "flush_staged ids s2 = (cs, s')" using Cons(2) Some by (auto simp: Let_def s2_def split: if_splits)
      then show ?thesis using Cons(1) w by blast
    qed
  qed
qed simp

lemma watch_write_done:
  assumes "watch s" "\<not> abandoned s"
  shows "watch (on_write_done f ec ids s)"
proof -
  let ?s = "s\<lparr>write_in_flight := False\<rparr>"
  obtain cs s1 where e: "extract_staged ids ?s = (cs, s1)" by fastforce
  obtain ds s2 where d: "flush_staged ids ?s = (ds, s2)" by fastforce
  have "watch s1 \<and> list_all good cs" "watch s2 \<and> list_all posted ds"
    using watch_extract_staged [OF e] watch_flush_staged [OF d] assms(1) by simp_all
  moreover have "\<not> abandoned s1" using extract_abandoned [OF e] assms(2) by simp
  ultimately show ?thesis using assms e d
    by (simp add: on_write_done_def Let_def watch_finish watch_fail watch_lost watch_kick watch_stops_posted)
qed

lemma watch_offer: "offer r q = Some q' \<Longrightarrow> list_all good q \<Longrightarrow> list_all good q'"
  by (induction q arbitrary: q') (auto simp: op_on_untagged_def progressed split: if_splits)

lemma watch_broadcast: "broadcast r is s = Some s' \<Longrightarrow> watch s \<Longrightarrow> watch s'"
proof (induction r "is" s rule: broadcast.induct)
  case (2 r i "is" s)
  obtain c c' where c: "find_cell i s = Some c" "op_on_untagged r c = Some c'"
    "broadcast r is (update_cell i (\<lambda>_. c') s) = Some s'" using 2(2) by (auto split: option.splits)
  have "c \<in> set (write_queue s)" using c(1) by (auto simp: find_cell_def find_Some_iff)
  then have "good c" using 2(3) by (auto simp: watched_def list_all_iff)
  then have "good c'" using c(2) by (auto simp: op_on_untagged_def progressed)
  then have "watch (update_cell i (\<lambda>_. c') s)" by (intro watch_update [OF 2(3)])
  then show ?case using 2(1) c by blast
qed simp

lemma watch_tagged: "watch s \<Longrightarrow> watch (snd (dispatch_tagged r s))"
proof -
  assume w: "watch s"
  show ?thesis
  proof (cases "map_of (registry s) (tr_tag r)")
    case (Some i)
    let ?s1 = "s\<lparr>registry := reg_erase (tr_tag r) (registry s),
      continuation_target := (if continuation_target s = Some i then None else continuation_target s)\<rparr>"
    obtain x s2 where x: "extract_from_queue_locked i ?s1 = (x, s2)" by fastforce
    have "watch s2 \<and> pred_option good x" using watch_extract [OF x] w by simp
    then show ?thesis using Some x by (cases x) (simp_all add: dispatch_tagged_def Let_def watch_lost watch_emit answered)
  qed (simp add: dispatch_tagged_def w)
qed

lemma watch_untagged:
  assumes w: "watch s" and d: "dispatch_untagged r s = Some (ok, s')"
  shows "watch s'"
proof -
  define s1 where "s1 = (if ur_kind r = K_bye then s\<lparr>bye_received := True\<rparr> else s)"
  define s2 where "s2 = (case make_unsolicited_event r of None \<Rightarrow> s1
    | Some e \<Rightarrow> emit (map (\<lambda>h. Notified h e) (notify_snapshot (unsolicited s1))) s1)"
  have "watch s1" using w by (simp add: s1_def)
  then have w2: "watch s2" by (simp add: s2_def watch_emit list_all_iff neutral split: option.split)
  have e: "dispatch_untagged r s =
      (if command_scoped (ur_kind r) then map_option (\<lambda>q. (True, s2\<lparr>write_queue := q\<rparr>)) (offer r (write_queue s2))
       else map_option (\<lambda>s3. (True, s3)) (broadcast r (map snd (registry s2)) s2))"
    unfolding dispatch_untagged_def Let_def s2_def s1_def ..
  show ?thesis
  proof (cases "command_scoped (ur_kind r)")
    case True
    then obtain q where q: "offer r (write_queue s2) = Some q" "s' = s2\<lparr>write_queue := q\<rparr>" using d e by auto
    then show ?thesis using watch_offer [OF q(1)] w2 by (simp add: watched_def)
  next
    case False
    then have "broadcast r (map snd (registry s2)) s2 = Some s'" using d e by auto
    then show ?thesis using w2 by (rule watch_broadcast)
  qed
qed

lemma watch_dispatch: "watch s \<Longrightarrow> dispatch f msg s = Some (ok, s') \<Longrightarrow> watch s'"
proof -
  assume w: "watch s" and d: "dispatch f msg s = Some (ok, s')"
  have c: "watch s'" if "dispatch_continuation f t s = Some (ok, s')" for t
    using that w unfolding dispatch_continuation_def
    by (auto simp: op_on_continuation_def intro!: watch_lost watch_kick_posted watch_update progressed split: option.splits if_splits)
  show ?thesis using d w c watch_tagged [OF w] watch_untagged [OF w]
    by (auto simp: dispatch_def watch_lost split: option.splits server_response.splits) (metis snd_conv)
qed

lemma watch_read_end: "watch s \<Longrightarrow> watch (on_read_stop s)" "watch s \<Longrightarrow> watch (on_read_rearm f s)"
  by (auto simp: on_read_stop_def on_read_rearm_def arm_pump_def intro!: watch_finish watch_lost)

lemma watch_read_round: "watch s \<Longrightarrow> read_round ops f s = Some s' \<Longrightarrow> watch s'"
  by (auto simp: read_round_def Let_def intro!: watch_read_end dest!: watch_dispatch [rotated] split: option.splits prod.splits if_splits)

lemma watch_read: "watch s \<Longrightarrow> watch (read_receiver ops ec chunk s)"
  by (auto simp: read_receiver_def on_read_def on_read_lost_def Let_def intro!: watch_lost watch_read_end)

lemma watch_environment:
  assumes "watch s" "\<not> abandoned s" "environment a" "perform ops a s = Some s'"
  shows "watch s'"
proof (cases a)
  case (Read_round f)
  then show ?thesis using watch_read_round [OF assms(1)] assms(4) by simp
next
  case (Finish_write f ec)
  then show ?thesis using assms watch_write_done [of "s\<lparr>armed_write := None\<rparr>" f ec]
    by (auto simp: write_receiver_def split: option.splits)
next
  case (Run_kick ec)
  then show ?thesis using assms watch_kick [of "s\<lparr>kick_posted := False\<rparr>"] by (auto simp: kick_receiver_def Let_def)
qed (use assms in \<open>auto simp: watch_stopped_receiver watch_read watch_arm_write split: option.splits\<close>)

end

section \<open>The calls\<close>

text \<open>The cells that a call creates have an address from \<open>bound\<close> on.\<close>

locale full_watch = cell_watch +
  fixes bound :: nat
  assumes marked: "good c \<Longrightarrow> good (c\<lparr>op_stop_seen := b\<rparr>)" "good c \<Longrightarrow> good (c\<lparr>op_stopped := b\<rparr>)"
      "good c \<Longrightarrow> good (c\<lparr>op_detached := b\<rparr>)" "posted c \<Longrightarrow> posted (c\<lparr>op_stop_seen := b\<rparr>)"
    and stopping: "good c \<Longrightarrow> posted c"
    and dropped: "fine (Dropped j)"
    and fresh: "bound \<le> op_id c \<Longrightarrow> good c"
begin

lemma watch_drop: "watch s \<Longrightarrow> watch (drop_cells cs s)"
  unfolding drop_cells_def by (rule watch_emit) (simp_all add: list_all_iff dropped)

lemma watch_take: "watch s \<Longrightarrow> take_cells_locked pred s = (cs, s') \<Longrightarrow> watch s' \<and> list_all good cs"
  by (auto simp: take_cells_locked_def watched_def list_all_iff)

lemma watch_close: "watch s \<Longrightarrow> watch (close s)"
proof (cases "phase s = Phase_open")
  case True
  assume w: "watch s"
  let ?s1 = "emit [Shutdown_read] (s\<lparr>phase := Phase_draining, continuation_target := None\<rparr>)"
  obtain cs s2 where t: "take_cells_locked (\<lambda>c. \<not> op_is_written c \<and> \<not> op_staged c) ?s1 = (cs, s2)" by fastforce
  have "watch ?s1" using w by (simp add: watch_emit neutral)
  then have "watch s2 \<and> list_all good cs" using watch_take t by blast
  then show ?thesis using True t by (simp add: close_def Let_def watch_finish watch_fail)
qed (simp add: close_def)

lemma watch_abandon: "watch s \<Longrightarrow> watch (abandon s)"
proof (cases "phase s = Phase_closed")
  case False
  assume w: "watch s"
  let ?s1 = "emit [Shutdown_read] (s\<lparr>phase := Phase_draining, abandoned := True, continuation_target := None, registry := []\<rparr>)"
  obtain cs s2 where t: "take_cells_locked (\<lambda>c. \<not> op_staged c) ?s1 = (cs, s2)" by fastforce
  have "watch ?s1" using w by (simp add: watch_emit neutral)
  then have "watch s2" using watch_take t by blast
  then show ?thesis using False t by (simp add: abandon_def Let_def watch_finish watch_drop)
qed (simp add: abandon_def)

lemma watch_enqueue:
  assumes w: "watch s" and c: "good c"
  shows "watch (snd (enqueue_operation f c tag k s))"
proof -
  let ?s1 = "s\<lparr>write_queue := write_queue s @ [c], registry := reg_emplace tag (op_id c) (registry s)\<rparr>"
  let ?s2 = "update_cell (op_id c) (\<lambda>_. snd (op_take_stop_request c)) ?s1"
  have g: "good (snd (op_take_stop_request c))" using c by (simp add: op_take_stop_request_def marked)
  have "watch ?s1" using w c by (simp add: watched_def)
  then have w2: "watch ?s2" by (rule watch_update) (simp add: g)
  obtain x s3 where x: "extract_from_queue_locked (op_id c) ?s2 = (x, s3)" by fastforce
  have "watch s3 \<and> pred_option good x" using watch_extract [OF x w2] .
  then have "watch (s3\<lparr>registry := r\<rparr>)" "\<And>c'. x = Some c' \<Longrightarrow> posted c'" for r using stopping by auto
  then show ?thesis using w c w2 x
    by (cases x) (auto simp: enqueue_operation_def Let_def op_take_stop_request_def watch_fail watch_drop watch_kick_posted
        intro!: watch_stop_posted)
qed

lemma make_cell_watch:
  assumes "make_cell a callback stop s = Some (c, tag, s1)" "bound \<le> next_id s" "watch s"
  shows "good c \<and> watch s1 \<and> next_id s \<le> next_id s1"
  using make_cell_Some [OF assms(1)] assms(2,3) fresh by simp

end

lemma enqueue_next_id: "next_id (snd (enqueue_operation f c tag k s)) = next_id s"
  by (auto simp: enqueue_operation_def Let_def extract_from_queue_locked_def post_complete_stopped_def post_kick_def
      fail_cells_def drop_cells_def update_cell_def split: prod.splits option.splits)

section \<open>Addresses only grow\<close>

text \<open>The next address is in no list and in no event yet.\<close>

lemma unborn:
  assumes "core_inv k"
  shows "\<forall>c \<in> set (write_queue k). op_id c \<noteq> next_id k" "\<forall>c \<in> set (posted_stops k). op_id c \<noteq> next_id k"
    "\<forall>e \<in> set (trace k). terminal_id e \<noteq> Some (next_id k)"
proof -
  have "account k = mset [0 ..< next_id k]" using assms by (simp add: core_inv_def ledger_def)
  then have "next_id k \<notin># account k" by simp
  then have n: "next_id k \<notin> op_id ` set (write_queue k)" "next_id k \<notin> op_id ` set (posted_stops k)"
    "next_id k \<notin> set (terminals (trace k))" by (auto simp: account_def)
  show "\<forall>c \<in> set (write_queue k). op_id c \<noteq> next_id k" "\<forall>c \<in> set (posted_stops k). op_id c \<noteq> next_id k"
    using n(1,2) by (metis imageI)+
  show "\<forall>e \<in> set (trace k). terminal_id e \<noteq> Some (next_id k)"
    using n(3) by (force simp: terminals_def List.map_filter_def)
qed

lemma extract_next_id: "extract_staged ids s = (cs, s') \<Longrightarrow> next_id s' = next_id s"
  using extract_staged_mset by fastforce

lemma extract_one_next_id: "extract_from_queue_locked i s = (r, s') \<Longrightarrow> next_id s' = next_id s"
  by (auto simp: extract_from_queue_locked_def split: prod.splits)

lemma flush_staged_next_id: "flush_staged ids s = (cs, s') \<Longrightarrow> next_id s' = next_id s"
proof (induction ids arbitrary: s cs s')
  case (Cons i ids)
  then show ?case
    by (auto simp: Let_def split: option.splits if_splits prod.splits dest!: Cons.IH extract_one_next_id)
qed simp

lemma fold_posts_next_id [simp]: "next_id (fold (post_complete_stopped f) cs s) = next_id s"
  by (induction cs arbitrary: s) simp_all

lemma kick_next_id [simp]: "next_id (kick s) = next_id s"
  by (simp add: kick_def Let_def split: prod.split)

lemma write_next_id [simp]:
  "next_id (arm_write f ids s) = next_id s" "next_id (kick_receiver ec s) = next_id s"
  "next_id (on_write_done f ec ids s) = next_id s"
  by (auto simp: arm_write_def on_write_done_def kick_receiver_def Let_def split: prod.splits
      dest!: extract_next_id flush_staged_next_id)

lemma broadcast_next_id: "broadcast r is s = Some s' \<Longrightarrow> next_id s' = next_id s"
  by (induction r "is" s rule: broadcast.induct) (auto split: option.splits)

lemma dispatch_next_id: "dispatch f msg s = Some (ok, s') \<Longrightarrow> next_id s' = next_id s"
  by (auto simp: dispatch_def dispatch_tagged_def dispatch_untagged_def dispatch_continuation_def Let_def
      extract_from_queue_locked_def dest!: broadcast_next_id
      split: option.splits server_response.splits prod.splits if_splits)

lemma read_next_id:
  "next_id (read_receiver ops ec chunk s) = next_id s" "read_round ops f s = Some s' \<Longrightarrow> next_id s' = next_id s"
  by (auto simp: read_receiver_def read_round_def on_read_def on_read_lost_def on_read_stop_def on_read_rearm_def
      arm_pump_def Let_def dest!: dispatch_next_id split: option.splits prod.splits if_splits)

lemma cancel_next_id: "cancel_entry f tag e s = Some s' \<Longrightarrow> next_id s' = next_id s"
  by (auto simp: cancel_entry_def find_and_detach_locked_def detach_locked_def finish_cancellation_def Let_def
      dest!: extract_one_next_id split: prod.splits if_splits option.splits)

lemma started_next_id:
  "make_cell a callback stop s = Some (c, tag, s1) \<Longrightarrow> next_id (snd (enqueue_operation f c tag k s1)) = next_id s + 1"
  by (drule make_cell_Some) (simp add: enqueue_next_id)

lemma submit_next_id: "submit f a s = Some (b, s') \<Longrightarrow> next_id s' = next_id s + 1"
  "start_operation f a stop s = Some (b, s') \<Longrightarrow> next_id s' = next_id s + 1"
proof -
  have n: "next_id s' = next_id s + 1"
    if m: "map_option (\<lambda>(c, tag, s1). enqueue_operation f c tag k s1) (make_cell a callback st s) = Some (b, s')" for callback st k
  proof -
    obtain c tag s1 where "make_cell a callback st s = Some (c, tag, s1)" "enqueue_operation f c tag k s1 = (b, s')"
      using m by auto
    then show ?thesis using started_next_id [of a callback st s c tag s1 f k] by simp
  qed
  show "submit f a s = Some (b, s') \<Longrightarrow> next_id s' = next_id s + 1" unfolding submit_def by (rule n)
  show "start_operation f a stop s = Some (b, s') \<Longrightarrow> next_id s' = next_id s + 1" unfolding start_operation_def by (rule n)
qed

lemma batch_next_id: "submit_batch as s = Some s' \<Longrightarrow> next_id s \<le> next_id s'"
proof (induction as arbitrary: s)
  case (Cons x as)
  obtain f a where x: "x = (f, a)" by fastforce
  obtain b s1 where 1: "submit f a s = Some (b, s1)" using Cons(2) x by (auto split: option.splits)
  show ?case using Cons 1 x submit_next_id(1) [OF 1] by (cases b) (fastforce simp: drop_batch_def)+
qed simp

lemma perform_next_id: "perform ops a s = Some s' \<Longrightarrow> next_id s \<le> next_id s'"
proof (cases a)
  case (Submit f b)
  assume "perform ops a s = Some s'"
  then show ?thesis using Submit submit_next_id(1) [of f b s] by fastforce
next
  case (Start f b stop)
  assume "perform ops a s = Some s'"
  then show ?thesis using Start submit_next_id(2) [of f b stop s] by fastforce
next
  case (Cancel f tag)
  assume "perform ops a s = Some s'"
  then show ?thesis using Cancel cancel_next_id [of f tag None s s'] by (simp add: cancel_def)
next
  case (Request_stop f i)
  assume "perform ops a s = Some s'"
  then show ?thesis using Request_stop cancel_next_id [of f _ "Some i" _ s']
    by (fastforce simp: request_stop_def on_stop_requested_def Let_def split: option.splits if_splits)
qed (auto simp: flush_def on_unsolicited_def reset_registration_def suspend_read_for_relocation_def close_def abandon_def
    Let_def take_cells_locked_def stopped_receiver_def write_receiver_def read_next_id batch_next_id
    split: prod.splits option.splits list.splits if_splits dest: read_next_id(2) batch_next_id)

section \<open>Every action keeps a full watch\<close>

context full_watch
begin

lemma watch_submit:
  "watch s \<Longrightarrow> bound \<le> next_id s \<Longrightarrow> submit f a s = Some (b, s') \<Longrightarrow> watch s'"
  "watch s \<Longrightarrow> bound \<le> next_id s \<Longrightarrow> start_operation f a stop s = Some (b, s') \<Longrightarrow> watch s'"
proof -
  assume w: "watch s" "bound \<le> next_id s"
  have n: "watch s'"
    if m: "map_option (\<lambda>(c, tag, s1). enqueue_operation f c tag k s1) (make_cell a callback st s) = Some (b, s')" for callback st k
  proof -
    obtain c tag s1 where c: "make_cell a callback st s = Some (c, tag, s1)" "enqueue_operation f c tag k s1 = (b, s')"
      using m by auto
    have "watch (snd (enqueue_operation f c tag k s1))"
      using make_cell_watch [OF c(1) w(2,1)] watch_enqueue by blast
    then show ?thesis using c(2) by simp
  qed
  show "submit f a s = Some (b, s') \<Longrightarrow> watch s'" unfolding submit_def by (rule n)
  show "start_operation f a stop s = Some (b, s') \<Longrightarrow> watch s'" unfolding start_operation_def by (rule n)
qed

lemma watch_batch: "watch s \<Longrightarrow> bound \<le> next_id s \<Longrightarrow> submit_batch as s = Some s' \<Longrightarrow> watch s'"
proof (induction as arbitrary: s)
  case (Cons x as)
  obtain f a where x: "x = (f, a)" by fastforce
  obtain b s1 where 1: "submit f a s = Some (b, s1)" using Cons(4) x by (auto split: option.splits)
  have w: "watch s1" "bound \<le> next_id s1" using watch_submit(1) [OF Cons(2,3) 1] submit_next_id(1) [OF 1] Cons(3) by simp_all
  show ?case
  proof (cases b)
    case True
    then have "s' = drop_batch (map snd as) s1" using Cons(4) 1 x by simp
    then show ?thesis using w(1) by (simp add: drop_batch_def watch_emit list_all_iff dropped)
  next
    case False
    then show ?thesis using Cons(1) [OF w] Cons(4) 1 x by simp
  qed
qed simp

lemma watch_cancel: "watch s \<Longrightarrow> cancel_entry f tag e s = Some s' \<Longrightarrow> watch s'"
proof (cases "phase s = Phase_open")
  case True
  assume w: "watch s" and "cancel_entry f tag e s = Some s'"
  then obtain c kick s1 where d: "find_and_detach_locked tag e s = Some (c, kick, s1)" "s' = finish_cancellation f c kick s1"
    using True by (auto simp: cancel_entry_def)
  have m: "good (snd (op_cancel_written x))" "good (op_mark_detached x)" if "good x" for x
    using that by (auto simp: op_cancel_written_def op_mark_detached_def intro!: marked progressed split: option.split)
  have "watch s1 \<and> pred_option good c"
    using d(1) w
    by (auto simp: find_and_detach_locked_def detach_locked_def Let_def intro!: watch_update m
        dest!: watch_extract split: option.splits if_splits prod.splits)
  then show ?thesis unfolding d(2)
    by (cases c) (auto simp: finish_cancellation_def Let_def intro!: watch_stop_posted watch_kick_posted stopping)
qed (simp add: cancel_entry_def)

lemma watch_request_stop: "watch s \<Longrightarrow> request_stop f i s = Some s' \<Longrightarrow> watch s'"
proof -
  assume w: "watch s" and r: "request_stop f i s = Some s'"
  let ?n = "\<lambda>c. c\<lparr>op_stop_seen := True\<rparr>"
  let ?s = "s\<lparr>write_queue := on_cell i ?n (write_queue s), posted_stops := on_cell i ?n (posted_stops s)\<rparr>"
  have "watch ?s" using w marked by (auto simp: watched_def on_cell_def list_all_iff)
  then show ?thesis using r w watch_cancel [of ?s f _ "Some i" s']
    by (auto simp: request_stop_def on_stop_requested_def Let_def split: option.splits if_splits)
qed

lemma watch_abandoned_write:
  assumes "watch s" "abandoned s"
  shows "watch (arm_write f ids s)" "watch (on_write_done f ec ids s)"
proof -
  obtain cs s1 where e: "extract_staged ids (s\<lparr>arming := None\<rparr>) = (cs, s1)" by fastforce
  obtain ds s2 where d: "extract_staged ids (s\<lparr>write_in_flight := False\<rparr>) = (ds, s2)" by fastforce
  have "watch s1" "watch s2" "abandoned s2"
    using watch_extract_staged [OF e] watch_extract_staged [OF d] extract_abandoned [OF d] assms by simp_all
  then show "watch (arm_write f ids s)" "watch (on_write_done f ec ids s)" using assms(2) e d
    by (simp_all add: arm_write_def on_write_done_def Let_def watch_finish watch_drop)
qed

lemma watch_perform:
  assumes w: "watch s" "bound \<le> next_id s" and e: "perform ops a s = Some s'"
  shows "watch s'"
proof (cases a)
  case (Arm_write f)
  then show ?thesis using w e watch_abandoned_write(1) [OF w(1)] watch_arm_write [OF w(1)]
    by (cases "abandoned s") (auto split: option.splits)
next
  case (Finish_write f ec)
  let ?s = "s\<lparr>armed_write := None\<rparr>"
  have "watch (on_write_done f ec ids ?s)" for ids
    using watch_abandoned_write(2) [of ?s f ec ids] watch_write_done [of ?s f ec ids] w(1) by (cases "abandoned s") simp_all
  then show ?thesis using w e Finish_write by (auto simp: write_receiver_def split: option.splits)
next
  case (Run_kick ec)
  then show ?thesis using w e watch_kick [of "s\<lparr>kick_posted := False\<rparr>"] by (auto simp: kick_receiver_def Let_def)
next
  case (Submit f b)
  then show ?thesis using watch_submit(1) [OF w] e by auto
next
  case (Start f b stop)
  then show ?thesis using watch_submit(2) [OF w] e by auto
next
  case (Cancel f tag)
  then show ?thesis using watch_cancel [OF w(1)] e by (auto simp: cancel_def)
qed (use w e in \<open>auto simp: watch_stopped_receiver watch_read watch_close watch_abandon flush_def watch_kick_posted
    on_unsolicited_def reset_registration_def suspend_read_for_relocation_def split: prod.splits
    intro: watch_batch watch_request_stop watch_read_round\<close>)

end

end
