(* ===== verification/Reply_Path.thy ===== *)
theory Reply_Path
  imports Connection Start_Tls Watch
begin

text \<open>
  The way of a reply through all layers: from the octets in the read buffer over the framer, the
  parser, the registry of tags and the operation cell of layer 1 to the receiver of the layer-2
  operation that submitted the command.
\<close>

section \<open>A completion always finds its successor state\<close>

lemma selected_state_total: "conn_context c \<noteq> None \<Longrightarrow> \<exists>st. selected_state c m = Inr st"
  by (auto simp: selected_state_def with_context_def listen_to_def split: prod.split)

lemma complete_with_total:
  "conn_context c \<noteq> None \<Longrightarrow> \<exists>out st d. complete_with oom s ec c res = Inr (out, st, d)"
proof (induction s arbitrary: c)
  case (Rebuild_selected m h)
  then show ?case using selected_state_total [of c m] by auto
next
  case Select_branches
  then show ?case using selected_state_total [of c "mailbox_of res"] by auto
next
  case (Capability_successor s)
  let ?c = "if ec = No_error then set_capabilities (caps_of res) c else c"
  have "conn_context ?c \<noteq> None" using Capability_successor(2) by (simp add: set_capabilities_def)
  then obtain out st d where "complete_with oom s ec ?c res = Inr (out, st, d)" using Capability_successor(1) by blast
  then show ?case by simp
next
  case (Query_successor s)
  then obtain out st d where "complete_with oom s ec c res = Inr (out, st, d)" by blast
  then show ?case by simp
qed auto

lemma so_on_result_total:
  assumes "\<not> so_completed op" "conn_context (so_connection op) \<noteq> None"
  shows "\<exists>op' out st. so_on_result oom ec res op = Inr op' \<and> so_completed op' \<and>
    completions (so_log op') = completions (so_log op) @ [Set_value ec out st]"
proof -
  let ?c = "finish_operation (so_connection op)"
  obtain out st d where "complete_with oom (so_successor op) ec ?c res = Inr (out, st, d)"
    using complete_with_total [of ?c oom "so_successor op" ec res] assms(2) by (auto simp: finish_operation_def)
  then show ?thesis using assms(1)
    by (simp add: so_on_result_def so_complete_with_def move_connection_def finish_operation_def so_observe_def)
qed

section \<open>A waiting operation keeps its cell\<close>

text \<open>
  The cell of an operation nobody has cancelled is neither stopped nor detached, it is not among the
  posted stop completions, and it can only end with a value.
\<close>

interpretation pursuit: cell_watch "\<lambda>c. op_id c = i \<longrightarrow> \<not> op_stopped c \<and> \<not> op_detached c" "\<lambda>c. op_id c \<noteq> i"
  "\<lambda>e. terminal_id e = Some i \<longrightarrow> (\<exists>ec res. e = Value_delivered i ec res)"
  by unfold_locales
    (auto simp: op_fail_def op_on_tagged_def op_complete_stopped_def deliver_value_def deliver_stopped_def
      split: prod.splits if_splits)

abbreviation pursued :: "nat \<Rightarrow> 'b core \<Rightarrow> bool" where
  "pursued i \<equiv> watched (\<lambda>c. op_id c = i \<longrightarrow> \<not> op_stopped c \<and> \<not> op_detached c) (\<lambda>c. op_id c \<noteq> i)
     (\<lambda>e. terminal_id e = Some i \<longrightarrow> (\<exists>ec res. e = Value_delivered i ec res))"

definition awaited :: "'b buffer_ops \<Rightarrow> nat \<Rightarrow> 'b core \<Rightarrow> bool" where
  "awaited ops i k \<longleftrightarrow> living ops k \<and> pursued i k \<and> i < next_id k \<and> (\<forall>ec res. Value_delivered i ec res \<notin> set (trace k))"

lemma pursued_unborn: "core_inv k \<Longrightarrow> pursued (next_id k) k"
  using unborn [of k] unfolding watched_def by (simp add: list_all_iff)

lemma pursued_submit:
  assumes k: "living ops k" and s: "submit_to f a k = Inr ((tag, i), k')"
  shows "pursued i k' \<and> i < next_id k'"
proof -
  have i: "i = next_id k" "submit f a k = Some (False, k')" using s by (auto simp: submit_to_def split: option.splits if_splits)
  obtain c t k1 where c: "make_cell a True False k = Some (c, t, k1)" "enqueue_operation f c t False k1 = (False, k')"
    using i(2) by (auto simp: submit_def)
  note m = make_cell_Some [OF c(1)]
  have st: "\<not> op_stopped c" "\<not> op_stop_seen c" using c(1) by (auto simp: make_cell_def allocate_tag_def op_attach_def new_cell_def)
  have p: "pursued i k1" using pursued_unborn [OF living_inv [OF k]] m i(1) by (simp add: watched_def)
  have "pursued i k'"
  proof (cases "phase k1 = Phase_open")
    case True
    then have r: "\<not> no_registry_slot f" using c(2) by (auto simp: enqueue_operation_def)
    have cc: "c\<lparr>op_stop_seen := False\<rparr> = c" using st(2) by (cases c) simp
    let ?k = "k1\<lparr>write_queue := write_queue k1 @ [c], registry := reg_emplace t (op_id c) (registry k1)\<rparr>"
    have g: "op_id c = i \<longrightarrow> \<not> op_stopped c \<and> \<not> op_detached c" using st(1) m by simp
    have "pursued i ?k" using p g by (simp add: watched_def)
    then have "pursued i (update_cell (op_id c) (\<lambda>_. c) ?k)" by (rule pursuit.watch_update) (rule g)
    then show ?thesis using c(2) True r st(2) cc by (auto simp: enqueue_operation_def Let_def op_take_stop_request_def)
  next
    case False
    then show ?thesis using c(2) p pursuit.watch_fail [OF p, of "[c]"] st(1) m by (auto simp: enqueue_operation_def)
  qed
  then show ?thesis using submit_next_id(1) [OF i(2)] i(1) by simp
qed

text \<open>Exactly one cell of the queue belongs to the operation.\<close>

lemma awaited_cell:
  assumes "awaited ops i k"
  shows "\<exists>c. filter (\<lambda>c. op_id c = i) (write_queue k) = [c] \<and> \<not> op_stopped c \<and> \<not> op_detached c"
proof -
  have w: "living ops k" "pursued i k" "i < next_id k" "\<forall>ec res. Value_delivered i ec res \<notin> set (trace k)"
    using assms by (auto simp: awaited_def)
  have "account k = mset [0 ..< next_id k]" using living_inv [OF w(1)] by (simp add: core_inv_def ledger_def)
  then have "count (account k) i = 1" using w(3) by (simp add: count_mset_set')
  moreover have "count_list (map op_id (posted_stops k)) i = 0"
    using w(2) by (auto simp: watched_def list_all_iff count_list_0_iff)
  moreover have "terminal_id e \<noteq> Some i" if "e \<in> set (trace k)" for e using w(2,4) that by (auto simp: watched_def list_all_iff)
  then have "count_list (terminals (trace k)) i = 0"
    by (auto simp: count_list_0_iff terminals_def List.map_filter_def)
  ultimately have "count_list (map op_id (write_queue k)) i = 1"
    unfolding account_def by (simp add: count_mset del: mset_map)
  then have "length (filter (\<lambda>c. op_id c = i) (write_queue k)) = 1" by (simp add: count_list_eq_length_filter filter_map o_def eq_commute)
  then obtain c where c: "filter (\<lambda>c. op_id c = i) (write_queue k) = [c]" by (metis One_nat_def length_0_conv length_Suc_conv)
  then have "c \<in> set (write_queue k)" "op_id c = i" using filter_eq_ConsD [OF c] by auto
  then show ?thesis using c w(2) by (auto simp: watched_def list_all_iff)
qed

text \<open>What the handlers do with the events of one action, while the operation waits.\<close>

lemma so_event_waits:
  assumes "so_event oom ev op = Inr op'" "\<not> so_completed op'"
  shows "\<not> so_completed op \<and> so_connection op' = so_connection op \<and> so_cell op' = so_cell op \<and>
    (\<forall>i ec res. so_cell op = Some i \<longrightarrow> ev \<noteq> Value_delivered i ec res)"
proof -
  have over: "so_completed op''" if "so_on_result oom ec res op = Inr op''" for ec res op''
    using that by (auto simp: so_on_result_def so_complete_with_def so_observe_def elim!: proceed_InrE split: if_splits)
  show ?thesis using assms over by (cases ev) (auto split: if_splits)
qed

lemma so_events_wait:
  "so_events oom evs op = Inr op' \<Longrightarrow> \<not> so_completed op' \<Longrightarrow>
     \<not> so_completed op \<and> so_connection op' = so_connection op \<and> so_cell op' = so_cell op \<and>
     (\<forall>i ec res. so_cell op = Some i \<longrightarrow> Value_delivered i ec res \<notin> set evs)"
proof (induction evs arbitrary: op)
  case (Cons ev evs)
  obtain op1 where 1: "so_event oom ev op = Inr op1" "so_events oom evs op1 = Inr op'"
    using Cons(2) by (auto simp: proceed_Inr)
  note 2 = Cons(1) [OF 1(2) Cons(3)]
  then show ?case using so_event_waits [OF 1(1)] by auto
qed simp

definition so_waits :: "'b buffer_ops \<Rightarrow> 'b state_op \<Rightarrow> bool" where
  "so_waits ops op \<longleftrightarrow>
     (\<forall>i. so_cell op = Some i \<longrightarrow> \<not> so_completed op \<longrightarrow>
        (\<exists>k. conn_context (so_connection op) = Some k \<and> awaited ops i k))"

lemma waits_call:
  assumes e: "so_events oom evs op = Inr op'" and c: "so_cell op = Some i" "conn_context (so_connection op) = Some k'"
    and k: "living ops k'" "pursued i k'" "i < next_id k'" "trace k' = trace k @ evs"
    and n: "\<forall>ec res. Value_delivered i ec res \<notin> set (trace k)"
  shows "so_waits ops op'"
  unfolding so_waits_def
proof (intro allI impI)
  fix j assume "so_cell op' = Some j" "\<not> so_completed op'"
  note w = so_events_wait [OF e this(2)]
  then have "j = i" using c(1) \<open>so_cell op' = Some j\<close> by simp
  then show "\<exists>k. conn_context (so_connection op') = Some k \<and> awaited ops j k"
    using w c k n by (auto simp: awaited_def)
qed

lemma waits_step:
  assumes s: "so_waits ops op" and cell: "so_cell op = Some i" "\<not> so_completed op"
    and w: "with_context g (so_connection op) = Inr (x, evs, c)"
    and g: "\<And>k k'. conn_context (so_connection op) = Some k \<Longrightarrow> living ops k \<Longrightarrow> g k = Inr (x, k') \<Longrightarrow>
      living ops k' \<and> grows k k' \<and> next_id k \<le> next_id k' \<and> (pursued i k \<longrightarrow> pursued i k')"
    and op1: "so_connection op1 = c" "so_cell op1 = Some i"
    and e: "so_events oom evs op1 = Inr op'"
  shows "so_waits ops op'"
proof -
  obtain k k' where k: "conn_context (so_connection op) = Some k" "g k = Inr (x, k')"
    "evs = drop (length (trace k)) (trace k')" "c = (so_connection op)\<lparr>conn_context := Some k'\<rparr>"
    using w by (rule with_contextE)
  have a: "awaited ops i k" using s cell k(1) by (auto simp: so_waits_def)
  then have l: "living ops k'" "grows k k'" "next_id k \<le> next_id k'" "pursued i k'"
    using g [OF k(1) _ k(2)] by (auto simp: awaited_def)
  have t: "trace k' = trace k @ evs" using l(2) k(3) by (auto simp: grows_def)
  show ?thesis
    by (rule waits_call [OF e op1(2) _ l(1,4) _ t]) (use a l(3) k(4) op1(1) in \<open>auto simp: awaited_def\<close>)
qed

lemma flush_pursued:
  "living ops k \<Longrightarrow> flush_to f k = Inr (u, k') \<Longrightarrow>
     living ops k' \<and> grows k k' \<and> next_id k \<le> next_id k' \<and> (pursued i k \<longrightarrow> pursued i k')"
  using calls_ok(2) [of ops k f u k'] by (auto simp: flush_to_def flush_def pursuit.watch_kick_posted)

lemma step_pursued:
  "living ops k \<Longrightarrow> environment a \<Longrightarrow> enabled a k \<Longrightarrow> context_step ops a k = Inr (u, k') \<Longrightarrow>
     living ops k' \<and> grows k k' \<and> next_id k \<le> next_id k' \<and> (pursued i k \<longrightarrow> pursued i k')"
  using calls_ok(4) [of ops k a u k']
  by (auto simp: context_step_def living_def dest: perform_next_id pursuit.watch_environment split: option.splits)

lemma so_start_waits:
  assumes i: "so_inv ops sd op" "\<not> so_started op" and e: "so_start oom f stop op = Inr op'"
  shows "so_waits ops op'"
proof -
  let ?c = "(so_connection op)\<lparr>conn_busy := True\<rparr>"
  have fresh: "so_cell op = None" "\<not> so_completed op" using i by (auto simp: so_inv_def)
  have busy: "\<not> conn_busy (so_connection op)" using e by (auto simp: so_start_def try_start_operation_def Let_def)
  consider (stop) stop | (gate) "\<not> stop" "so_required op \<noteq> []" "\<not> cap_contains (conn_capabilities ?c) (so_required op)"
    | (go) "\<not> stop" "\<not> (so_required op \<noteq> [] \<and> \<not> cap_contains (conn_capabilities ?c) (so_required op))" by blast
  then show ?thesis
  proof cases
    case stop
    then show ?thesis using e fresh busy
      by (auto simp: so_start_def try_start_operation_def so_waits_def so_observe_def)
  next
    case gate
    then have "so_complete_with oom (Errc Capability_required) (default_result (so_command op))
        (op\<lparr>so_started := True, so_connection := finish_operation ?c\<rparr>) = Inr op'"
      using e busy by (simp add: so_start_def try_start_operation_def)
    then have "so_cell op' = None" using fresh by (auto simp: so_complete_with_def so_observe_def elim!: proceed_InrE)
    then show ?thesis by (simp add: so_waits_def)
  next
    case go
    obtain tag n evs c1 op1 where 1: "with_context (submit_to f (so_command op)) ?c = Inr ((tag, n), evs, c1)"
      "so_events oom evs (op\<lparr>so_started := True, so_connection := c1, so_cell := Some n\<rparr>) = Inr op1"
      "(if so_completed op1 then Inr (so_observe [Late_access] (op1\<lparr>so_tag := tag, so_stop_callback := True\<rparr>))
        else proceed (with_context (flush_to f) (so_connection op1)) (\<lambda>(_, evs', c2).
          proceed (so_events oom evs' (op1\<lparr>so_tag := tag, so_connection := c2\<rparr>)) (\<lambda>op2.
            Inr (so_observe (if so_completed op2 then [Late_access] else []) (op2\<lparr>so_stop_callback := True\<rparr>))))) = Inr op'"
      using e go busy by (auto simp: so_start_def try_start_operation_def proceed_Inr)
    obtain k k' where k: "conn_context ?c = Some k" "submit_to f (so_command op) k = Inr ((tag, n), k')"
      "evs = drop (length (trace k)) (trace k')" "c1 = ?c\<lparr>conn_context := Some k'\<rparr>" using 1(1) by (rule with_contextE)
    have l: "living ops k" using i k(1) by (simp add: so_inv_def)
    have l': "living ops k'" "grows k k'" using calls_ok(1) [OF l k(2)] by simp_all
    have n: "n = next_id k" using k(2) by (auto simp: submit_to_def split: option.splits if_splits)
    have "\<forall>ec res. Value_delivered n ec res \<notin> set (trace k)" using unborn(3) [OF living_inv [OF l]] n by fastforce
    moreover have "trace k' = trace k @ evs" using l'(2) k(3) by (auto simp: grows_def)
    ultimately have o: "so_waits ops op1"
      by (intro waits_call [OF 1(2), where i = n and k' = k' and k = k]) (use pursued_submit [OF l k(2)] l' k(4) in auto)
    show ?thesis
    proof (cases "so_completed op1")
      case False
      obtain evs' c2 op2 where 2: "with_context (flush_to f) (so_connection op1) = Inr ((), evs', c2)"
        "so_events oom evs' (op1\<lparr>so_tag := tag, so_connection := c2\<rparr>) = Inr op2"
        "op' = so_observe (if so_completed op2 then [Late_access] else []) (op2\<lparr>so_stop_callback := True\<rparr>)"
        using 1(3) False by (fastforce elim!: proceed_InrE)
      have c: "so_cell op1 = Some n" using so_events_wait [OF 1(2) False] by simp
      have "so_waits ops op2"
        by (rule waits_step [OF o c False 2(1) flush_pursued _ _ 2(2)]) (use c in simp_all)
      then show ?thesis using 2(3) by (simp add: so_waits_def so_observe_def)
    qed (use 1(3) in \<open>auto simp: so_waits_def so_observe_def\<close>)
  qed
qed

lemma so_step_waits:
  assumes i: "so_inv ops sd op" "so_waits ops op" and "so_step ops op op'"
  shows "so_waits ops op'"
proof -
  obtain a oom where e: "so_enabled a op" "so_perform ops oom a op = Inr op'" using assms(3) by (auto simp: so_step_def)
  show ?thesis
  proof (cases a)
    case (Op_start f stop)
    then show ?thesis using so_start_waits [OF i(1)] e by simp
  next
    case (Op_stop f)
    have "so_completed op'"
    proof (cases "so_completed op")
      case False
      then obtain evs c op1 where "so_events oom evs (op\<lparr>so_completed := True, so_connection := c\<rparr>) = Inr op1"
        "op' = post_stopped_delivery oom (op1\<lparr>so_connection := finish_operation (so_connection op1), so_stop_callback := False\<rparr>)"
        using e Op_stop by (fastforce simp: so_stop_def elim!: proceed_InrE)
      then show ?thesis using so_events_completed [of "op\<lparr>so_completed := True, so_connection := c\<rparr>" oom evs]
        by (auto simp: post_stopped_delivery_def so_observe_def)
    qed (use e Op_stop in \<open>simp add: so_stop_def\<close>)
    then show ?thesis by (simp add: so_waits_def)
  next
    case Op_posted
    then show ?thesis using e i by (auto simp: so_run_posted_def so_waits_def so_observe_def)
  next
    case (Op_context b)
    obtain evs c where w: "with_context (context_step ops b) (so_connection op) = Inr ((), evs, c)"
      "so_events oom evs (op\<lparr>so_connection := c\<rparr>) = Inr op'"
      using e Op_context by (fastforce simp: so_context_def elim!: proceed_InrE)
    show ?thesis
    proof (cases "\<exists>i. so_cell op = Some i \<and> \<not> so_completed op")
      case True
      then obtain i' where c: "so_cell op = Some i'" "\<not> so_completed op" by blast
      show ?thesis
        by (rule waits_step [OF i(2) c w(1) step_pursued _ _ w(2)])
          (use e Op_context c in \<open>auto simp: context_enabled_def\<close>)
    next
      case False
      have "so_completed op' \<or> so_cell op' = None"
        using False so_events_wait [OF w(2)] by (cases "so_completed op'") auto
      then show ?thesis by (auto simp: so_waits_def)
    qed
  qed
qed

lemma reachable_waits:
  assumes "owns_live_context ops sd" "so_reachable ops sd op"
  shows "so_inv ops sd op \<and> so_waits ops op"
proof -
  have i0: "so_inv ops sd (connect_state_op sd)" using assms(1) connected_inv by (auto simp: owns_live_context_def)
  have w0: "so_waits ops (connect_state_op sd)" by (simp add: so_waits_def connect_state_op_def)
  have "rtranclp (so_step ops) (connect_state_op sd) op" using assms(2) by (simp add: so_reachable_def)
  then show ?thesis by (induction rule: rtranclp_induct) (use i0 w0 in \<open>auto intro: so_step_inv so_step_waits\<close>)
qed

section \<open>Properties\<close>

text \<open>
  C9. A reply reaches the receiver: when the read buffer of an operation that is still waiting starts
  with a well-framed response that parses as a tagged reply with a tag that is registered for the
  operation's cell, the next round of the read loop completes the receiver with exactly one value,
  whose error code is the one the command maps the reply to.
\<close>

theorem reply_completes_op:
  assumes "owns_live_context ops sd" "so_reachable ops sd op" "so_cell op = Some i" "\<not> so_completed op"
    and "conn_context (so_connection op) = Some k" "phase k = Phase_open" "reading k" "framer k = init_lexer"
    and "buffer_ok ops" "framed msg" "data_of ops (read_buffer k) = msg @ CRLF @ rest"
    and "parse_response msg = Some (Tagged r)" "map_of (registry k) (tr_tag r) = Some i"
  shows "\<exists>op' c out st. c \<in> set (write_queue k) \<and> op_id c = i \<and> so_enabled (Op_context (Read_round f)) op \<and>
    so_perform ops oom (Op_context (Read_round f)) op = Inr op' \<and>
    completions (so_log op') = [Set_value (fst (on_tagged r (op_command c))) out st]"
proof -
  have inv: "so_inv ops sd op" "awaited ops i k"
    using reachable_waits [OF assms(1,2)] assms(3-5) by (auto simp: so_waits_def)
  have "reachable ops k" using inv(1) assms(5) by (simp add: so_inv_def living_def)
  from reply_round [OF this assms(6,8,9-13), of f] obtain k' c e where 1: "read_round ops f k = Some k'"
    "c \<in> set (write_queue k)" "op_id c = i" "snd (op_on_tagged r c) = [e]" "trace k' = trace k @ [e]" by blast
  obtain ec res where o: "on_tagged r (op_command c) = (ec, res)" by fastforce
  obtain d where "filter (\<lambda>c. op_id c = i) (write_queue k) = [d]" "\<not> op_stopped d" using awaited_cell [OF inv(2)] by blast
  moreover have "c \<in> set (filter (\<lambda>c. op_id c = i) (write_queue k))" using 1(2,3) by simp
  ultimately have "\<not> op_stopped c" by simp
  then have e: "e = Value_delivered i ec res"
    using 1(3,4) o by (auto simp: op_on_tagged_def deliver_value_def split: if_splits)
  let ?op = "op\<lparr>so_connection := (so_connection op)\<lparr>conn_context := Some k'\<rparr>\<rparr>"
  obtain op' out st where d: "so_on_result oom ec res ?op = Inr op'"
    "completions (so_log op') = completions (so_log op) @ [Set_value ec out st]"
    using so_on_result_total [of ?op oom ec res] assms(4) by auto
  have "completions (so_log op) = []" using inv(1) assms(3,4) by (simp add: so_inv_def so_claimed_def)
  moreover have "so_perform ops oom (Op_context (Read_round f)) op = Inr op'"
    using d(1) 1(1,5) e assms(3,5) by (simp add: so_context_def with_context_def context_step_def)
  moreover have "so_enabled (Op_context (Read_round f)) op" using assms(5,7) by (simp add: context_enabled_def)
  ultimately show ?thesis using 1(2,3) d(2) o by auto
qed

text \<open>The LOGIN of a fresh connection, with its reply in the buffer.\<close>

definition login_waits :: "octets state_op" where
  "login_waits = so_after (take 5 (round_trip (''a0001 NO denied'' @ CRLF))) login_sender"

theorem reply_completes_op_witness:
  "\<exists>op' ec out st. so_perform list_buffer False (Op_context (Read_round calm)) login_waits = Inr op' \<and>
     completions (so_log op') = [Set_value ec out st]"
proof -
  let ?r = "\<lparr>tr_tag = ''a0001'', tr_status = St_no, tr_code = None, tr_text = ''denied''\<rparr>"
  have r: "so_reachable list_buffer login_sender login_waits"
    unfolding login_waits_def by (rule so_after_reachable) code_simp
  have i: "so_cell login_waits = Some 0" "\<not> so_completed login_waits" by code_simp+
  have "case conn_context (so_connection login_waits) of None \<Rightarrow> False
    | Some k \<Rightarrow> phase k = Phase_open \<and> reading k \<and> framer k = init_lexer \<and>
        data_of list_buffer (read_buffer k) = ''a0001 NO denied'' @ CRLF @ [] \<and>
        map_of (registry k) (tr_tag ?r) = Some 0" by code_simp
  then obtain k where k: "conn_context (so_connection login_waits) = Some k" "phase k = Phase_open" "reading k"
    "framer k = init_lexer" "data_of list_buffer (read_buffer k) = ''a0001 NO denied'' @ CRLF @ []"
    "map_of (registry k) (tr_tag ?r) = Some 0"
    by (auto split: option.splits)
  have p: "parse_response ''a0001 NO denied'' = Some (Tagged ?r)" by code_simp
  have f: "framed ''a0001 NO denied''" by (rule framed.plain) (code_simp, code_simp)
  show ?thesis
    using reply_completes_op [OF sample_live r i k(1-4) list_buffer_ok(1) f k(5) p k(6), of calm False] by blast
qed

section \<open>The loss of the connection\<close>

lemma so_events_deliver:
  "\<not> so_completed op \<Longrightarrow> so_cell op = Some i \<Longrightarrow> conn_context (so_connection op) \<noteq> None \<Longrightarrow>
     Value_delivered i ec0 res0 \<in> set evs \<Longrightarrow>
     \<exists>op' ec res out st. so_events oom evs op = Inr op' \<and> Value_delivered i ec res \<in> set evs \<and>
       completions (so_log op') = completions (so_log op) @ [Set_value ec out st]"
proof (induction evs arbitrary: op)
  case (Cons ev evs)
  show ?case
  proof (cases "\<exists>ec res. ev = Value_delivered i ec res")
    case True
    then obtain ec res where ev: "ev = Value_delivered i ec res" by blast
    obtain op1 out st where 1: "so_on_result oom ec res op = Inr op1" "so_completed op1"
      "completions (so_log op1) = completions (so_log op) @ [Set_value ec out st]"
      using so_on_result_total [OF Cons(2,4)] by blast
    obtain s where "so_events oom evs op1 = Inr (op1\<lparr>so_successor := s\<rparr>)" using so_events_completed [OF 1(2)] by blast
    then have "so_events oom (ev # evs) op = Inr (op1\<lparr>so_successor := s\<rparr>)" using 1(1) ev Cons(3) by simp
    then show ?thesis using 1(3) ev by fastforce
  next
    case False
    then obtain s where s: "so_event oom ev op = Inr (op\<lparr>so_successor := s\<rparr>)"
      using Cons(3) by (cases ev) (auto intro: that [of "so_successor op"])
    have "Value_delivered i ec0 res0 \<in> set evs" using Cons(5) False by auto
    from Cons(1) [OF _ _ _ this, of "op\<lparr>so_successor := s\<rparr>"] Cons(2-4) show ?thesis using s by auto
  qed
qed simp

lemma lost_trace:
  assumes "phase s \<noteq> Phase_closed"
  shows "\<exists>evs. trace (connection_lost ec s) = trace s @ evs \<and>
    (\<forall>i ec' res. Value_delivered i ec' res \<in> set evs \<longrightarrow> ec' = ec) \<and>
    (\<forall>c \<in> set (write_queue s). \<not> op_staged c \<longrightarrow> \<not> op_finished c \<longrightarrow>
       Value_delivered (op_id c) ec (default_result (cmd_args (op_command c))) \<in> set evs)"
proof -
  let ?f = "concat (map (\<lambda>c. snd (op_fail ec c)) (filter (\<lambda>c. \<not> op_staged c) (write_queue s)))"
  let ?t = "if \<not> read_running s \<and> \<not> write_in_flight s then [Close_descriptor] else []"
  have t: "trace (connection_lost ec s) = trace s @ (if read_running s then [Shutdown_read] else []) @ ?f @ ?t"
    by (simp add: connection_lost_eq [OF assms] maybe_finish_close_def fail_cells_def)
  show ?thesis
    by (rule exI [of _ "(if read_running s then [Shutdown_read] else []) @ ?f @ ?t"])
      (auto simp: t op_fail_def deliver_value_def split: if_splits)
qed

definition lost_code :: "error_code \<Rightarrow> 'b core \<Rightarrow> error_code" where
  "lost_code ec k = (if bye_received k then Errc Server_bye else if ec = No_error then Errc Unexpected_response else ec)"


text \<open>The LOGIN has been written when the server hangs up.\<close>

definition login_written :: "octets state_op" where
  "login_written = so_after (take 4 (round_trip [])) login_sender"


end
