(* ===== verification/Submit_Sender.thy ===== *)
theory Submit_Sender
  imports Watch Session "HOL-Library.Code_Target_Nat"
begin

text \<open>
  The sender path of layer 1 (\<open>submit_sender\<close> and \<open>submit_operation\<close> of \<open>imap/detail/submit_sender.h\<close>)
  and the type-erased command of \<open>imap/imap_command.h\<close>: what a receiver that is connected to
  \<open>imap_context::submit\<close> is told, from the start of its operation to the end of the context.
\<close>

section \<open>Operation cells on the heap\<close>

text \<open>
  \<open>allocate_operation\<close> allocates, then constructs in place; a constructor that throws gives the memory
  back. The live addresses are a list; the Booleans say whether the allocator and
  the constructor throw. \<open>dispose\<close> destroys and frees, None when the address is not live.
\<close>

definition allocate_operation :: "bool \<Rightarrow> bool \<Rightarrow> nat \<Rightarrow> nat list \<Rightarrow> nat option \<times> nat list" where
  "allocate_operation alloc_throws construct_throws address live =
     (if alloc_throws then (None, live)
      else
        (let allocated = address # live
         in if construct_throws then (None, remove1 address allocated) else (Some address, allocated)))"

definition dispose :: "nat \<Rightarrow> nat list \<Rightarrow> nat list option" where
  "dispose address live = (if address \<in> set live then Some (remove1 address live) else None)"

lemma allocate_operation_cases:
  "allocate_operation x y a live = (r, live') \<Longrightarrow>
     (r = None \<and> live' = live) \<or> (r = Some a \<and> live' = a # live \<and> dispose a live' = Some live)"
  by (auto simp: allocate_operation_def dispose_def Let_def split: if_splits)

section \<open>Type-erased commands\<close>

text \<open>A handle owns a command with its handler, or nothing; \<open>release\<close> empties it.\<close>

record imap_command =
  ic_operation :: "command_args option"

definition empty_command :: imap_command where
  "empty_command = \<lparr>ic_operation = None\<rparr>"

definition make_command :: "command_args \<Rightarrow> imap_command" where
  "make_command a = \<lparr>ic_operation = Some a\<rparr>"

definition command_engaged :: "imap_command \<Rightarrow> bool" where
  "command_engaged h \<longleftrightarrow> ic_operation h \<noteq> None"

definition release :: "imap_command \<Rightarrow> command_args option \<times> imap_command" where
  "release h = (ic_operation h, h\<lparr>ic_operation := None\<rparr>)"

lemma release_once: "fst (release (snd (release h))) = None" "fst (release (make_command a)) = Some a"
  "command_engaged h \<longleftrightarrow> fst (release h) \<noteq> None"
  by (simp_all add: release_def make_command_def command_engaged_def)

section \<open>The operation state of the sender\<close>

text \<open>What \<open>start\<close> did: it completed the receiver itself, or it moved it into a cell.\<close>

datatype sender_start = Start_stopped | Start_failed error_code command_result | Start_cell nat

record submit_operation =
  sb_command :: command_args

definition connect_submit :: "command_args \<Rightarrow> submit_operation" where
  "connect_submit a = \<lparr>sb_command = a\<rparr>"

text \<open>
  \<open>start\<close> is \<open>noexcept\<close>, so an exception of \<open>start_operation\<close> terminates. A stop that is requested after
  the check is seen when the cell is attached (\<open>late_stop\<close>).
\<close>

definition submit_start ::
  "bool \<Rightarrow> fates \<Rightarrow> bool \<Rightarrow> bool \<Rightarrow> submit_operation \<Rightarrow> 'b core \<Rightarrow> fault + sender_start \<times> 'b core" where
  "submit_start oom f stop_requested late_stop op k =
     (if stop_requested then Inr (Start_stopped, k)
      else if oom then Inr (Start_failed Not_enough_memory (default_result (sb_command op)), k)
      else
        (case start_operation f (sb_command op) late_stop k of
           None \<Rightarrow> Inl Assertion_failed
         | Some (threw, k') \<Rightarrow> (if threw then Inl Terminated else Inr (Start_cell (next_id k), k'))))"

section \<open>What the receiver is told\<close>

datatype signal = Value_signal error_code command_result | Stopped_signal

fun signal_of :: "nat \<Rightarrow> event \<Rightarrow> signal option" where
  "signal_of i (Value_delivered j ec res) = (if j = i then Some (Value_signal ec res) else None)"
| "signal_of i (Stop_delivered j) = (if j = i then Some Stopped_signal else None)"
| "signal_of i _ = None"

fun receiver_signals :: "sender_start \<Rightarrow> event list \<Rightarrow> signal list" where
  "receiver_signals Start_stopped es = [Stopped_signal]"
| "receiver_signals (Start_failed ec res) es = [Value_signal ec res]"
| "receiver_signals (Start_cell i) es = List.map_filter (signal_of i) es"

lemma terminal_count:
  "count_list (terminals es) i =
     length (receiver_signals (Start_cell i) es) + count_list es (Withdrawn i) + count_list es (Dropped i)"
proof (induction es)
  case (Cons e es)
  then show ?case by (cases e) (auto simp: List.map_filter_simps)
qed (simp add: List.map_filter_simps)

definition engine_step :: "'b buffer_ops \<Rightarrow> 'b core \<Rightarrow> 'b core \<Rightarrow> bool" where
  "engine_step ops s s' \<longleftrightarrow> (\<exists>a. enabled a s \<and> perform ops a s = Some s')"

text \<open>The cells of one path keep it: a receiver is never withdrawn, a handler never told a stop.\<close>

interpretation path: full_watch "\<lambda>c. op_id c = i \<longrightarrow> op_callback c = b" "\<lambda>c. op_id c = i \<longrightarrow> op_callback c = b"
  "\<lambda>e. e \<noteq> (if b then Stop_delivered i else Withdrawn i)" "Suc i"
  by unfold_locales
    (auto simp: op_fail_def op_on_tagged_def op_complete_stopped_def deliver_value_def deliver_stopped_def
      split: prod.splits if_splits)

abbreviation path_watch :: "nat \<Rightarrow> bool \<Rightarrow> 'b core \<Rightarrow> bool" where
  "path_watch i b \<equiv> watched (\<lambda>c. op_id c = i \<longrightarrow> op_callback c = b) (\<lambda>c. op_id c = i \<longrightarrow> op_callback c = b)
     (\<lambda>e. e \<noteq> (if b then Stop_delivered i else Withdrawn i))"

lemma path_run:
  assumes "rtranclp (engine_step ops) k1 k2" "path_watch i b k1" "Suc i \<le> next_id k1" "reachable ops k1"
  shows "path_watch i b k2 \<and> Suc i \<le> next_id k2 \<and> reachable ops k2"
  using assms
proof (induction rule: rtranclp_induct)
  case (step k k')
  obtain a where a: "enabled a k" "perform ops a k = Some k'" using step(2) by (auto simp: engine_step_def)
  have k: "path_watch i b k" "Suc i \<le> next_id k" "reachable ops k" using step by simp_all
  show ?case using path.watch_perform [OF k(1,2) a(2)] perform_next_id [OF a(2)] reachable.step [OF k(3) a] k(2) by simp
qed simp

lemma path_unborn:
  assumes "reachable ops k"
  shows "path_watch (next_id k) b k"
proof -
  note u = unborn [OF reachable_inv [OF assms]]
  have "e \<noteq> (if b then Stop_delivered (next_id k) else Withdrawn (next_id k))" if "e \<in> set (trace k)" for e
    using u(3) that by auto
  then show ?thesis using u(1,2) unfolding watched_def by (simp add: list_all_iff)
qed

lemma submit_start_watch:
  assumes r: "reachable ops k" and s: "start_operation f a stop k = Some (b, k')"
  shows "path_watch (next_id k) False k'"
proof -
  obtain c tag k1 where c: "make_cell a False stop k = Some (c, tag, k1)" "enqueue_operation f c tag True k1 = (b, k')"
    using s by (auto simp: start_operation_def)
  note m = make_cell_Some [OF c(1)]
  have "path_watch (next_id k) False k1" using path_unborn [OF r, of False] m by (simp add: watched_def)
  then have "path_watch (next_id k) False (snd (enqueue_operation f c tag True k1))"
    by (rule path.watch_enqueue) (use m in simp)
  then show ?thesis using c(2) by simp
qed

section \<open>Properties\<close>

text \<open>
  C6. The sender path of layer 1 keeps the sender contract: a started operation completes its
  receiver at most once, on the value or on the stopped channel, under every later interleaving of
  calls, completions and errors. When \<open>start\<close> does not complete it at once, the operation is at any
  later time in exactly one of these situations: it waits in the queue, its stopped completion is
  posted, the receiver has been told, or its cell was dropped with the context; and its receiver is
  never silently withdrawn, as a cancelled callback is.
\<close>

theorem sender_signals_once:
  assumes "reachable ops k" "submit_start oom f stop late (connect_submit a) k = Inr (st, k1)"
    and "\<not> abandoned k" "rtranclp (engine_step ops) k1 k2"
  shows "length (receiver_signals st (trace k2)) \<le> 1 \<and>
    (\<forall>i. st = Start_cell i \<longrightarrow> Withdrawn i \<notin> set (trace k2) \<and>
       count_list (map op_id (write_queue k2)) i + count_list (map op_id (posted_stops k2)) i +
         length (receiver_signals st (trace k2)) + count_list (trace k2) (Dropped i) = 1)"
proof (cases "\<exists>i. st = Start_cell i")
  case True
  then have "\<not> stop \<and> \<not> oom" using assms(2) by (cases stop; cases oom) (auto simp: submit_start_def)
  then have o: "(case start_operation f a late k of None \<Rightarrow> Inl Assertion_failed
      | Some (threw, k') \<Rightarrow> (if threw then Inl Terminated else Inr (Start_cell (next_id k), k'))) = Inr (st, k1)"
    using assms(2) by (simp add: submit_start_def connect_submit_def)
  have s: "start_operation f a late k = Some (False, k1) \<and> st = Start_cell (next_id k)"
  proof (cases "start_operation f a late k")
    case (Some y)
    then show ?thesis using o by (cases y) (simp split: if_splits)
  qed (use o in simp)
  let ?i = "next_id k"
  have n: "next_id k1 = Suc ?i" using submit_next_id(2) [OF conjunct1 [OF s]] by simp
  have "perform ops (Start f a late) k = Some k1" "enabled (Start f a late) k" using s assms(3) by simp_all
  then have r1: "reachable ops k1" using reachable.step [OF assms(1)] by blast
  have 2: "path_watch ?i False k2" "Suc ?i \<le> next_id k2" "reachable ops k2"
    using path_run [OF assms(4) submit_start_watch [OF assms(1) conjunct1 [OF s]] _ r1] n by simp_all
  have w: "Withdrawn ?i \<notin> set (trace k2)" using 2(1) by (auto simp: watched_def list_all_iff)
  have "account k2 = mset [0 ..< next_id k2]" using reachable_inv [OF 2(3)] by (simp add: core_inv_def ledger_def)
  then have "count (account k2) ?i = 1" using 2(2) by (simp add: count_mset_set')
  then have "count_list (map op_id (write_queue k2)) ?i + count_list (map op_id (posted_stops k2)) ?i +
      count_list (terminals (trace k2)) ?i = 1"
    unfolding account_def by (simp add: count_mset del: mset_map)
  moreover have "count_list (trace k2) (Withdrawn ?i) = 0" using w by (simp add: count_list_0_iff)
  ultimately show ?thesis using w s terminal_count [of "trace k2" ?i] by auto
next
  case False
  then show ?thesis by (cases st) auto
qed

text \<open>A NOOP sender whose reply arrives.\<close>

definition noop_started :: "octets core" where
  "noop_started = snd (projr (submit_start False calm False False (connect_submit Noop) (arm_read calm (new_core []))))"

definition noop_reply :: "action list" where
  "noop_reply = [Run_kick No_error, Arm_write calm, Finish_write calm No_error,
     Finish_read No_error (''a0001 OK done'' @ CRLF), Read_round calm]"

definition noop_answered :: "octets core" where
  "noop_answered = the (run list_buffer noop_reply noop_started)"

lemma run_steps: "run ops as s = Some s' \<Longrightarrow> rtranclp (engine_step ops) s s'"
proof (induction as arbitrary: s)
  case (Cons a as)
  obtain s1 where 1: "enabled a s" "perform ops a s = Some s1" "run ops as s1 = Some s'"
    using Cons(2) by (auto split: if_splits option.splits)
  have "engine_step ops s s1" using 1 unfolding engine_step_def by blast
  then show ?case using Cons(1) [OF 1(3)] by (rule converse_rtranclp_into_rtranclp)
qed simp

theorem sender_signals_once_witness:
  "submit_start False calm False False (connect_submit Noop) (arm_read calm (new_core [])) = Inr (Start_cell 0, noop_started) \<and>
   receiver_signals (Start_cell 0) (trace noop_answered) = [Value_signal No_error No_result] \<and>
   length (receiver_signals (Start_cell 0) (trace noop_answered)) \<le> 1"
proof -
  let ?k = "arm_read calm (new_core ([] :: octets))"
  let ?r = "submit_start False calm False False (connect_submit Noop) ?k"
  have "case ?r of Inr (Start_cell 0, k) \<Rightarrow> True | _ \<Rightarrow> False" by code_simp
  then have s: "?r = Inr (Start_cell 0, noop_started)"
    by (auto simp: noop_started_def split: sum.splits prod.splits sender_start.splits nat.splits)
  have "\<not> Option.is_none (run list_buffer noop_reply noop_started)" by code_simp
  then have "run list_buffer noop_reply noop_started = Some noop_answered"
    by (cases "run list_buffer noop_reply noop_started") (simp_all add: noop_answered_def)
  then have r: "rtranclp (engine_step list_buffer) noop_started noop_answered" by (rule run_steps)
  have "\<not> abandoned ?k" by code_simp
  from sender_signals_once [OF reachable.fresh s this r]
  have "length (receiver_signals (Start_cell 0) (trace noop_answered)) \<le> 1" by blast
  moreover have "receiver_signals (Start_cell 0) (trace noop_answered) = [Value_signal No_error No_result]" by code_simp
  ultimately show ?thesis using s by blast
qed

end
