(* ===== verification/Context_Shell.thy ===== *)
theory Context_Shell
  imports Submit_Sender
begin

text \<open>
  The public handle \<open>imap_context\<close> of \<open>imap/imap_context.h\<close>: a shell around the shared core, which
  survives the shell while a pump is in flight. A move leaves an empty shell behind; every call on it
  follows a null pointer, and only its destruction is allowed.

  The shell keeps the scheduler that the next I/O borrows. Which scheduler runs a posted task does not
  matter to the engine, whose runs choose the next action freely.

  The locale \<open>shell_operation\<close> is what the calls of the shell promise: each is an action of the engine on
  the core. It carries the state that layer 2 relies on, a living core, from call to call.
\<close>

section \<open>The shell\<close>

record 'b imap_context =
  ctx_core :: "'b core option"
  ctx_scheduler :: nat

definition new_context :: "fates \<Rightarrow> 'b \<Rightarrow> nat \<Rightarrow> 'b imap_context" where
  "new_context f b ioc = \<lparr>ctx_core = Some (arm_read f (new_core b)), ctx_scheduler = ioc\<rparr>"

text \<open>The new shell and what is left of the old one.\<close>

definition move_context :: "'b imap_context \<Rightarrow> 'b imap_context \<times> 'b imap_context" where
  "move_context c = (c, c\<lparr>ctx_core := None\<rparr>)"

text \<open>What is left of the core when the shell is gone.\<close>

definition destroy_context :: "'b imap_context \<Rightarrow> 'b core option" where
  "destroy_context c = map_option abandon (ctx_core c)"

section \<open>The calls\<close>

definition on_core :: "('b core \<Rightarrow> fault + 'r \<times> 'b core) \<Rightarrow> 'b imap_context \<Rightarrow> fault + 'r \<times> 'b imap_context" where
  "on_core g c =
     (case ctx_core c of
        None \<Rightarrow> Inl Dangling_pointer
      | Some k \<Rightarrow> proceed (g k) (\<lambda>(r, k'). Inr (r, c\<lparr>ctx_core := Some k'\<rparr>)))"

text \<open>The callback path returns the tag; a throwing registry insertion leaves through the call.\<close>

definition ctx_submit :: "fates \<Rightarrow> command_args \<Rightarrow> 'b imap_context \<Rightarrow> fault + octets option \<times> 'b imap_context" where
  "ctx_submit f a =
     on_core (\<lambda>k. case submit f a k of
                   None \<Rightarrow> Inl Assertion_failed
                 | Some (threw, k') \<Rightarrow> Inr (if threw then None else Some (fst (allocate_tag k)), k'))"

definition ctx_submit_batch :: "(fates \<times> imap_command) list \<Rightarrow> 'b imap_context \<Rightarrow> fault + unit \<times> 'b imap_context" where
  "ctx_submit_batch hs =
     on_core (\<lambda>k. if \<exists>(f, h) \<in> set hs. \<not> command_engaged h then Inl Dangling_pointer
       else (case submit_batch (map (\<lambda>(f, h). (f, the (fst (release h)))) hs) k of
               None \<Rightarrow> Inl Assertion_failed | Some k' \<Rightarrow> Inr ((), k')))"

definition ctx_start_operation :: "fates \<Rightarrow> command_args \<Rightarrow> bool \<Rightarrow> 'b imap_context \<Rightarrow> fault + bool \<times> 'b imap_context" where
  "ctx_start_operation f a stop =
     on_core (\<lambda>k. case start_operation f a stop k of None \<Rightarrow> Inl Assertion_failed | Some r \<Rightarrow> Inr r)"

definition ctx_flush :: "fates \<Rightarrow> 'b imap_context \<Rightarrow> fault + unit \<times> 'b imap_context" where
  "ctx_flush f = on_core (\<lambda>k. Inr ((), flush f k))"

definition ctx_cancel :: "fates \<Rightarrow> octets \<Rightarrow> 'b imap_context \<Rightarrow> fault + unit \<times> 'b imap_context" where
  "ctx_cancel f tag = on_core (\<lambda>k. case cancel f tag k of None \<Rightarrow> Inl Dangling_pointer | Some k' \<Rightarrow> Inr ((), k'))"

definition ctx_on_unsolicited :: "'b imap_context \<Rightarrow> fault + nat \<times> 'b imap_context" where
  "ctx_on_unsolicited = on_core (\<lambda>k. Inr (on_unsolicited k))"

definition ctx_close :: "'b imap_context \<Rightarrow> fault + unit \<times> 'b imap_context" where
  "ctx_close = on_core (\<lambda>k. Inr ((), close k))"

definition ctx_suspend_read :: "'b imap_context \<Rightarrow> fault + unit \<times> 'b imap_context" where
  "ctx_suspend_read = on_core (\<lambda>k. Inr ((), suspend_read_for_relocation k))"

definition ctx_is_read_suspended :: "'b imap_context \<Rightarrow> fault + bool \<times> 'b imap_context" where
  "ctx_is_read_suspended = on_core (\<lambda>k. Inr (is_read_suspended k, k))"

definition ctx_is_alive :: "'b imap_context \<Rightarrow> fault + bool \<times> 'b imap_context" where
  "ctx_is_alive = on_core (\<lambda>k. Inr (is_alive k, k))"

definition ctx_allocate_tag :: "'b imap_context \<Rightarrow> fault + octets \<times> 'b imap_context" where
  "ctx_allocate_tag = on_core (\<lambda>k. Inr (allocate_tag k))"

definition ctx_set_io_context :: "nat \<Rightarrow> 'b imap_context \<Rightarrow> fault + unit \<times> 'b imap_context" where
  "ctx_set_io_context ioc c =
     proceed (on_core (\<lambda>k. Inr ((), k)) c) (\<lambda>(_, c'). Inr ((), c'\<lparr>ctx_scheduler := ioc\<rparr>))"

definition ctx_io_context :: "'b imap_context \<Rightarrow> fault + nat" where
  "ctx_io_context c = proceed (on_core (\<lambda>k. Inr ((), k)) c) (\<lambda>_. Inr (ctx_scheduler c))"

section \<open>The contract of the calls\<close>

locale shell_operation =
  fixes ops :: "'b buffer_ops" and call :: "'b imap_context \<Rightarrow> fault + 'r \<times> 'b imap_context"
  assumes empty_shell: "ctx_core c = None \<Longrightarrow> call c = Inl Dangling_pointer"
    and engine_action: "ctx_core c = Some k \<Longrightarrow> \<not> abandoned k \<Longrightarrow> call c = Inr (r, c') \<Longrightarrow>
      \<exists>k'. ctx_core c' = Some k' \<and> abandoned k' = abandoned k \<and>
        (k' = k \<or> (\<exists>a. enabled a k \<and> perform ops a k = Some k'))"
begin

lemma keeps_living:
  assumes "ctx_core c = Some k" "living ops k" "call c = Inr (r, c')"
  shows "\<exists>k'. ctx_core c' = Some k' \<and> living ops k'"
proof -
  obtain k' where "ctx_core c' = Some k'" "abandoned k' = abandoned k" "k' = k \<or> (\<exists>a. enabled a k \<and> perform ops a k = Some k')"
    using engine_action [OF assms(1) _ assms(3)] assms(2) by (auto simp: living_def)
  then show ?thesis using living_step assms(2) by (metis (full_types))
qed

lemma needs_core: "call c = Inr (r, c') \<Longrightarrow> ctx_core c \<noteq> None"
  using empty_shell by force

end

lemma on_core_empty: "ctx_core c = None \<Longrightarrow> on_core g c = Inl Dangling_pointer"
  by (simp add: on_core_def)

lemma on_core_Inr:
  "on_core g c = Inr (r, c') \<longleftrightarrow> (\<exists>k k'. ctx_core c = Some k \<and> g k = Inr (r, k') \<and> c' = c\<lparr>ctx_core := Some k'\<rparr>)"
  by (auto simp: on_core_def proceed_Inr split: option.splits)

text \<open>A call that runs an action of the engine, and one that only looks.\<close>

lemma on_core_operation:
  assumes "\<And>k r k'. \<not> abandoned k \<Longrightarrow> g k = Inr (r, k') \<Longrightarrow>
    abandoned k' = abandoned k \<and> (k' = k \<or> (\<exists>a. enabled a k \<and> perform ops a k = Some k'))"
  shows "shell_operation ops (on_core g)"
proof
  fix c k r c' assume c: "ctx_core c = Some k" "\<not> abandoned k" "on_core g c = Inr (r, c')"
  then obtain k' where k': "g k = Inr (r, k')" "c' = c\<lparr>ctx_core := Some k'\<rparr>" by (auto simp: on_core_Inr)
  then show "\<exists>k'. ctx_core c' = Some k' \<and> abandoned k' = abandoned k \<and>
    (k' = k \<or> (\<exists>a. enabled a k \<and> perform ops a k = Some k'))" using assms [OF c(2) k'(1)] by simp
qed (rule on_core_empty)

lemma start_abandoned: "start_operation f a stop s = Some (b, s') \<Longrightarrow> abandoned s' = abandoned s"
  by (auto simp: start_operation_def make_cell_def enqueue_operation_def allocate_tag_def extract_from_queue_locked_def Let_def
      split: prod.splits if_splits option.splits)

lemma close_abandoned: "abandoned (close s) = abandoned s"
  by (simp add: close_def Let_def take_cells_locked_def)

lemma batch_abandoned: "submit_batch as s = Some s' \<Longrightarrow> abandoned s' = abandoned s"
proof (induction as arbitrary: s)
  case (Cons x as)
  obtain f a where x: "x = (f, a)" by fastforce
  obtain b s1 where 1: "submit f a s = Some (b, s1)" using Cons(2) x by (auto split: option.splits)
  show ?case using Cons 1 x calls_abandoned(1) [OF 1] by (cases b) (auto simp: drop_batch_def)
qed simp

interpretation shell_submit: shell_operation ops "ctx_submit f a"
  unfolding ctx_submit_def
  by (rule on_core_operation) (auto simp: calls_abandoned(1) intro!: exI [of _ "Submit f a"] split: option.splits prod.splits)

interpretation shell_start: shell_operation ops "ctx_start_operation f a stop"
  unfolding ctx_start_operation_def
  by (rule on_core_operation) (auto simp: start_abandoned intro!: exI [of _ "Start f a stop"] split: option.splits)

interpretation shell_flush: shell_operation ops "ctx_flush f"
  unfolding ctx_flush_def
  by (rule on_core_operation) (auto simp: flush_def intro!: exI [of _ "Flush f"])

interpretation shell_cancel: shell_operation ops "ctx_cancel f tag"
  unfolding ctx_cancel_def
  by (rule on_core_operation) (auto simp: calls_abandoned(2) intro!: exI [of _ "Cancel f tag"] split: option.splits)

interpretation shell_listen: shell_operation ops ctx_on_unsolicited
  unfolding ctx_on_unsolicited_def
  by (rule on_core_operation) (auto simp: on_unsolicited_def intro!: exI [of _ Add_handler_call] split: prod.splits)

interpretation shell_close: shell_operation ops ctx_close
  unfolding ctx_close_def
  by (rule on_core_operation) (auto simp: close_abandoned intro!: exI [of _ Close])

interpretation shell_suspend: shell_operation ops ctx_suspend_read
  unfolding ctx_suspend_read_def
  by (rule on_core_operation) (auto simp: suspend_read_for_relocation_def intro!: exI [of _ Suspend_read])

interpretation shell_alive: shell_operation ops ctx_is_alive
  unfolding ctx_is_alive_def by (rule on_core_operation) auto

interpretation shell_suspended: shell_operation ops ctx_is_read_suspended
  unfolding ctx_is_read_suspended_def by (rule on_core_operation) auto

interpretation shell_batch: shell_operation ops "ctx_submit_batch hs"
  unfolding ctx_submit_batch_def
  by (rule on_core_operation)
    (auto simp: batch_abandoned intro!: exI [of _ "Submit_batch (map (\<lambda>(f, h). (f, the (fst (release h)))) hs)"]
      split: if_splits option.splits)

interpretation shell_context: shell_operation ops "ctx_set_io_context ioc"
  by unfold_locales (auto simp: ctx_set_io_context_def on_core_empty on_core_def)

lemma tag_keeps_core: "ctx_allocate_tag c = Inr (tag, c') \<Longrightarrow> ctx_core c = Some k \<Longrightarrow>
    tag = tag_text (tag_counter k) \<and> ctx_core c' = Some (k\<lparr>tag_counter := wrap64 (tag_counter k + 1)\<rparr>)"
  by (auto simp: ctx_allocate_tag_def on_core_Inr allocate_tag_def)

text \<open>A shell that has been moved from only dies, and its death touches nothing.\<close>

lemma moved_from_shell:
  "snd (move_context c) = c' \<Longrightarrow> ctx_core c' = None \<and> destroy_context c' = None \<and> ctx_io_context c' = Inl Dangling_pointer"
  by (auto simp: move_context_def destroy_context_def ctx_io_context_def on_core_def)

lemma fresh_shell: "\<exists>k. ctx_core (new_context f b ioc) = Some k \<and> living ops k"
  by (simp add: new_context_def living_fresh)

end
