(* ===== verification/Unique_Function.thy ===== *)
theory Unique_Function
  imports Main
begin

text \<open>
  The move-only callable wrapper of \<open>common/detail/unique_function.h\<close>, which holds the handlers of
  unsolicited responses. The target lives in a heap cell that exactly one wrapper owns, and the
  wrapper keeps three pointers to it: the cell, the invoker and the deleter.

  The state is explicit: the cells that are allocated, and the wrapper objects that are alive, both
  by address, so that moves and assignments between two names of one object are covered. The result
  None is undefined behaviour: freeing a cell that is not allocated, calling through a null pointer,
  or a failing assertion.
\<close>

section \<open>Wrappers and the heap\<close>

record uf_wrapper =
  uf_target :: "nat option"
  uf_invoke :: bool
  uf_destroy :: bool

record 'f uf_state =
  uf_cells :: "nat \<rightharpoonup> 'f"
  uf_next :: nat
  uf_objects :: "nat \<rightharpoonup> uf_wrapper"

definition uf_null :: uf_wrapper where
  "uf_null = \<lparr>uf_target = None, uf_invoke = False, uf_destroy = False\<rparr>"

definition uf_put :: "nat \<Rightarrow> uf_wrapper \<Rightarrow> 'f uf_state \<Rightarrow> 'f uf_state" where
  "uf_put v w s = s\<lparr>uf_objects := (uf_objects s)(v \<mapsto> w)\<rparr>"

section \<open>Operations\<close>

definition uf_construct_empty :: "nat \<Rightarrow> 'f uf_state \<Rightarrow> 'f uf_state option" where
  "uf_construct_empty v s = Some (uf_put v uf_null s)"

definition uf_construct :: "nat \<Rightarrow> 'f \<Rightarrow> 'f uf_state \<Rightarrow> 'f uf_state option" where
  "uf_construct v f s =
     Some (uf_put v \<lparr>uf_target = Some (uf_next s), uf_invoke = True, uf_destroy = True\<rparr>
             (s\<lparr>uf_cells := (uf_cells s)(uf_next s \<mapsto> f), uf_next := uf_next s + 1\<rparr>))"

text \<open>\<open>std::exchange\<close> of all three pointers of the source.\<close>

definition uf_construct_from :: "nat \<Rightarrow> nat \<Rightarrow> 'f uf_state \<Rightarrow> 'f uf_state option" where
  "uf_construct_from v u s =
     (case uf_objects s u of None \<Rightarrow> None | Some w \<Rightarrow> Some (uf_put v w (uf_put u uf_null s)))"

definition uf_reset :: "nat \<Rightarrow> 'f uf_state \<Rightarrow> 'f uf_state option" where
  "uf_reset v s =
     (case uf_objects s v of
        None \<Rightarrow> None
      | Some w \<Rightarrow>
          (case uf_target w of
             None \<Rightarrow> Some s
           | Some a \<Rightarrow>
               (if \<not> uf_destroy w \<or> uf_cells s a = None then None
                else Some (uf_put v uf_null (s\<lparr>uf_cells := (uf_cells s)(a := None)\<rparr>)))))"

definition uf_assign :: "nat \<Rightarrow> nat \<Rightarrow> 'f uf_state \<Rightarrow> 'f uf_state option" where
  "uf_assign v u s =
     (if v = u then Some s
      else
        (case uf_reset v s of
           None \<Rightarrow> None
         | Some s1 \<Rightarrow> (case uf_objects s1 u of None \<Rightarrow> None | Some w \<Rightarrow> Some (uf_put v w (uf_put u uf_null s1)))))"

definition uf_destruct :: "nat \<Rightarrow> 'f uf_state \<Rightarrow> 'f uf_state option" where
  "uf_destruct v s =
     (case uf_reset v s of None \<Rightarrow> None | Some s1 \<Rightarrow> Some (s1\<lparr>uf_objects := (uf_objects s1)(v := None)\<rparr>))"

definition uf_swap :: "nat \<Rightarrow> nat \<Rightarrow> 'f uf_state \<Rightarrow> 'f uf_state option" where
  "uf_swap v u s =
     (case (uf_objects s v, uf_objects s u) of
        (Some w, Some w') \<Rightarrow> Some (uf_put u w (uf_put v w' s)) | _ \<Rightarrow> None)"

definition uf_engaged :: "nat \<Rightarrow> 'f uf_state \<Rightarrow> bool" where
  "uf_engaged v s = (case uf_objects s v of None \<Rightarrow> False | Some w \<Rightarrow> uf_target w \<noteq> None)"

text \<open>The callable that a call runs.\<close>

definition uf_call :: "nat \<Rightarrow> 'f uf_state \<Rightarrow> 'f option" where
  "uf_call v s =
     (case uf_objects s v of
        None \<Rightarrow> None
      | Some w \<Rightarrow> (case uf_target w of None \<Rightarrow> None | Some a \<Rightarrow> (if uf_invoke w then uf_cells s a else None)))"

section \<open>Programs\<close>

text \<open>Construction needs a free name, every other operation objects that are alive.\<close>

datatype 'f uf_action = Uf_construct_empty nat | Uf_construct nat 'f | Uf_construct_from nat nat
  | Uf_reset nat | Uf_assign nat nat | Uf_swap nat nat | Uf_destruct nat

fun uf_legal :: "'f uf_action \<Rightarrow> 'f uf_state \<Rightarrow> bool" where
  "uf_legal (Uf_construct_empty v) s \<longleftrightarrow> uf_objects s v = None"
| "uf_legal (Uf_construct v f) s \<longleftrightarrow> uf_objects s v = None"
| "uf_legal (Uf_construct_from v u) s \<longleftrightarrow> uf_objects s v = None \<and> uf_objects s u \<noteq> None"
| "uf_legal (Uf_reset v) s \<longleftrightarrow> uf_objects s v \<noteq> None"
| "uf_legal (Uf_assign v u) s \<longleftrightarrow> uf_objects s v \<noteq> None \<and> uf_objects s u \<noteq> None"
| "uf_legal (Uf_swap v u) s \<longleftrightarrow> uf_objects s v \<noteq> None \<and> uf_objects s u \<noteq> None"
| "uf_legal (Uf_destruct v) s \<longleftrightarrow> uf_objects s v \<noteq> None"

fun uf_perform :: "'f uf_action \<Rightarrow> 'f uf_state \<Rightarrow> 'f uf_state option" where
  "uf_perform (Uf_construct_empty v) s = uf_construct_empty v s"
| "uf_perform (Uf_construct v f) s = uf_construct v f s"
| "uf_perform (Uf_construct_from v u) s = uf_construct_from v u s"
| "uf_perform (Uf_reset v) s = uf_reset v s"
| "uf_perform (Uf_assign v u) s = uf_assign v u s"
| "uf_perform (Uf_swap v u) s = uf_swap v u s"
| "uf_perform (Uf_destruct v) s = uf_destruct v s"

definition uf_initial :: "'f uf_state" where
  "uf_initial = \<lparr>uf_cells = Map.empty, uf_next = 0, uf_objects = Map.empty\<rparr>"

inductive uf_reachable :: "'f uf_state \<Rightarrow> bool" where
  start: "uf_reachable uf_initial"
| step: "uf_reachable s \<Longrightarrow> uf_legal a s \<Longrightarrow> uf_perform a s = Some s' \<Longrightarrow> uf_reachable s'"

section \<open>Ownership\<close>

definition uf_whole :: "uf_wrapper \<Rightarrow> bool" where
  "uf_whole w \<longleftrightarrow> uf_invoke w = (uf_target w \<noteq> None) \<and> uf_destroy w = (uf_target w \<noteq> None)"

definition uf_owns :: "nat \<Rightarrow> nat \<Rightarrow> 'f uf_state \<Rightarrow> bool" where
  "uf_owns v a s \<longleftrightarrow> (\<exists>w. uf_objects s v = Some w \<and> uf_target w = Some a)"

text \<open>Every cell has exactly one owner, every pointer a cell, and the pointers go together.\<close>

definition uf_inv :: "'f uf_state \<Rightarrow> bool" where
  "uf_inv s \<longleftrightarrow>
     (\<forall>v w. uf_objects s v = Some w \<longrightarrow> uf_whole w) \<and>
     (\<forall>a. uf_cells s a \<noteq> None \<longleftrightarrow> (\<exists>v. uf_owns v a s)) \<and>
     (\<forall>a v u. uf_owns v a s \<longrightarrow> uf_owns u a s \<longrightarrow> v = u) \<and>
     (\<forall>a. uf_next s \<le> a \<longrightarrow> uf_cells s a = None)"

lemma uf_put_simps [simp]:
  "uf_objects (uf_put v w s) = (uf_objects s)(v \<mapsto> w)" "uf_cells (uf_put v w s) = uf_cells s"
  "uf_next (uf_put v w s) = uf_next s"
  by (simp_all add: uf_put_def)

lemma uf_null_simps [simp]: "uf_target uf_null = None" "uf_whole uf_null"
  by (simp_all add: uf_null_def uf_whole_def)

lemma uf_owns_put [simp]: "uf_owns x a (uf_put v w s) \<longleftrightarrow> (if x = v then uf_target w = Some a else uf_owns x a s)"
  by (simp add: uf_owns_def)

lemma uf_invD:
  assumes "uf_inv s"
  shows "uf_objects s v = Some w \<Longrightarrow> uf_whole w" "uf_cells s a \<noteq> None \<longleftrightarrow> (\<exists>v. uf_owns v a s)"
    "uf_owns v a s \<Longrightarrow> uf_owns u a s \<Longrightarrow> v = u" "uf_next s \<le> a \<Longrightarrow> uf_cells s a = None"
  using assms unfolding uf_inv_def by blast+

text \<open>A name that owns nothing can be given the pointers of another one, which is left empty.\<close>

lemma uf_transfer:
  assumes i: "uf_inv s" and u: "uf_objects s u = Some w" "u \<noteq> v" and v: "\<And>a. \<not> uf_owns v a s"
  shows "uf_inv (uf_put v w (uf_put u uf_null s))"
proof -
  have o: "uf_owns x a (uf_put v w (uf_put u uf_null s)) \<longleftrightarrow> (if x = v then uf_owns u a s else x \<noteq> u \<and> uf_owns x a s)" for x a
    using u by (auto simp: uf_owns_def)
  have e: "(\<exists>x. uf_owns x a (uf_put v w (uf_put u uf_null s))) \<longleftrightarrow> (\<exists>x. uf_owns x a s)" for a
    unfolding o using v u(2) by metis
  show ?thesis
    unfolding uf_inv_def e
  proof (intro conjI allI impI)
    fix a x y assume "uf_owns x a (uf_put v w (uf_put u uf_null s))" "uf_owns y a (uf_put v w (uf_put u uf_null s))"
    then show "x = y" unfolding o using uf_invD(3) [OF i, of _ a] by (metis (full_types))
  qed (use uf_invD(1,2,4) [OF i] u(1) in \<open>auto split: if_splits\<close>)
qed

lemma uf_reset_ok:
  assumes i: "uf_inv s" and v: "uf_objects s v \<noteq> None"
  shows "\<exists>s'. uf_reset v s = Some s' \<and> uf_inv s' \<and> (\<forall>a. \<not> uf_owns v a s') \<and> uf_objects s' v \<noteq> None \<and>
    (\<forall>u. u \<noteq> v \<longrightarrow> uf_objects s' u = uf_objects s u)"
proof -
  obtain w where w: "uf_objects s v = Some w" using v by auto
  show ?thesis
  proof (cases "uf_target w")
    case None
    then show ?thesis using i w by (auto simp: uf_reset_def uf_owns_def)
  next
    case (Some a)
    have own: "uf_owns v a s" using w Some by (simp add: uf_owns_def)
    then have c: "uf_cells s a \<noteq> None" using uf_invD(2) [OF i, of a] by blast
    have d: "uf_destroy w" using uf_invD(1) [OF i w] Some by (simp add: uf_whole_def)
    let ?s = "uf_put v uf_null (s\<lparr>uf_cells := (uf_cells s)(a := None)\<rparr>)"
    have o: "uf_owns x b ?s \<longleftrightarrow> x \<noteq> v \<and> uf_owns x b s" for x b by (auto simp: uf_owns_def)
    have only: "uf_owns x a s \<longleftrightarrow> x = v" for x using uf_invD(3) [OF i _ own] own by blast
    have va: "uf_owns v b s \<longleftrightarrow> b = a" for b using w Some by (auto simp: uf_owns_def)
    have e: "uf_cells ?s b \<noteq> None \<longleftrightarrow> (\<exists>x. uf_owns x b ?s)" for b
    proof (cases "b = a")
      case True
      then show ?thesis unfolding o using only by simp
    next
      case False
      then have "(\<exists>x. x \<noteq> v \<and> uf_owns x b s) \<longleftrightarrow> (\<exists>x. uf_owns x b s)" using va by metis
      then show ?thesis unfolding o using uf_invD(2) [OF i, of b] False by simp
    qed
    have "uf_inv ?s"
      unfolding uf_inv_def
    proof (intro conjI allI impI)
      fix b x y assume "uf_owns x b ?s" "uf_owns y b ?s"
      then show "x = y" unfolding o using uf_invD(3) [OF i] by blast
    qed (use e uf_invD(1,4) [OF i] in \<open>auto split: if_splits\<close>)
    then show ?thesis using w Some c d by (auto simp: uf_reset_def uf_owns_def)
  qed
qed

lemma uf_fresh: "uf_inv s \<Longrightarrow> uf_objects s v = None \<Longrightarrow> uf_inv (uf_put v uf_null s)"
  unfolding uf_inv_def by (auto simp: uf_owns_def split: if_splits) (metis option.distinct(1) option.sel)+

lemma uf_construct_inv:
  assumes i: "uf_inv s" and v: "uf_objects s v = None"
  shows "uf_inv (uf_put v \<lparr>uf_target = Some (uf_next s), uf_invoke = True, uf_destroy = True\<rparr>
    (s\<lparr>uf_cells := (uf_cells s)(uf_next s \<mapsto> f), uf_next := uf_next s + 1\<rparr>))" (is "uf_inv ?s")
proof -
  have n: "uf_owns x a s \<Longrightarrow> a < uf_next s" for x a
    using uf_invD(2,4) [OF i, of a] by (meson not_le)
  have o: "uf_owns x a ?s \<longleftrightarrow> (if x = v then a = uf_next s else uf_owns x a s)" for x a
    by (auto simp: uf_owns_def)
  have nv: "\<not> uf_owns v a s" for a using v by (simp add: uf_owns_def)
  show ?thesis
    unfolding uf_inv_def
  proof (intro conjI allI impI)
    fix a x y assume "uf_owns x a ?s" "uf_owns y a ?s"
    then show "x = y" unfolding o using uf_invD(3) [OF i] n by (metis nat_neq_iff)
  next
    fix a show "uf_cells ?s a \<noteq> None \<longleftrightarrow> (\<exists>x. uf_owns x a ?s)"
      unfolding o using uf_invD(2) [OF i, of a] nv by (auto; metis)
  qed (use uf_invD(1,4) [OF i] in \<open>auto simp: uf_whole_def split: if_splits\<close>)
qed

lemma uf_swap_inv:
  assumes i: "uf_inv s" and w: "uf_objects s v = Some w" "uf_objects s u = Some w'"
  shows "uf_inv (uf_put u w (uf_put v w' s))"
proof -
  let ?p = "\<lambda>x. if x = u then v else if x = v then u else x"
  have o: "uf_owns x a (uf_put u w (uf_put v w' s)) \<longleftrightarrow> uf_owns (?p x) a s" for x a
    using w by (auto simp: uf_owns_def)
  have e: "(\<exists>x. uf_owns (?p x) a s) \<longleftrightarrow> (\<exists>x. uf_owns x a s)" for a by metis
  show ?thesis
    unfolding uf_inv_def o e
  proof (intro conjI allI impI)
    fix a x y assume "uf_owns (?p x) a s" "uf_owns (?p y) a s"
    then have "?p x = ?p y" using uf_invD(3) [OF i] by blast
    then show "x = y" by (auto split: if_splits)
  qed (use uf_invD(1,2,4) [OF i] w in \<open>auto split: if_splits\<close>)
qed

lemma uf_perform_ok:
  assumes i: "uf_inv s" and l: "uf_legal a s"
  shows "\<exists>s'. uf_perform a s = Some s' \<and> uf_inv s'"
proof (cases a)
  case (Uf_construct_from v u)
  then obtain w where w: "uf_objects s u = Some w" using l by auto
  have "u \<noteq> v" "\<not> uf_owns v b s" for b using l Uf_construct_from by (auto simp: uf_owns_def)
  with w show ?thesis using Uf_construct_from uf_transfer [OF i] by (simp add: uf_construct_from_def)
next
  case (Uf_assign v u)
  show ?thesis
  proof (cases "v = u")
    case False
    obtain s1 where 1: "uf_reset v s = Some s1" "uf_inv s1" "\<forall>b. \<not> uf_owns v b s1" "\<forall>x. x \<noteq> v \<longrightarrow> uf_objects s1 x = uf_objects s x"
      using uf_reset_ok [OF i, of v] l Uf_assign by auto
    obtain w where w: "uf_objects s1 u = Some w" using 1(4) l Uf_assign False by fastforce
    have "uf_inv (uf_put v w (uf_put u uf_null s1))" by (rule uf_transfer [OF 1(2) w]) (use 1(3) False in auto)
    then show ?thesis using Uf_assign False 1(1) w by (simp add: uf_assign_def)
  qed (use i Uf_assign in \<open>simp add: uf_assign_def\<close>)
next
  case (Uf_destruct v)
  obtain s1 where 1: "uf_reset v s = Some s1" "uf_inv s1" "\<forall>b. \<not> uf_owns v b s1"
    using uf_reset_ok [OF i, of v] l Uf_destruct by auto
  let ?s = "s1\<lparr>uf_objects := (uf_objects s1)(v := None)\<rparr>"
  have o: "uf_owns x b ?s \<longleftrightarrow> uf_owns x b s1" for x b using 1(3) by (auto simp: uf_owns_def)
  have "uf_inv ?s" using 1(2) unfolding uf_inv_def o by (auto split: if_splits)
  then show ?thesis using Uf_destruct 1(1) by (simp add: uf_destruct_def)
next
  case (Uf_reset v)
  then show ?thesis using uf_reset_ok [OF i, of v] l by auto
next
  case (Uf_swap v u)
  then show ?thesis using uf_swap_inv [OF i] l by (auto simp: uf_swap_def)
qed (use l uf_fresh [OF i] uf_construct_inv [OF i] in \<open>auto simp: uf_construct_empty_def uf_construct_def\<close>)

lemma uf_reachable_inv: "uf_reachable s \<Longrightarrow> uf_inv s"
proof (induction rule: uf_reachable.induct)
  case start
  then show ?case by (simp add: uf_inv_def uf_initial_def uf_owns_def)
next
  case (step s a s')
  then show ?case using uf_perform_ok [of s a] by auto
qed

section \<open>Properties\<close>

text \<open>
  C21. The callable wrapper owns its target soundly under every program of constructions, moves,
  assignments, swaps, resets and destructions, between any names: every legal operation succeeds, so
  that no cell is freed twice and no null deleter is called; an allocated cell has exactly one owner,
  so that nothing leaks and nothing dangles; a wrapper tests as engaged exactly when a call finds its
  callable; and when every wrapper is gone the heap is empty.
\<close>

theorem uf_memory_safe:
  assumes "uf_reachable s"
  shows "(\<forall>a. uf_legal a s \<longrightarrow> (\<exists>s'. uf_perform a s = Some s')) \<and>
    (\<forall>a. uf_cells s a \<noteq> None \<longleftrightarrow> (\<exists>!v. uf_owns v a s)) \<and>
    (\<forall>v. uf_engaged v s \<longleftrightarrow> uf_call v s \<noteq> None) \<and>
    (uf_objects s = Map.empty \<longrightarrow> uf_cells s = Map.empty)"
proof -
  have i: "uf_inv s" using uf_reachable_inv [OF assms] .
  have "uf_engaged v s \<longleftrightarrow> uf_call v s \<noteq> None" for v
  proof (cases "uf_objects s v")
    case (Some w)
    then show ?thesis using uf_invD(1) [OF i Some] uf_invD(2) [OF i]
      by (cases "uf_target w") (auto simp: uf_engaged_def uf_call_def uf_whole_def uf_owns_def)
  qed (simp add: uf_engaged_def uf_call_def)
  moreover have "uf_cells s = Map.empty" if "uf_objects s = Map.empty"
    using uf_invD(2) [OF i] that by (auto simp: uf_owns_def)
  ultimately show ?thesis using uf_perform_ok [OF i] uf_invD(2,3) [OF i] by blast
qed

text \<open>A handler is stored, moved into a table slot, assigned to itself, and dropped.\<close>

definition uf_sample :: "nat uf_action list" where
  "uf_sample = [Uf_construct 0 42, Uf_construct_from 1 0, Uf_assign 1 1, Uf_destruct 0]"

fun uf_run :: "'f uf_action list \<Rightarrow> 'f uf_state \<Rightarrow> 'f uf_state option" where
  "uf_run [] s = Some s"
| "uf_run (a # as) s = (if uf_legal a s then (case uf_perform a s of None \<Rightarrow> None | Some s1 \<Rightarrow> uf_run as s1) else None)"

lemma uf_run_reachable: "uf_reachable s \<Longrightarrow> uf_run as s = Some s' \<Longrightarrow> uf_reachable s'"
  by (induction as arbitrary: s) (auto split: if_splits option.splits intro: uf_reachable.step)

theorem uf_memory_safe_witness:
  "uf_call 1 (the (uf_run uf_sample uf_initial)) = Some 42 \<and> uf_engaged 1 (the (uf_run uf_sample uf_initial))"
proof -
  let ?s = "the (uf_run uf_sample uf_initial)"
  have "\<not> Option.is_none (uf_run uf_sample uf_initial)" by code_simp
  then have "uf_run uf_sample uf_initial = Some ?s" by (cases "uf_run uf_sample uf_initial") auto
  from uf_memory_safe [OF uf_run_reachable [OF uf_reachable.start this]]
  have "uf_engaged 1 ?s \<longleftrightarrow> uf_call 1 ?s \<noteq> None" by blast
  moreover have "uf_call 1 ?s = Some 42" by code_simp
  ultimately show ?thesis by simp
qed

end
