(* ===== verification/Spec2Isabelle.thy ===== *)
theory Spec2Isabelle
  imports Connection Encoded_Word Io_Box Fetch_Wire Session_Run Snapshot Reply_Path Context_Shell Unique_Function
begin

text \<open>
  \<^bold>\<open>A verification development of bkmail\<close>

  bkmail is an IMAP4rev1 client library in C++ (headers under \<open>src/include/bkmail\<close>). An octet stream
  arrives from the transport; the response framer cuts it into responses, the shallow parser
  classifies them, and the read pump dispatches each one to the operation or the handlers it
  concerns. Commands render themselves into segments that the write pump stages in submission order.
  The connection core keeps the queue of operation cells, the tag registry and the close, cancel,
  abandon and loss protocols (layer 1). Layer 2 wraps a context in a connection handle and exposes
  the session states of RFC 3501 as move-only objects whose operations are senders: each consumes
  its state and completes with the next one.

  \<^bold>\<open>Theories and sources\<close> (paths under \<open>src/include/bkmail\<close>)

  \<^item> \<open>Prelude\<close>: octets, searches of \<open>std::string_view\<close>, decimal numbers, shared lemma collections.
  \<^item> \<open>Astring\<close>: \<open>imap/detail/astring.h\<close>, character classes and the quoted, literal and astring forms.
  \<^item> \<open>Lexer\<close>: \<open>imap/detail/response_lexer.h\<close>, the incremental framer with literals.
  \<^item> \<open>Cursor\<close>: \<open>imap/detail/parse_cursor.h\<close>, the deep-parse cursor, its scratch buffer and the liveness of
    views into it.
  \<^item> \<open>Values\<close>: flags, FETCH items, capability set, sequence sets, search criteria, mailbox data, error codes.
  \<^item> \<open>Parser\<close>: \<open>imap/response.h\<close> and \<open>imap/detail/response_parser.h\<close>.
  \<^item> \<open>Mail\<close>, \<open>Fetch_Parse\<close>, \<open>Mail_Header\<close>: the mail records of \<open>common/\<close>, the walkers of
    \<open>imap/detail/fetch_parse.h\<close>, the header and address parsers, the RFC 2047 decoder of
    \<open>common/mail_header.h\<close>. \<open>Fetch_Wire\<close>, \<open>Encoded_Word\<close>: what they read.
  \<^item> \<open>Commands\<close>, \<open>Replies\<close>: \<open>imap/command/*.h\<close>, rendering, segment protocol, collected replies and reply
    mapping. \<open>Mail_Wire\<close>: \<open>render_mail\<close> of APPEND against the reader of FETCH.
  \<^item> \<open>Unsolicited\<close>: the events and the handler table. \<open>Operation\<close>: the cells of \<open>imap/operation_base.h\<close>.
  \<^item> \<open>Core\<close>, \<open>Imap_Context\<close>: \<open>imap/imap_context.h\<close>. \<open>Write_Pump\<close>, \<open>Read_Pump\<close>: \<open>imap/detail/*_pump.h\<close>.
  \<^item> \<open>Engine\<close>: the connection as a state machine with the public calls, the posted tasks and the
    completions of reads and writes as actions. \<open>Connection\<close>: properties of every reachable state.
  \<^item> \<open>Living\<close>: the contexts layer 2 works with. \<open>Session\<close>: \<open>imap/imap_connection.h\<close>, the states of
    \<open>imap/state/*.h\<close>, their senders and successor factories, and the diagram of RFC 3501 as \<open>rfc_next\<close>.
  \<^item> \<open>State_Op\<close>, \<open>Idle_Op\<close>: the generic operation and the IDLE cycle of
    \<open>imap/state/detail/state_op_sender.h\<close>. \<open>Start_Tls\<close>: the upgrade of \<open>imap/state/not_authenticated.h\<close>.
    \<open>Connect_Op\<close>: \<open>imap/connect.h\<close>. \<open>Session_Run\<close>: whole sessions. \<open>Snapshot\<close>: the mailbox snapshot of a
    Selected state while an operation runs.
  \<^item> \<open>Watch\<close>: locales that follow one cell through every action of the engine. \<open>Reply_Path\<close>: from the
    octets of a reply, or the loss of the connection, to the receiver of a layer-2 operation.
  \<^item> \<open>Submit_Sender\<close>: \<open>imap/detail/submit_sender.h\<close>, \<open>imap/imap_command.h\<close> and the allocation of cells.
    \<open>Context_Shell\<close>: the public handle \<open>imap_context\<close> around the core.
  \<^item> \<open>Unique_Function\<close>: \<open>common/detail/unique_function.h\<close> on an explicit heap. \<open>Io_Box\<close>: the boxes of
    \<open>imap/operation_base.h\<close> that hold an armed I/O operation.

  \<^bold>\<open>State and effects\<close>

  A class is a record, a member function a function from the record to the changed record. An
  operation cell is a value with an identity; \<open>None\<close> of an engine action is a failing assert, an access
  through a pointer to a destroyed cell, or a loop that does not end. Events (values and stops
  delivered, handlers notified, cells withdrawn or dropped, the descriptor closed) are appended to the
  field \<open>trace\<close>. Allocation failures are branches chosen by \<open>fates\<close>. The transport and the
  executor are the choice of the next action: an enabled action may happen at any time, so that a
  theorem over reachable states covers every interleaving of calls and completions. The dynamic
  buffer of bnio is a parameter \<open>buffer_ops\<close> with its documented contract, instantiated by lists in
  the witnesses. In layer 2 the handlers of the events that a call or an action emitted run right
  after it; a fault (failed assert, exception in a noexcept function, dead pointer) is a value, and
  the log of an operation records its completions and accesses after them. The callable wrapper has
  an explicit heap, with None for a double free or a call through a dead pointer.

  \<^bold>\<open>What is shown\<close>

  \<^item> Layer 1: every operation is accounted for exactly once, the descriptor is closed once and last,
    the buffer of an armed write is stable, an open connection follows no dead pointer, replies are
    attributed in order, a framed tagged reply completes its operation, a started sender signals its
    receiver at most once, cancellation and destruction behave as documented, tags repeat only modulo \<open>2 ^ 64\<close>; and the runs of the close protocol that
    lose an operation or leave a dead registry entry.
  \<^item> Wire: framing is complete, sound and independent of the segmentation of the stream; parsers accept
    exactly the grammars; responses, FETCH data, encoded words and messages round-trip; the loops
    return, except where a theorem characterises the inputs on which they do not.
  \<^item> Layer 2: each operation, the IDLE cycle and connecting complete their receiver at most once under
    every race; a reply or the loss of the connection completes a waiting operation; whole sessions are
    runs of the automaton of RFC 3501; no push is lost while an operation runs; the capabilities after STARTTLS come from the TLS context; the
    state after connecting is the one the greeting announced; and runs in which a stop request or a push
    is lost, or a handler outlives its operation.
  \<^item> Callable wrapper: every cell is owned by one wrapper, freed once and never leaked.

  \<^bold>\<open>Bounds and fuel\<close>

  The read loop takes one round per response; \<open>read_round\<close> is one round, and a loop over a buffer of
  \<open>n\<close> octets ends within \<open>n + 1\<close> rounds because every response consumes an octet. The SEARCH reader is a
  partial function whose domain is characterised. Counters keep the width of the code: tags wrap at 64
  bits, message numbers at 32 or 64. Body structures nest at most 32 levels below the first.

  \<^bold>\<open>Not modelled\<close>

  Allocators (a failing allocation is a branch, their types are not), the sender and receiver types of
  bexec, concepts and completion-signature templates (types without behaviour), \<open>common/pack.h\<close> (one call
  of an adaptor of bexec), version and export glue, the programs under \<open>src/examples\<close>. The scheduler is a
  field of the context's shell; which thread runs a task does not matter, because runs choose the
  next action freely. The memory order of atomics is not modelled: an action is atomic.
\<close>

end
